(* ===== verification/Prelude.thy ===== *)
theory Prelude
  imports Main "HOL-Library.Word"
begin

text \<open>
  Shared vocabulary of the development: the machine types, Rust's results and panics as
  values, the fact collections, and the two interfaces every stateful component is an
  instance of (a system whose steps keep an invariant, and one that also has a quantity
  that only grows).
\<close>

section \<open>Machine types\<close>

text \<open>
  Fixed-width integers are words.  A \<open>usize\<close> that only counts or bounds things is a
  \<open>nat\<close>; every cast of such a count to a fixed width is written out with
  \<open>of_nat\<close>, which reduces modulo the width as Rust's \<open>as\<close> does.
\<close>

type_synonym u8 = "8 word"
type_synonym u16 = "16 word"
type_synonym u32 = "32 word"
type_synonym u64 = "64 word"
type_synonym bytes = "u8 list"

text \<open>\<open>u64::saturating_add\<close> with a \<open>usize\<close> operand cast to 64 bits.\<close>

definition saturating_add64 :: "u64 \<Rightarrow> nat \<Rightarrow> u64" where
  "saturating_add64 x n =
     (if unat x + n mod 2 ^ 64 < 2 ^ 64 then x + of_nat n else - 1)"

section \<open>Results and panics\<close>

text \<open>
  \<open>Result<T, E>\<close> is \<open>'e + 'a\<close> with \<open>Inl\<close> the error.  \<open>?\<close> is
  \<open>and_then\<close>.  Code that can panic returns an \<open>outcome\<close>.
\<close>

fun and_then :: "'e + 'a \<Rightarrow> ('a \<Rightarrow> 'e + 'b) \<Rightarrow> 'e + 'b" where
  "and_then (Inl e) f = Inl e"
| "and_then (Inr a) f = f a"

fun map_err :: "('e \<Rightarrow> 'f) \<Rightarrow> 'e + 'a \<Rightarrow> 'f + 'a" where
  "map_err g (Inl e) = Inl (g e)"
| "map_err g (Inr a) = Inr a"

fun ok_or :: "'e \<Rightarrow> 'a option \<Rightarrow> 'e + 'a" where
  "ok_or e None = Inl e"
| "ok_or e (Some a) = Inr a"

datatype 'a outcome = Panic | Done 'a

fun bind_outcome :: "'a outcome \<Rightarrow> ('a \<Rightarrow> 'b outcome) \<Rightarrow> 'b outcome" where
  "bind_outcome Panic f = Panic"
| "bind_outcome (Done a) f = f a"

named_theorems codec_simps \<open>serialisers and parsers, unfolded together\<close>
named_theorems step_defs \<open>the operations of a component, unfolded together\<close>

lemma and_then_eq_Inr [simp]:
  "and_then r f = Inr b \<longleftrightarrow> (\<exists>a. r = Inr a \<and> f a = Inr b)"
  by (cases r) auto

lemma map_err_eq_Inr [simp]: "map_err g r = Inr a \<longleftrightarrow> r = Inr a"
  by (cases r) auto

lemma ok_or_eq_Inr [simp]: "ok_or e r = Inr a \<longleftrightarrow> r = Some a"
  by (cases r) auto

lemma and_then_assoc [simp]:
  "and_then (and_then r f) g = and_then r (\<lambda>a. and_then (f a) g)"
  by (cases r) auto

lemma bind_outcome_eq_Done [simp]:
  "bind_outcome r f = Done b \<longleftrightarrow> (\<exists>a. r = Done a \<and> f a = Done b)"
  by (cases r) auto

lemma bind_outcome_eq_Panic:
  "bind_outcome r f = Panic \<longleftrightarrow> r = Panic \<or> (\<exists>a. r = Done a \<and> f a = Panic)"
  by (cases r) auto

lemma bind_outcome_cong [fundef_cong]:
  "r = r' \<Longrightarrow> (\<And>a. r' = Done a \<Longrightarrow> f a = g a) \<Longrightarrow> bind_outcome r f = bind_outcome r' g"
  by (cases r') auto

section \<open>Maps\<close>

text \<open>The number of entries of a hash map, \<open>len()\<close>.\<close>

definition map_len :: "('k \<Rightarrow> 'v option) \<Rightarrow> nat" where
  "map_len m = card (dom m)"

lemma map_len_empty [simp]: "map_len Map.empty = 0"
  by (simp add: map_len_def)

lemma map_len_upd:
  "finite (dom m) \<Longrightarrow> map_len (m(k \<mapsto> v)) = (if m k = None then Suc (map_len m) else map_len m)"
  by (auto simp: map_len_def card_insert_if domIff)

lemma map_len_del:
  "finite (dom m) \<Longrightarrow> map_len (m(k := None)) = (if m k = None then map_len m else map_len m - 1)"
  by (auto simp: map_len_def domIff)

section \<open>Words\<close>

lemma unat_of_nat_u16: "n < 2 ^ 16 \<Longrightarrow> unat (of_nat n :: u16) = n"
  by (simp add: unat_of_nat)

lemma unat_u16_of_nat_unat: "of_nat (unat w) = (w :: u16)"
  by simp

lemma of_nat_u32_mod: "(of_nat (n mod 2 ^ 32) :: u32) = of_nat n"
  by (rule word_unat_eq_iff [THEN iffD2]) (simp add: unat_of_nat)

lemma unat_saturating_add64_le:
  "unat (saturating_add64 x n) \<le> unat x + n"
proof (cases "unat x + n mod 2 ^ 64 < 2 ^ 64")
  case True
  have "unat (x + of_nat n :: u64) = (unat x + n mod 2 ^ 64) mod 2 ^ 64"
    by (simp add: unat_word_ariths unat_of_nat)
  with True have "unat (x + of_nat n :: u64) = unat x + n mod 2 ^ 64" by simp
  moreover have "n mod 2 ^ 64 \<le> n" by (rule mod_less_eq_dividend)
  ultimately show ?thesis using True by (simp add: saturating_add64_def)
next
  case False
  have "unat (- 1 :: u64) = 2 ^ 64 - 1"
    by (simp add: unsigned_minus_1_eq_mask mask_eq_exp_minus_1)
  moreover have "n mod 2 ^ 64 \<le> n" by (rule mod_less_eq_dividend)
  ultimately show ?thesis using False by (simp add: saturating_add64_def)
qed

lemma unat_saturating_add64_exact:
  assumes "unat x + n < 2 ^ 64"
  shows "unat (saturating_add64 x n) = unat x + n"
proof -
  have "n mod 2 ^ 64 = n" using assms by simp
  moreover have "unat (x + of_nat n :: u64) = (unat x + n mod 2 ^ 64) mod 2 ^ 64"
    by (simp add: unat_word_ariths unat_of_nat)
  ultimately show ?thesis using assms by (simp add: saturating_add64_def)
qed

lemma saturating_add64_mono: "x \<le> saturating_add64 x n"
proof (cases "unat x + n mod 2 ^ 64 < 2 ^ 64")
  case True
  have "unat (x + of_nat n :: u64) = (unat x + n mod 2 ^ 64) mod 2 ^ 64"
    by (simp add: unat_word_ariths unat_of_nat)
  with True show ?thesis by (simp add: saturating_add64_def word_le_nat_alt)
next
  case False
  then show ?thesis by (simp add: saturating_add64_def)
qed

section \<open>Step systems\<close>

text \<open>
  A component whose operations are total state transformers: events drive a step
  function, and an invariant that every step keeps holds after every run.
\<close>

locale step_system =
  fixes step :: "'s \<Rightarrow> 'e \<Rightarrow> 's"
    and inv :: "'s \<Rightarrow> bool"
  assumes step_inv: "inv s \<Longrightarrow> inv (step s e)"
begin

lemma run_inv: "inv s \<Longrightarrow> inv (foldl step s es)"
  by (induction es arbitrary: s) (auto intro: step_inv)

lemma run_append: "foldl step s (es @ fs) = foldl step (foldl step s es) fs"
  by simp

end

text \<open>The same with a quantity that no step decreases.\<close>

locale growing_system = step_system step inv
  for step :: "'s \<Rightarrow> 'e \<Rightarrow> 's" and inv :: "'s \<Rightarrow> bool" +
  fixes amount :: "'s \<Rightarrow> nat"
  assumes step_grows: "inv s \<Longrightarrow> amount s \<le> amount (step s e)"
begin

lemma run_grows: "inv s \<Longrightarrow> amount s \<le> amount (foldl step s es)"
proof (induction es arbitrary: s)
  case Nil
  then show ?case by simp
next
  case (Cons e es)
  have "amount s \<le> amount (step s e)" using Cons.prems by (rule step_grows)
  also have "\<dots> \<le> amount (foldl step (step s e) es)"
    using Cons.prems by (intro Cons.IH step_inv)
  finally show ?case by simp
qed

lemma run_prefix_grows:
  "inv s \<Longrightarrow> amount (foldl step s es) \<le> amount (foldl step s (es @ fs))"
  by (simp add: run_grows run_inv)

end

end
