(* ===== verification/Bytes_Buf.thy ===== *)
theory Bytes_Buf
  imports Prelude
begin

text \<open>
  The interface to the \<open>bytes\<close> crate.  A \<open>Bytes\<close>, \<open>BytesMut\<close> or
  \<open>Cursor<Bytes>\<close> is the list of the bytes it still holds; the multi-byte integer
  accessors of \<open>Buf\<close> and \<open>BufMut\<close> are library code, so they are a parameter of
  the model: a record of operations, with their documented laws as a locale.  The
  big-endian operations the documentation describes are an instance of it.
\<close>

section \<open>The operations\<close>

text \<open>\<open>TryGetError\<close>, the error of the \<open>try_get_*\<close> accessors.\<close>

datatype try_get_error = TryGetError (requested: nat) (available: nat)

text \<open>
  \<open>put_*\<close> gives the bytes that are appended to the buffer; \<open>try_get_*\<close> reads from
  the front and returns the rest.
\<close>

record buf_ops =
  put_u16 :: "u16 \<Rightarrow> bytes"
  put_u32 :: "u32 \<Rightarrow> bytes"
  put_u64 :: "u64 \<Rightarrow> bytes"
  try_get_u16 :: "bytes \<Rightarrow> try_get_error + u16 \<times> bytes"
  try_get_u32 :: "bytes \<Rightarrow> try_get_error + u32 \<times> bytes"
  try_get_u64 :: "bytes \<Rightarrow> try_get_error + u64 \<times> bytes"

text \<open>Single bytes need no byte order.\<close>

fun try_get_u8 :: "bytes \<Rightarrow> try_get_error + u8 \<times> bytes" where
  "try_get_u8 [] = Inl (TryGetError 1 0)"
| "try_get_u8 (b # bs) = Inr (b, bs)"

text \<open>The panicking accessors \<open>get_*\<close> of \<open>Buf\<close> fail where \<open>try_get_*\<close> errs.\<close>

fun or_panic :: "'e + 'a \<Rightarrow> 'a outcome" where
  "or_panic (Inl e) = Panic"
| "or_panic (Inr a) = Done a"

lemma or_panic_eq_Done [simp]: "or_panic r = Done a \<longleftrightarrow> r = Inr a"
  by (cases r) auto

section \<open>The laws\<close>

text \<open>An integer of fixed width in front of a buffer.\<close>

locale int_field =
  fixes put :: "'w \<Rightarrow> bytes"
    and get :: "bytes \<Rightarrow> try_get_error + 'w \<times> bytes"
    and width :: nat
  assumes put_len: "length (put x) = width"
    and get_put: "get (put x @ rest) = Inr (x, rest)"
    and get_short: "length bs < width \<Longrightarrow> get bs = Inl (TryGetError width (length bs))"
    and get_enough: "width \<le> length bs \<Longrightarrow> \<exists>x. get bs = Inr (x, drop width bs)"
    and get_sound: "get bs = Inr (x, rest) \<Longrightarrow> bs = put x @ rest"
begin

lemma get_put_exact: "get (put x) = Inr (x, [])"
  using get_put [of x "[]"] by simp

lemma get_len: "get bs = Inr (x, rest) \<Longrightarrow> length bs = width + length rest"
  by (auto dest: get_sound simp: put_len)

lemma get_ok_iff: "(\<exists>r. get bs = Inr r) \<longleftrightarrow> width \<le> length bs"
  using get_short [of bs] get_enough [of bs] by (cases "length bs < width") auto

lemma get_append: "get bs = Inr (x, rest) \<Longrightarrow> get (bs @ tail) = Inr (x, rest @ tail)"
  using get_put [of x "rest @ tail"] get_sound [of bs x rest] by simp

lemma put_inj: "put x = put y \<Longrightarrow> x = y"
  by (metis get_put_exact sum.inject(2) prod.inject)

lemma or_panic_short: "length bs < width \<Longrightarrow> or_panic (get bs) = Panic"
  by (simp add: get_short)

end

locale byte_buf =
  u16: int_field "put_u16 B" "try_get_u16 B" 2 +
  u32: int_field "put_u32 B" "try_get_u32 B" 4 +
  u64: int_field "put_u64 B" "try_get_u64 B" 8
  for B :: buf_ops
begin

lemmas put_len = u16.put_len u32.put_len u64.put_len
lemmas get_put = u16.get_put u32.get_put u64.get_put
lemmas get_put_exact = u16.get_put_exact u32.get_put_exact u64.get_put_exact
lemmas get_sound = u16.get_sound u32.get_sound u64.get_sound
lemmas get_append = u16.get_append u32.get_append u64.get_append
lemmas get_len = u16.get_len u32.get_len u64.get_len

end

lemma try_get_u8_append: "try_get_u8 bs = Inr (b, rest) \<Longrightarrow> try_get_u8 (bs @ tail) = Inr (b, rest @ tail)"
  by (cases bs) auto

lemma try_get_u8_sound: "try_get_u8 bs = Inr (b, rest) \<Longrightarrow> bs = b # rest"
  by (cases bs) auto

section \<open>The contract of a codec\<close>

text \<open>
  What a serialiser and its parser promise each other: a valid value is recovered from
  its serialisation.  \<open>accept\<close> is the success constructor of the parser's result type.
\<close>

locale codec =
  fixes ser :: "'a \<Rightarrow> bytes"
    and par :: "bytes \<Rightarrow> 'r"
    and accept :: "'a \<Rightarrow> 'r"
    and valid :: "'a \<Rightarrow> bool"
  assumes accept_inj: "accept x = accept y \<Longrightarrow> x = y"
    and roundtrip: "valid x \<Longrightarrow> par (ser x) = accept x"
begin

lemma ser_inj: "valid x \<Longrightarrow> valid y \<Longrightarrow> ser x = ser y \<Longrightarrow> x = y"
  by (metis accept_inj roundtrip)

lemma ser_inj_on: "inj_on ser {x. valid x}"
  by (auto intro!: inj_onI dest: ser_inj)

lemma frames_roundtrip: "list_all valid xs \<Longrightarrow> map par (map ser xs) = map accept xs"
  by (induction xs) (auto simp: roundtrip)

end

text \<open>
  A codec without redundancy: the parser accepts nothing but serialisations, so
  serialising what was parsed gives back the bytes that were read.
\<close>

locale exact_codec = codec +
  assumes canonical: "par bs = accept x \<Longrightarrow> bs = ser x"
begin

lemma par_iff: "valid x \<Longrightarrow> par bs = accept x \<longleftrightarrow> bs = ser x"
  using canonical roundtrip by blast

lemma par_unambiguous:
  "par bs = accept x \<Longrightarrow> par cs = accept x \<Longrightarrow> bs = cs"
  by (metis canonical)

end

section \<open>Big-endian operations\<close>

text \<open>A number as \<open>n\<close> bytes, most significant first, and back.\<close>

fun nat_be :: "nat \<Rightarrow> nat \<Rightarrow> bytes" where
  "nat_be 0 k = []"
| "nat_be (Suc n) k = nat_be n (k div 256) @ [of_nat (k mod 256)]"

definition be_nat :: "bytes \<Rightarrow> nat" where
  "be_nat bs = foldl (\<lambda>n b. n * 256 + unat b) 0 bs"

lemma length_nat_be [simp]: "length (nat_be n k) = n"
  by (induction n arbitrary: k) auto

lemma be_nat_snoc: "be_nat (bs @ [b]) = be_nat bs * 256 + unat b"
  by (simp add: be_nat_def)

lemma unat_u8_less: "unat (b :: u8) < 256"
  using unsigned_less [of b] by simp

lemma be_nat_less: "be_nat bs < 256 ^ length bs"
proof (induction bs rule: rev_induct)
  case Nil
  then show ?case by (simp add: be_nat_def)
next
  case (snoc b bs)
  have "be_nat bs * 256 + unat b < (be_nat bs + 1) * 256"
    using unat_u8_less [of b] by simp
  also have "\<dots> \<le> 256 ^ length bs * 256"
    using snoc.IH by (intro mult_le_mono1) simp
  finally show ?case by (simp add: be_nat_snoc mult.commute)
qed

lemma be_nat_nat_be: "k < 256 ^ n \<Longrightarrow> be_nat (nat_be n k) = k"
proof (induction n arbitrary: k)
  case 0
  then show ?case by (simp add: be_nat_def)
next
  case (Suc n)
  have "k div 256 < 256 ^ n" using Suc.prems by (simp add: less_mult_imp_div_less mult.commute)
  then have "be_nat (nat_be n (k div 256)) = k div 256" by (rule Suc.IH)
  then show ?case by (simp add: be_nat_snoc unat_of_nat)
qed

lemma nat_be_be_nat: "nat_be (length bs) (be_nat bs) = bs"
proof (induction bs rule: rev_induct)
  case Nil
  then show ?case by simp
next
  case (snoc b bs)
  have "(be_nat bs * 256 + unat b) div 256 = be_nat bs"
    and "(be_nat bs * 256 + unat b) mod 256 = unat b"
    using unat_u8_less [of b] by simp_all
  with snoc.IH show ?case by (simp add: be_nat_snoc)
qed

definition put_be :: "nat \<Rightarrow> 'w::len word \<Rightarrow> bytes" where
  "put_be n x = nat_be n (unat x)"

definition try_get_be :: "nat \<Rightarrow> bytes \<Rightarrow> try_get_error + 'w::len word \<times> bytes" where
  "try_get_be n bs =
     (if length bs < n then Inl (TryGetError n (length bs))
      else Inr (of_nat (be_nat (take n bs)), drop n bs))"

lemma int_field_be:
  assumes w: "LENGTH('w::len) = 8 * n"
  shows "int_field (put_be n :: 'w word \<Rightarrow> bytes) (try_get_be n) n"
proof
  have size: "256 ^ n = (2 :: nat) ^ LENGTH('w)"
    by (simp add: w power_mult)
  have bound: "unat (x :: 'w word) < 256 ^ n" for x
    unfolding size by (rule unsigned_less)
  fix x :: "'w word" and rest bs :: bytes
  show "length (put_be n x) = n" by (simp add: put_be_def)
  show "try_get_be n (put_be n x @ rest) = Inr (x, rest)"
    using bound by (simp add: try_get_be_def put_be_def be_nat_nat_be)
  show "length bs < n \<Longrightarrow> try_get_be n bs = Inl (TryGetError n (length bs))"
    by (simp add: try_get_be_def)
  show "n \<le> length bs \<Longrightarrow> \<exists>y. try_get_be n bs = Inr (y :: 'w word, drop n bs)"
    by (simp add: try_get_be_def)
  assume get: "try_get_be n bs = Inr (x, rest)"
  then have n: "n \<le> length bs" and x: "x = of_nat (be_nat (take n bs))"
    and rest: "rest = drop n bs"
    by (auto simp: try_get_be_def split: if_splits)
  have len: "length (take n bs) = n" using n by simp
  then have "be_nat (take n bs) < 2 ^ LENGTH('w)"
    using be_nat_less [of "take n bs"] size by simp
  then have "unat x = be_nat (take n bs)" by (simp add: x unat_of_nat)
  then have "put_be n x = nat_be n (be_nat (take n bs))" by (simp add: put_be_def)
  also have "\<dots> = take n bs" using nat_be_be_nat [of "take n bs"] by (simp only: len)
  finally show "bs = put_be n x @ rest" by (simp add: rest)
qed

definition be_ops :: buf_ops where
  "be_ops = \<lparr> put_u16 = put_be 2, put_u32 = put_be 4, put_u64 = put_be 8,
              try_get_u16 = try_get_be 2, try_get_u32 = try_get_be 4,
              try_get_u64 = try_get_be 8 \<rparr>"

interpretation be: byte_buf be_ops
  unfolding be_ops_def byte_buf_def by (simp add: int_field_be)

lemma byte_buf_be_ops: "byte_buf be_ops"
  by (rule be.byte_buf_axioms)

end
