(* ===== verification/Types.thy ===== *)
theory Types
  imports Bytes_Buf
begin

text \<open>
  The public value types of \<^verbatim>\<open>src/src/types.rs\<close>: stream identifiers, sequence
  numbers with the derived order and arithmetic, timestamps and chunks.
\<close>

section \<open>Identifiers, sequence numbers and timestamps\<close>

datatype mani_stream_id = ManiStreamId (stream_id_val: u64)

datatype sequence_number = SequenceNumber (seq_val: u32)

datatype timestamp = Timestamp (timestamp_val: u64)

record chunk =
  chunk_timestamp :: timestamp
  chunk_content :: bytes

text \<open>The derived \<open>PartialOrd\<close> and \<open>Ord\<close> compare the wrapped integers.\<close>

definition seq_le :: "sequence_number \<Rightarrow> sequence_number \<Rightarrow> bool" where
  "seq_le a b \<longleftrightarrow> seq_val a \<le> seq_val b"

definition seq_lt :: "sequence_number \<Rightarrow> sequence_number \<Rightarrow> bool" where
  "seq_lt a b \<longleftrightarrow> seq_val a < seq_val b"

text \<open>They are the order the library's type class gives.\<close>

instantiation sequence_number :: linorder
begin

definition less_eq_sequence_number :: "sequence_number \<Rightarrow> sequence_number \<Rightarrow> bool" where
  "less_eq_sequence_number a b \<longleftrightarrow> seq_le a b"

definition less_sequence_number :: "sequence_number \<Rightarrow> sequence_number \<Rightarrow> bool" where
  "less_sequence_number a b \<longleftrightarrow> seq_lt a b"

instance
  by standard
    (auto simp: less_eq_sequence_number_def less_sequence_number_def seq_le_def seq_lt_def intro: sequence_number.expand)

end

text \<open>
  The derived \<open>Add\<close> and \<open>Sub\<close> are \<open>u32\<close> arithmetic: with overflow checks (a debug
  build) an overflow panics, without them (a release build) it wraps.
\<close>

definition seq_add :: "bool \<Rightarrow> sequence_number \<Rightarrow> sequence_number \<Rightarrow> sequence_number outcome" where
  "seq_add overflow_checks a b =
     (if overflow_checks \<and> 2 ^ 32 \<le> unat (seq_val a) + unat (seq_val b) then Panic
      else Done (SequenceNumber (seq_val a + seq_val b)))"

definition seq_sub :: "bool \<Rightarrow> sequence_number \<Rightarrow> sequence_number \<Rightarrow> sequence_number outcome" where
  "seq_sub overflow_checks a b =
     (if overflow_checks \<and> seq_val a < seq_val b then Panic
      else Done (SequenceNumber (seq_val a - seq_val b)))"

text \<open>The number of a sequence number, for statements about positions.\<close>

definition seq_nat :: "sequence_number \<Rightarrow> nat" where
  "seq_nat s = unat (seq_val s)"

lemma seq_nat_less: "seq_nat s < 2 ^ 32"
  unfolding seq_nat_def using unsigned_less [of "seq_val s"] by simp

lemma seq_nat_inject: "seq_nat a = seq_nat b \<longleftrightarrow> a = b"
  by (cases a; cases b) (simp add: seq_nat_def word_unat_eq_iff)

lemma seq_less_nat: "a < b \<longleftrightarrow> seq_nat a < seq_nat b"
  by (simp add: less_sequence_number_def seq_lt_def seq_nat_def word_less_nat_alt)

lemma seq_le_nat: "a \<le> b \<longleftrightarrow> seq_nat a \<le> seq_nat b"
  by (simp add: less_eq_sequence_number_def seq_le_def seq_nat_def word_le_nat_alt)

lemma seq_nat_of_nat: "n < 2 ^ 32 \<Longrightarrow> seq_nat (SequenceNumber (of_nat n)) = n"
  by (simp add: seq_nat_def unat_of_nat)

lemma seq_sub_Done:
  "b \<le> a \<Longrightarrow> \<exists>d. seq_sub oc a b = Done d \<and> seq_nat d = seq_nat a - seq_nat b"
  by (auto simp: seq_sub_def seq_nat_def less_eq_sequence_number_def seq_le_def unat_sub)

lemma seq_add_Done:
  assumes "seq_nat a + seq_nat b < 2 ^ 32"
  shows "\<exists>d. seq_add oc a b = Done d \<and> seq_nat d = seq_nat a + seq_nat b"
proof -
  have "unat (seq_val a + seq_val b) = (unat (seq_val a) + unat (seq_val b)) mod 2 ^ 32"
    by (simp add: unat_word_ariths)
  with assms show ?thesis by (simp add: seq_add_def seq_nat_def)
qed

end
