(* ===== verification/Packet.thy ===== *)
theory Packet
  imports Types
begin

text \<open>
  The datagram format of \<^verbatim>\<open>src/src/datagram/packet.rs\<close>: the packet header, the
  content header that marks single payloads and fragments, and their parsers.
\<close>

section \<open>Packets\<close>

definition PACKET_WIRE_HEADER_SIZE :: nat where
  "PACKET_WIRE_HEADER_SIZE = 20"

definition SINGLE_CONTENT_OVERHEAD :: nat where
  "SINGLE_CONTENT_OVERHEAD = 1"

definition FRAG_CONTENT_OVERHEAD :: nat where
  "FRAG_CONTENT_OVERHEAD = 5"

record packet =
  pkt_stream_id :: mani_stream_id
  pkt_sequence_number :: sequence_number
  pkt_timestamp :: timestamp
  pkt_content :: bytes

datatype packet_parse_error = UnexpectedEndOfData

text \<open>\<open>impl From<Packet> for Chunk\<close> of \<^verbatim>\<open>types.rs\<close>.\<close>

definition chunk_of_packet :: "packet \<Rightarrow> chunk" where
  "chunk_of_packet p = \<lparr> chunk_timestamp = pkt_timestamp p, chunk_content = pkt_content p \<rparr>"

definition serialize_packet :: "buf_ops \<Rightarrow> packet \<Rightarrow> bytes" where
  "serialize_packet B p =
     put_u64 B (stream_id_val (pkt_stream_id p)) @
     put_u32 B (seq_val (pkt_sequence_number p)) @
     put_u64 B (timestamp_val (pkt_timestamp p)) @
     pkt_content p"

text \<open>The parser uses the panicking accessors \<open>get_u64\<close> and \<open>get_u32\<close>.\<close>

definition parse_packet :: "buf_ops \<Rightarrow> bytes \<Rightarrow> (packet_parse_error + packet) outcome" where
  "parse_packet B cur =
     bind_outcome (or_panic (try_get_u64 B cur)) (\<lambda>(stream_id, cur).
     bind_outcome (or_panic (try_get_u32 B cur)) (\<lambda>(sequence_number, cur).
     bind_outcome (or_panic (try_get_u64 B cur)) (\<lambda>(ts, cur).
       Done (Inr \<lparr> pkt_stream_id = ManiStreamId stream_id,
                   pkt_sequence_number = SequenceNumber sequence_number,
                   pkt_timestamp = Timestamp ts,
                   pkt_content = cur \<rparr>))))"

section \<open>Content\<close>

datatype decoded_content =
    Single bytes
  | Fragment (frag_index: u16) (total_frags: u16) (payload: bytes)

definition encode_single_content :: "bytes \<Rightarrow> bytes" where
  "encode_single_content compressed = 0x00 # compressed"

definition encode_fragment_content :: "buf_ops \<Rightarrow> u16 \<Rightarrow> u16 \<Rightarrow> bytes \<Rightarrow> bytes" where
  "encode_fragment_content B index tf data =
     0x01 # put_u16 B index @ put_u16 B tf @ data"

definition decode_content :: "buf_ops \<Rightarrow> bytes \<Rightarrow> (packet_parse_error + decoded_content) outcome" where
  "decode_content B bs =
     (case bs of
        [] \<Rightarrow> Done (Inl UnexpectedEndOfData)
      | flag # bs \<Rightarrow>
          if flag = 0x00 then Done (Inr (Single bs))
          else if flag = 0x01 then
            (if length bs < 4 then Done (Inl UnexpectedEndOfData)
             else
               bind_outcome (or_panic (try_get_u16 B bs)) (\<lambda>(index, bs).
               bind_outcome (or_panic (try_get_u16 B bs)) (\<lambda>(tf, bs).
                 Done (Inr (Fragment index tf bs)))))
          else Done (Inl UnexpectedEndOfData))"

text \<open>The two encoders as one function of the decoded form.\<close>

fun encode_content :: "buf_ops \<Rightarrow> decoded_content \<Rightarrow> bytes" where
  "encode_content B (Single data) = encode_single_content data"
| "encode_content B (Fragment index tf data) = encode_fragment_content B index tf data"

declare serialize_packet_def [codec_simps] parse_packet_def [codec_simps]
  encode_single_content_def [codec_simps] encode_fragment_content_def [codec_simps]
  decode_content_def [codec_simps]

section \<open>Laws\<close>

context byte_buf
begin

lemma length_serialize_packet:
  "length (serialize_packet B p) = PACKET_WIRE_HEADER_SIZE + length (pkt_content p)"
  by (simp add: codec_simps put_len PACKET_WIRE_HEADER_SIZE_def)

lemma length_encode_fragment_content:
  "length (encode_fragment_content B i t data) = FRAG_CONTENT_OVERHEAD + length data"
  by (simp add: codec_simps put_len FRAG_CONTENT_OVERHEAD_def)

lemma parse_serialize_packet: "parse_packet B (serialize_packet B p) = Done (Inr p)"
  by (simp add: codec_simps get_put)

lemma parse_packet_sound:
  "parse_packet B bs = Done (Inr p) \<Longrightarrow> bs = serialize_packet B p"
  by (auto simp: codec_simps dest!: get_sound)

lemma parse_packet_short: "length bs < PACKET_WIRE_HEADER_SIZE \<Longrightarrow> parse_packet B bs = Panic"
proof -
  assume short: "length bs < PACKET_WIRE_HEADER_SIZE"
  have "parse_packet B bs \<noteq> Done r" for r
  proof
    assume "parse_packet B bs = Done r"
    then obtain p where "parse_packet B bs = Done (Inr p)"
      by (auto simp: codec_simps)
    then have "length bs = PACKET_WIRE_HEADER_SIZE + length (pkt_content p)"
      using parse_packet_sound length_serialize_packet by metis
    with short show False by simp
  qed
  then show ?thesis by (cases "parse_packet B bs") auto
qed

lemma parse_packet_long:
  assumes "PACKET_WIRE_HEADER_SIZE \<le> length bs"
  shows "\<exists>p. parse_packet B bs = Done (Inr p)"
proof -
  have len: "20 \<le> length bs" using assms by (simp add: PACKET_WIRE_HEADER_SIZE_def)
  then have lens: "8 \<le> length bs" "4 \<le> length (drop 8 bs)" "8 \<le> length (drop 4 (drop 8 bs))"
    by simp_all
  obtain a where a: "try_get_u64 B bs = Inr (a, drop 8 bs)"
    using u64.get_enough [OF lens(1)] by blast
  obtain b where b: "try_get_u32 B (drop 8 bs) = Inr (b, drop 4 (drop 8 bs))"
    using u32.get_enough [OF lens(2)] by blast
  obtain c where "try_get_u64 B (drop 4 (drop 8 bs)) = Inr (c, drop 8 (drop 4 (drop 8 bs)))"
    using u64.get_enough [OF lens(3)] by blast
  with a b show ?thesis by (simp add: parse_packet_def)
qed

lemma decode_encode_content: "decode_content B (encode_content B c) = Done (Inr c)"
  by (cases c) (simp_all add: codec_simps get_put put_len)

lemma decode_content_sound:
  "decode_content B bs = Done (Inr c) \<Longrightarrow> bs = encode_content B c"
  by (auto simp: codec_simps split: list.splits if_splits dest!: get_sound)

lemma decode_content_no_panic: "decode_content B bs \<noteq> Panic"
proof (cases "\<exists>rest. bs = 0x01 # rest \<and> 4 \<le> length rest")
  case True
  then obtain rest where bs: "bs = 0x01 # rest" and len: "4 \<le> length rest" by blast
  then have lens: "2 \<le> length rest" "2 \<le> length (drop 2 rest)" by simp_all
  obtain a where "try_get_u16 B rest = Inr (a, drop 2 rest)"
    using u16.get_enough [OF lens(1)] by blast
  moreover obtain b where "try_get_u16 B (drop 2 rest) = Inr (b, drop 2 (drop 2 rest))"
    using u16.get_enough [OF lens(2)] by blast
  ultimately show ?thesis using len by (simp add: bs decode_content_def)
next
  case False
  then show ?thesis by (auto simp: decode_content_def split: list.splits)
qed

end

sublocale byte_buf \<subseteq> packet:
  exact_codec "serialize_packet B" "parse_packet B" "\<lambda>p. Done (Inr p)" "\<lambda>_. True"
  by unfold_locales (auto simp: parse_serialize_packet dest: parse_packet_sound)

sublocale byte_buf \<subseteq> content:
  exact_codec "encode_content B" "decode_content B" "\<lambda>c. Done (Inr c)" "\<lambda>_. True"
  by unfold_locales (auto simp: decode_encode_content dest: decode_content_sound)

section \<open>Properties\<close>

text \<open>C29: A datagram of at least \<open>PACKET_WIRE_HEADER_SIZE\<close> bytes parses to exactly the packet
  that serialises to it, so serialising and parsing are inverse bijections; every shorter
  datagram makes the parser panic, since it uses the panicking accessors.\<close>

theorem packet_wire_format:
  assumes B: "byte_buf B"
  shows "(parse_packet B bs = Done (Inr p) \<longleftrightarrow> bs = serialize_packet B p) \<and>
     (parse_packet B bs = Panic \<longleftrightarrow> length bs < PACKET_WIRE_HEADER_SIZE) \<and>
     (length bs < PACKET_WIRE_HEADER_SIZE \<or> (\<exists>q. parse_packet B bs = Done (Inr q)))"
proof (cases "length bs < PACKET_WIRE_HEADER_SIZE")
  case True
  then show ?thesis
    using byte_buf.parse_packet_short [OF B] byte_buf.length_serialize_packet [OF B, of p] by auto
next
  case False
  then obtain q where "parse_packet B bs = Done (Inr q)"
    using byte_buf.parse_packet_long [OF B, of bs] by auto
  with False show ?thesis
    using byte_buf.parse_packet_sound [OF B] byte_buf.parse_serialize_packet [OF B] by auto
qed

theorem packet_wire_format_witness:
  "parse_packet be_ops (replicate 19 7) = Panic \<and> parse_packet be_ops (replicate 20 7) \<noteq> Panic"
  using packet_wire_format [OF byte_buf_be_ops, of "replicate 19 7"]
    packet_wire_format [OF byte_buf_be_ops, of "replicate 20 7"]
  by (simp add: PACKET_WIRE_HEADER_SIZE_def)

text \<open>C30: The content header is a faithful encoding of single payloads and fragments: decoding
  never panics, accepts nothing but encodings and inverts them; everything it rejects is
  empty, a truncated fragment header or an unknown flag.\<close>

theorem content_format:
  assumes B: "byte_buf B"
  shows "decode_content B (encode_content B c) = Done (Inr c) \<and>
     (decode_content B bs = Done (Inl UnexpectedEndOfData) \<or>
       (\<exists>d. decode_content B bs = Done (Inr d) \<and> bs = encode_content B d)) \<and>
     (decode_content B bs = Done (Inl UnexpectedEndOfData) \<longleftrightarrow>
       bs = [] \<or> hd bs = 0x01 \<and> length bs < FRAG_CONTENT_OVERHEAD \<or> 0x01 < hd bs)"
proof -
  have total: "\<exists>r. decode_content B bs = Done r"
    using byte_buf.decode_content_no_panic [OF B, of bs] by (cases "decode_content B bs") auto
  have "decode_content B bs = Done (Inl UnexpectedEndOfData) \<or> (\<exists>d. decode_content B bs = Done (Inr d))"
    using total by (metis (full_types) packet_parse_error.exhaust sum.exhaust_sel)
  moreover have "decode_content B bs = Done (Inl UnexpectedEndOfData) \<longleftrightarrow>
       bs = [] \<or> hd bs = 0x01 \<and> length bs < FRAG_CONTENT_OVERHEAD \<or> 0x01 < hd bs"
  proof (cases bs)
    case (Cons flag rest)
    have "flag = 0 \<or> flag = 1 \<or> 1 < flag"
      by (metis linorder_less_linear word_gt_0 word_less_1)
    then show ?thesis using total Cons
      by (auto simp: decode_content_def FRAG_CONTENT_OVERHEAD_def split: if_splits)
  qed (simp add: decode_content_def)
  ultimately show ?thesis
    using byte_buf.decode_encode_content [OF B] byte_buf.decode_content_sound [OF B] by blast
qed

theorem content_format_witness:
  "decode_content be_ops (encode_content be_ops (Fragment 2 5 [9, 8])) = Done (Inr (Fragment 2 5 [9, 8])) \<and>
   decode_content be_ops [1, 0, 2] = Done (Inl UnexpectedEndOfData)"
  using content_format [OF byte_buf_be_ops, of "Fragment 2 5 [9, 8]" "[1, 0, 2]"]
  by (simp add: FRAG_CONTENT_OVERHEAD_def)

end
