(* ===== verification/Router.thy ===== *)
theory Router
  imports Packet
begin

text \<open>
  The datagram router of a connection, \<^verbatim>\<open>src/src/datagram/router.rs\<close>: packets of
  registered streams go to the stream's channel, packets of streams that are not registered
  yet wait, up to a number and an age, and are flushed at the registration.
\<close>

section \<open>State and operations\<close>

text \<open>
  \<open>'c\<close> is the type of channel senders; \<open>Instant\<close> and \<open>Duration\<close> are naturals, with
  \<open>duration_since\<close> the truncated subtraction it is documented to be.
\<close>

type_synonym instant = nat

record 'c router =
  dr_senders :: "mani_stream_id \<Rightarrow> 'c option"
  dr_pending_packets :: "mani_stream_id \<Rightarrow> (instant \<times> packet) list option"
  dr_max_packet_buffer_size :: nat
  dr_pending_packet_timeout :: nat

definition router_new :: "nat \<Rightarrow> nat \<Rightarrow> 'c router" where
  "router_new max_packet_buffer_size pending_packet_timeout =
     \<lparr> dr_senders = Map.empty, dr_pending_packets = Map.empty,
       dr_max_packet_buffer_size = max_packet_buffer_size,
       dr_pending_packet_timeout = pending_packet_timeout \<rparr>"

text \<open>
  The spawned task that sends the pending packets and stops at the first failure;
  \<open>ok i\<close> is whether the \<open>i\<close>-th send succeeds.
\<close>

fun flush_packets :: "(nat \<Rightarrow> bool) \<Rightarrow> nat \<Rightarrow> (instant \<times> packet) list \<Rightarrow> packet list" where
  "flush_packets ok i [] = []"
| "flush_packets ok i ((t, packet) # packets) =
     (if ok i then packet # flush_packets ok (Suc i) packets else [])"

definition router_register ::
  "'c router \<Rightarrow> (nat \<Rightarrow> bool) \<Rightarrow> mani_stream_id \<Rightarrow> 'c \<Rightarrow> 'c router \<times> ('c \<times> packet) list" where
  "router_register r ok stream_id sender =
     (let r = r\<lparr> dr_senders := (dr_senders r)(stream_id \<mapsto> sender) \<rparr> in
      case dr_pending_packets r stream_id of
        None \<Rightarrow> (r, [])
      | Some packets \<Rightarrow>
          (r\<lparr> dr_pending_packets := (dr_pending_packets r)(stream_id := None) \<rparr>,
           map (\<lambda>packet. (sender, packet)) (flush_packets ok 0 packets)))"

text \<open>\<open>ok\<close> is whether the \<open>send\<close> on the stream's channel succeeds.\<close>

definition router_route ::
  "'c router \<Rightarrow> instant \<Rightarrow> bool \<Rightarrow> mani_stream_id \<Rightarrow> packet \<Rightarrow> 'c router \<times> ('c \<times> packet) list" where
  "router_route r now ok stream_id packet =
     (case dr_senders r stream_id of
        Some sender \<Rightarrow>
          if ok then (r, [(sender, packet)])
          else (r\<lparr> dr_senders := (dr_senders r)(stream_id := None) \<rparr>, [])
      | None \<Rightarrow>
          (let entry = (case dr_pending_packets r stream_id of Some packets \<Rightarrow> packets | None \<Rightarrow> []);
               entry = (if length entry < dr_max_packet_buffer_size r then entry @ [(now, packet)] else entry)
           in (r\<lparr> dr_pending_packets := (dr_pending_packets r)(stream_id \<mapsto> entry) \<rparr>, [])))"

definition cleanup_pending_packets :: "'c router \<Rightarrow> instant \<Rightarrow> 'c router" where
  "cleanup_pending_packets r now =
     r\<lparr> dr_pending_packets := (\<lambda>stream_id.
          case dr_pending_packets r stream_id of
            None \<Rightarrow> None
          | Some packets \<Rightarrow>
              (let packets = filter (\<lambda>(t, packet). now - t < dr_pending_packet_timeout r) packets
               in if packets \<noteq> [] then Some packets else None)) \<rparr>"

text \<open>A datagram in the loop of \<open>run\<close>.\<close>

definition router_datagram ::
  "buf_ops \<Rightarrow> 'c router \<Rightarrow> instant \<Rightarrow> bool \<Rightarrow> bytes \<Rightarrow> ('c router \<times> ('c \<times> packet) list) outcome" where
  "router_datagram B r now ok datagram =
     bind_outcome (parse_packet B datagram) (\<lambda>parsed. Done
       (case parsed of
          Inr packet \<Rightarrow> router_route r now ok (pkt_stream_id packet) packet
        | Inl err \<Rightarrow> (r, [])))"

text \<open>
  The loop, between which streams register: the deliveries in order, until the connection
  reports an error.
\<close>

datatype 'c router_event =
    CleanupTick instant
  | DatagramRead instant bool bytes
  | ConnectionError
  | Register "nat \<Rightarrow> bool" mani_stream_id 'c

fun router_run ::
  "buf_ops \<Rightarrow> 'c router \<Rightarrow> 'c router_event list \<Rightarrow> ('c router \<times> ('c \<times> packet) list) outcome" where
  "router_run B r [] = Done (r, [])"
| "router_run B r (CleanupTick now # es) = router_run B (cleanup_pending_packets r now) es"
| "router_run B r (DatagramRead now ok datagram # es) =
     bind_outcome (router_datagram B r now ok datagram) (\<lambda>(r, out).
     bind_outcome (router_run B r es) (\<lambda>(r, outs). Done (r, out @ outs)))"
| "router_run B r (ConnectionError # es) = Done (r, [])"
| "router_run B r (Register ok stream_id sender # es) =
     (case router_register r ok stream_id sender of (r, out) \<Rightarrow>
      bind_outcome (router_run B r es) (\<lambda>(r, outs). Done (r, out @ outs)))"

declare router_register_def [step_defs] router_route_def [step_defs]
  cleanup_pending_packets_def [step_defs]

section \<open>The pending buffers are bounded\<close>

definition pending_bounded :: "'c router \<Rightarrow> bool" where
  "pending_bounded r \<longleftrightarrow>
     (\<forall>sid packets. dr_pending_packets r sid = Some packets \<longrightarrow> length packets \<le> dr_max_packet_buffer_size r)"

lemma router_register_bounded:
  "pending_bounded r \<Longrightarrow> pending_bounded (fst (router_register r ok sid sender))"
  by (auto simp: pending_bounded_def step_defs Let_def split: option.split)

lemma router_route_bounded:
  "pending_bounded r \<Longrightarrow> pending_bounded (fst (router_route r now ok sid p))"
  by (fastforce simp: pending_bounded_def step_defs Let_def split: option.split)

lemma cleanup_bounded: "pending_bounded r \<Longrightarrow> pending_bounded (cleanup_pending_packets r now)"
  by (fastforce simp: pending_bounded_def step_defs Let_def split: option.splits if_splits
      intro: le_trans [OF length_filter_le])

text \<open>One event as a state transformer; a datagram that panics leaves the state.\<close>

fun router_step :: "buf_ops \<Rightarrow> 'c router \<Rightarrow> 'c router_event \<Rightarrow> 'c router" where
  "router_step B r (CleanupTick now) = cleanup_pending_packets r now"
| "router_step B r (DatagramRead now ok datagram) =
     (case router_datagram B r now ok datagram of Panic \<Rightarrow> r | Done (r, out) \<Rightarrow> r)"
| "router_step B r ConnectionError = r"
| "router_step B r (Register ok sid sender) = fst (router_register r ok sid sender)"

lemma router_datagram_cases:
  assumes "router_datagram B r now ok d = Done (r', out)"
  obtains (routed) p where "parse_packet B d = Done (Inr p)" "router_route r now ok (pkt_stream_id p) p = (r', out)"
  | (ignored) "r' = r" "out = []"
proof -
  from assms obtain x where x: "parse_packet B d = Done x"
    by (auto simp: router_datagram_def)
  show thesis
    using assms x routed ignored by (cases x) (auto simp: router_datagram_def)
qed

lemma router_datagram_bounded:
  assumes "pending_bounded r" and "router_datagram B r now ok d = Done (r', out)"
  shows "pending_bounded r'"
  using assms(2)
proof (cases rule: router_datagram_cases)
  case (routed p)
  then show ?thesis using router_route_bounded [OF assms(1), of now ok "pkt_stream_id p" p] by simp
qed (use assms(1) in simp)

interpretation router_sys: step_system "router_step B" pending_bounded for B
proof unfold_locales
  fix r e assume inv: "pending_bounded r"
  show "pending_bounded (router_step B r e)"
  proof (cases e)
    case (DatagramRead now ok d)
    with inv show ?thesis
      by (cases "router_datagram B r now ok d") (auto dest: router_datagram_bounded)
  qed (use inv in \<open>simp_all add: cleanup_bounded router_register_bounded\<close>)
qed

lemma router_run_state:
  "router_run B r es = Done (r', out) \<Longrightarrow> \<exists>n. r' = foldl (router_step B) r (take n es)"
proof (induction B r es arbitrary: out rule: router_run.induct)
  case (1 B r)
  then show ?case by simp
next
  case (2 B r now es)
  then obtain n where "r' = foldl (router_step B) (cleanup_pending_packets r now) (take n es)" by auto
  then show ?case by (intro exI [of _ "Suc n"]) simp
next
  case (3 B r now ok d es)
  from 3(2) obtain r1 out1 out2 where "router_datagram B r now ok d = Done (r1, out1)"
    and "router_run B r1 es = Done (r', out2)" by auto
  moreover from this 3(1) obtain n where "r' = foldl (router_step B) r1 (take n es)" by blast
  ultimately show ?case by (intro exI [of _ "Suc n"]) simp
next
  case (4 B r es)
  then show ?case by (intro exI [of _ 0]) simp
next
  case (5 B r ok sid sender es)
  obtain r1 out1 where reg: "router_register r ok sid sender = (r1, out1)"
    by (cases "router_register r ok sid sender")
  with 5(2) obtain out2 where "router_run B r1 es = Done (r', out2)" by auto
  with 5(1) reg obtain n where "r' = foldl (router_step B) r1 (take n es)" by metis
  with reg show ?case by (intro exI [of _ "Suc n"]) simp
qed

lemma router_route_max:
  "dr_max_packet_buffer_size (fst (router_route r now ok sid p)) = dr_max_packet_buffer_size r"
  by (simp add: router_route_def Let_def split: option.split)

lemma router_step_max: "dr_max_packet_buffer_size (router_step B r e) = dr_max_packet_buffer_size r"
proof (cases e)
  case (DatagramRead now ok d)
  show ?thesis
  proof (cases "router_datagram B r now ok d")
    case (Done x)
    obtain r1 out where x: "x = (r1, out)" by (cases x)
    from Done [unfolded x] show ?thesis
    proof (cases rule: router_datagram_cases)
      case (routed p)
      then show ?thesis
        using router_route_max [of r now ok "pkt_stream_id p" p] DatagramRead Done x by simp
    qed (use DatagramRead Done x in simp)
  qed (simp add: DatagramRead)
qed (simp_all add: cleanup_pending_packets_def router_register_def Let_def split: option.split)

lemma router_run_max:
  assumes "router_run B r es = Done (r', out)"
  shows "dr_max_packet_buffer_size r' = dr_max_packet_buffer_size r"
proof -
  have "dr_max_packet_buffer_size (foldl (router_step B) r fs) = dr_max_packet_buffer_size r" for fs
    by (induction fs arbitrary: r) (simp_all add: router_step_max)
  then show ?thesis using router_run_state [OF assms] by metis
qed

section \<open>Waiting for the registration\<close>

text \<open>Packets routed to an unregistered stream, with their arrival times.\<close>

fun route_all :: "'c router \<Rightarrow> mani_stream_id \<Rightarrow> (instant \<times> packet) list \<Rightarrow> 'c router" where
  "route_all r sid [] = r"
| "route_all r sid ((now, packet) # ps) = route_all (fst (router_route r now True sid packet)) sid ps"

lemma route_all_pending:
  assumes "dr_senders r sid = None" and "ps \<noteq> []"
    and "entry = (case dr_pending_packets r sid of Some packets \<Rightarrow> packets | None \<Rightarrow> [])"
    and "length entry \<le> dr_max_packet_buffer_size r"
  shows "route_all r sid ps =
     r\<lparr> dr_pending_packets := (dr_pending_packets r)
          (sid \<mapsto> entry @ take (dr_max_packet_buffer_size r - length entry) ps) \<rparr>"
  using assms
proof (induction ps arbitrary: r entry)
  case (Cons p ps)
  obtain now packet where p: "p = (now, packet)" by (cases p)
  let ?entry = "if length entry < dr_max_packet_buffer_size r then entry @ [(now, packet)] else entry"
  let ?r = "r\<lparr> dr_pending_packets := (dr_pending_packets r)(sid \<mapsto> ?entry) \<rparr>"
  have step: "fst (router_route r now True sid packet) = ?r"
    using Cons.prems(1,3) by (simp add: router_route_def Let_def)
  have fits: "?entry @ take (dr_max_packet_buffer_size r - length ?entry) ps =
      entry @ take (dr_max_packet_buffer_size r - length entry) (p # ps)"
  proof (cases "length entry < dr_max_packet_buffer_size r")
    case True
    then obtain k where "dr_max_packet_buffer_size r - length entry = Suc k"
      by (metis Suc_diff_Suc)
    moreover from this have "dr_max_packet_buffer_size r - Suc (length entry) = k" by simp
    ultimately show ?thesis using True p by simp
  next
    case False
    with Cons.prems(4) show ?thesis by simp
  qed
  show ?case
  proof (cases "ps = []")
    case True
    then have "?entry = entry @ take (dr_max_packet_buffer_size r - length entry) (p # ps)"
      using fits by simp
    moreover have "route_all r sid (p # ps) = ?r" using True p step by simp
    ultimately show ?thesis by (simp only:)
  next
    case False
    have "route_all ?r sid ps = ?r\<lparr> dr_pending_packets := (dr_pending_packets ?r)
          (sid \<mapsto> ?entry @ take (dr_max_packet_buffer_size ?r - length ?entry) ps) \<rparr>"
      using Cons.prems(1,4) False by (intro Cons.IH) auto
    moreover have "?r\<lparr> dr_pending_packets := (dr_pending_packets ?r)(sid \<mapsto> x) \<rparr> =
        r\<lparr> dr_pending_packets := (dr_pending_packets r)(sid \<mapsto> x) \<rparr>" for x by simp
    moreover have "dr_max_packet_buffer_size ?r = dr_max_packet_buffer_size r" by simp
    moreover have "route_all r sid (p # ps) = route_all ?r sid ps"
      by (simp only: p route_all.simps step)
    ultimately show ?thesis using fits by (simp only:)
  qed
qed simp

lemma flush_all: "(\<And>i. ok i) \<Longrightarrow> flush_packets ok i ps = map snd ps"
  by (induction ps arbitrary: i) auto

section \<open>Properties\<close>

text \<open>A packet for the concrete instances below.\<close>

definition early_packet :: "u32 \<Rightarrow> packet" where
  "early_packet n = \<lparr> pkt_stream_id = ManiStreamId 3, pkt_sequence_number = SequenceNumber n,
     pkt_timestamp = Timestamp 0, pkt_content = [1] \<rparr>"

text \<open>C37: Packets that arrive before their stream is registered are delivered to it at the
  registration, in the order of their arrival and once each, the first ones up to the buffer
  limit; afterwards nothing of them is left, and packets of the stream go to it directly.\<close>

theorem early_packets_delivered:
  assumes "dr_senders r sid = None" and "dr_pending_packets r sid = None" and "ps \<noteq> []" and "\<And>i. ok i"
  shows "snd (router_register (route_all r sid ps) ok sid sender) =
       map (\<lambda>p. (sender, snd p)) (take (dr_max_packet_buffer_size r) ps) \<and>
     dr_pending_packets (fst (router_register (route_all r sid ps) ok sid sender)) = dr_pending_packets r \<and>
     router_route (fst (router_register (route_all r sid ps) ok sid sender)) now True sid q =
       (fst (router_register (route_all r sid ps) ok sid sender), [(sender, q)])"
proof -
  have "route_all r sid ps = r\<lparr> dr_pending_packets := (dr_pending_packets r)
          (sid \<mapsto> take (dr_max_packet_buffer_size r) ps) \<rparr>"
    using route_all_pending [OF assms(1,3), of "[]"] assms(2) by simp
  then show ?thesis
    using assms(2,4) by (simp add: router_register_def router_route_def flush_all fun_upd_idem)
qed

theorem early_packets_delivered_witness:
  "snd (router_register (route_all (router_new 1 5) (ManiStreamId 3) [(0, early_packet 0), (1, early_packet 1)])
       (\<lambda>i. True) (ManiStreamId 3) ()) = [((), early_packet 0)]"
  using early_packets_delivered [of "router_new 1 5" "ManiStreamId 3" "[(0, early_packet 0), (1, early_packet 1)]"
      "\<lambda>i. True" "()"]
  by (simp add: router_new_def del: route_all.simps)

text \<open>In every run of the router, whatever datagrams, registrations and cleanups come, no
  stream ever has more pending packets than the configured maximum.\<close>

lemma router_pending_bounded:
  assumes "router_run B (router_new n timeout) es = Done (r, out)"
    and "dr_pending_packets r sid = Some packets"
  shows "length packets \<le> n"
proof -
  have "pending_bounded (router_new n timeout)" by (simp add: pending_bounded_def router_new_def)
  then have "pending_bounded r"
    using router_run_state [OF assms(1)] router_sys.run_inv by blast
  moreover have "dr_max_packet_buffer_size r = n"
    using router_run_max [OF assms(1)] by (simp add: router_new_def)
  ultimately show ?thesis using assms(2) by (auto simp: pending_bounded_def)
qed

text \<open>A cleanup keeps exactly the pending packets younger than the timeout, in their order,
  and no stream without any; registrations are not touched.\<close>

lemma cleanup_keeps_young:
  "dr_senders (cleanup_pending_packets r now) = dr_senders r \<and>
   dr_pending_packets (cleanup_pending_packets r now) sid \<noteq> Some [] \<and>
   (case dr_pending_packets (cleanup_pending_packets r now) sid of None \<Rightarrow> [] | Some packets \<Rightarrow> packets) =
     filter (\<lambda>(t, packet). now - t < dr_pending_packet_timeout r)
       (case dr_pending_packets r sid of None \<Rightarrow> [] | Some packets \<Rightarrow> packets)"
  by (auto simp: cleanup_pending_packets_def Let_def split: option.split)

end
