(* ===== verification/Compression.thy ===== *)
theory Compression
  imports Types
begin

text \<open>
  The pluggable compression of \<^verbatim>\<open>src/src/compression.rs\<close>.  The algorithms are the
  crates \<open>flate2\<close>, \<open>zstd\<close> and \<open>lz4_flex\<close>: a parameter of the model, with
  losslessness as the law the code relies on.
\<close>

section \<open>Compression types\<close>

datatype compression_type = Uncompressed | Gzip | Zstd | Lz4

text \<open>\<open>CompressionType::from_u8\<close> and the cast \<open>as u8\<close>; \<open>Uncompressed\<close> is the
  source's variant \<open>None\<close>.\<close>

definition compression_type_from_u8 :: "u8 \<Rightarrow> compression_type option" where
  "compression_type_from_u8 value =
     (if value = 0 then Some Uncompressed
      else if value = 1 then Some Gzip
      else if value = 2 then Some Zstd
      else if value = 3 then Some Lz4
      else None)"

fun compression_type_as_u8 :: "compression_type \<Rightarrow> u8" where
  "compression_type_as_u8 Uncompressed = 0"
| "compression_type_as_u8 Gzip = 1"
| "compression_type_as_u8 Zstd = 2"
| "compression_type_as_u8 Lz4 = 3"

lemma compression_type_from_as [simp]:
  "compression_type_from_u8 (compression_type_as_u8 c) = Some c"
  by (cases c) (simp_all add: compression_type_from_u8_def)

lemma compression_type_from_Some:
  "compression_type_from_u8 v = Some c \<longleftrightarrow> v = compression_type_as_u8 c"
  by (cases c) (auto simp: compression_type_from_u8_def split: if_splits)

section \<open>Compression implementations\<close>

text \<open>
  What the source calls of the three crates.  The readers of \<open>flate2\<close> are drained with
  \<open>read_to_end\<close>, whose result is dropped, so what counts is the bytes they left in the
  output; the other calls return a \<open>Result\<close>.
\<close>

record compression_libs =
  gz_encoder_output :: "bytes \<Rightarrow> bytes"
  gz_decoder_output :: "bytes \<Rightarrow> bytes"
  zstd_encode_all :: "bytes \<Rightarrow> int \<Rightarrow> bytes option"
  zstd_decode_all :: "bytes \<Rightarrow> bytes option"
  lz4_compress_prepend_size :: "bytes \<Rightarrow> bytes"
  lz4_decompress_size_prepended :: "bytes \<Rightarrow> bytes option"

text \<open>The trait object \<open>Box<dyn Compression>\<close>.\<close>

record compression =
  compression_type_of :: compression_type
  compress :: "bytes \<Rightarrow> bytes"
  decompress :: "bytes \<Rightarrow> bytes"

fun unwrap_or_default :: "bytes option \<Rightarrow> bytes" where
  "unwrap_or_default None = []"
| "unwrap_or_default (Some bs) = bs"

definition NoCompression :: compression where
  "NoCompression = \<lparr> compression_type_of = Uncompressed,
     compress = (\<lambda>data. data), decompress = (\<lambda>data. data) \<rparr>"

definition GzipCompression :: "compression_libs \<Rightarrow> compression" where
  "GzipCompression L = \<lparr> compression_type_of = Gzip,
     compress = gz_encoder_output L, decompress = gz_decoder_output L \<rparr>"

definition ZstdCompression :: "compression_libs \<Rightarrow> compression" where
  "ZstdCompression L = \<lparr> compression_type_of = Zstd,
     compress = (\<lambda>data. unwrap_or_default (zstd_encode_all L data 0)),
     decompress = (\<lambda>data. unwrap_or_default (zstd_decode_all L data)) \<rparr>"

definition Lz4Compression :: "compression_libs \<Rightarrow> compression" where
  "Lz4Compression L = \<lparr> compression_type_of = Lz4,
     compress = lz4_compress_prepend_size L,
     decompress = (\<lambda>data. unwrap_or_default (lz4_decompress_size_prepended L data)) \<rparr>"

fun to_boxed_compression :: "compression_libs \<Rightarrow> compression_type \<Rightarrow> compression option" where
  "to_boxed_compression L Uncompressed = Some NoCompression"
| "to_boxed_compression L Gzip = Some (GzipCompression L)"
| "to_boxed_compression L Zstd = Some (ZstdCompression L)"
| "to_boxed_compression L Lz4 = Some (Lz4Compression L)"

lemmas compression_defs =
  NoCompression_def GzipCompression_def ZstdCompression_def Lz4Compression_def

section \<open>Losslessness\<close>

text \<open>The contract of the trait, as the transfer layer relies on it.\<close>

locale lossless =
  fixes comp :: "bytes \<Rightarrow> bytes" and decomp :: "bytes \<Rightarrow> bytes"
  assumes decomp_comp: "decomp (comp data) = data"
begin

lemma comp_inj: "comp a = comp b \<Longrightarrow> a = b"
  by (metis decomp_comp)

lemma decomp_map_comp: "map decomp (map comp xs) = xs"
  by (induction xs) (simp_all add: decomp_comp)

end

interpretation no_compression: lossless "compress NoCompression" "decompress NoCompression"
  by unfold_locales (simp add: NoCompression_def)

text \<open>The documented round trips of the crates.\<close>

locale lossless_libs =
  fixes L :: compression_libs
  assumes gz: "gz_decoder_output L (gz_encoder_output L data) = data"
    and zstd: "\<exists>c. zstd_encode_all L data 0 = Some c \<and> zstd_decode_all L c = Some data"
    and lz4: "lz4_decompress_size_prepended L (lz4_compress_prepend_size L data) = Some data"
begin

lemma zstd_roundtrip:
  "unwrap_or_default (zstd_decode_all L (unwrap_or_default (zstd_encode_all L data 0))) = data"
  using zstd [of data] by auto

lemma boxed_lossless:
  "to_boxed_compression L ct = Some c \<Longrightarrow> lossless (compress c) (decompress c)"
  by (cases ct)
    (auto simp: lossless_def compression_defs gz lz4 zstd_roundtrip)

lemma boxed_type: "to_boxed_compression L ct = Some c \<Longrightarrow> compression_type_of c = ct"
  by (cases ct) (auto simp: compression_defs)

end

text \<open>Crates that store the data as it is satisfy the laws, so they can hold.\<close>

definition stored_libs :: compression_libs where
  "stored_libs = \<lparr> gz_encoder_output = (\<lambda>data. data), gz_decoder_output = (\<lambda>data. data),
     zstd_encode_all = (\<lambda>data level. Some data), zstd_decode_all = Some,
     lz4_compress_prepend_size = (\<lambda>data. data), lz4_decompress_size_prepended = Some \<rparr>"

interpretation stored: lossless_libs stored_libs
  by unfold_locales (simp_all add: stored_libs_def)

lemma to_boxed_compression_total: "\<exists>c. to_boxed_compression L ct = Some c"
  by (cases ct) auto

text \<open>Every compression type of the wire gives an implementation, which is the one asked
  for and restores exactly what it compressed, whichever crates do the work.\<close>

lemma compression_lossless:
  assumes "lossless_libs L"
  shows "\<exists>c. to_boxed_compression L ct = Some c \<and> compression_type_of c = ct \<and>
     (\<forall>data. decompress c (compress c data) = data)"
proof -
  obtain c where c: "to_boxed_compression L ct = Some c"
    using to_boxed_compression_total [of L ct] by blast
  then show ?thesis
    using lossless_libs.boxed_lossless [OF assms c] lossless_libs.boxed_type [OF assms c]
    by (auto simp: lossless_def)
qed

end
