(* ===== verification/Mani_Message.thy ===== *)
theory Mani_Message
  imports Compression
begin

text \<open>
  The messages of a Mani stream, \<^verbatim>\<open>src/src/mani/message.rs\<close>: one record per struct, one
  datatype per enum, and the conversions between enums and their wire numbers.
\<close>

datatype transfer_mode = Dual | UnreliableOnly

definition transfer_mode_from_u8 :: "u8 \<Rightarrow> transfer_mode option" where
  "transfer_mode_from_u8 value =
     (if value = 0x00 then Some Dual else if value = 0x01 then Some UnreliableOnly else None)"

fun transfer_mode_as_u8 :: "transfer_mode \<Rightarrow> u8" where
  "transfer_mode_as_u8 Dual = 0x00"
| "transfer_mode_as_u8 UnreliableOnly = 0x01"

datatype transfer_error_code = UnsupportedCompression | InternalError

definition transfer_error_code_from_u16 :: "u16 \<Rightarrow> transfer_error_code option" where
  "transfer_error_code_from_u16 value =
     (if value = 0x0001 then Some UnsupportedCompression
      else if value = 0x0002 then Some InternalError else None)"

fun transfer_error_code_as_u16 :: "transfer_error_code \<Rightarrow> u16" where
  "transfer_error_code_as_u16 UnsupportedCompression = 0x0001"
| "transfer_error_code_as_u16 InternalError = 0x0002"

record mani_hello =
  hello_compression_type :: compression_type

record mani_payload =
  payload_bytes :: bytes

record mani_nack =
  nack_sequence_numbers :: "sequence_number list"

record mani_retrans =
  retrans_sequence_number :: sequence_number
  retrans_timestamp :: timestamp
  retrans_payload :: bytes

record transfer_start =
  start_mode :: transfer_mode
  start_compression_type :: compression_type
  start_initial_sequence_number :: sequence_number
  start_data_size :: "u64 option"

record transfer_credits_update =
  additional_credits :: nat

record transfer_end =
  final_sequence_number :: sequence_number

record transfer_error =
  error_code :: transfer_error_code

datatype mani_message =
    Hello mani_hello
  | Payload mani_payload
  | Nack mani_nack
  | Retrans mani_retrans
  | TransferStart transfer_start
  | TransferEnd transfer_end
  | TransferEndAck
  | TransferError transfer_error
  | EndOfStream
  | TransferCreditsUpdate transfer_credits_update
  | TransferCreditsRequest

datatype mani_message_type =
    Hello_type
  | Payload_type
  | Nack_type
  | Retrans_type
  | TransferStart_type
  | TransferEnd_type
  | TransferEndAck_type
  | TransferError_type
  | EndOfStream_type
  | TransferCreditsUpdate_type
  | TransferCreditsRequest_type

fun mani_message_type_as_u8 :: "mani_message_type \<Rightarrow> u8" where
  "mani_message_type_as_u8 Hello_type = 0x00"
| "mani_message_type_as_u8 Payload_type = 0x01"
| "mani_message_type_as_u8 Nack_type = 0x02"
| "mani_message_type_as_u8 Retrans_type = 0x03"
| "mani_message_type_as_u8 TransferStart_type = 0x04"
| "mani_message_type_as_u8 TransferEnd_type = 0x05"
| "mani_message_type_as_u8 TransferEndAck_type = 0x06"
| "mani_message_type_as_u8 TransferError_type = 0x07"
| "mani_message_type_as_u8 EndOfStream_type = 0x08"
| "mani_message_type_as_u8 TransferCreditsUpdate_type = 0x09"
| "mani_message_type_as_u8 TransferCreditsRequest_type = 0x0A"

definition mani_message_type_from_u8 :: "u8 \<Rightarrow> mani_message_type option" where
  "mani_message_type_from_u8 value =
     (if value = 0x00 then Some Hello_type
      else if value = 0x01 then Some Payload_type
      else if value = 0x02 then Some Nack_type
      else if value = 0x03 then Some Retrans_type
      else if value = 0x04 then Some TransferStart_type
      else if value = 0x05 then Some TransferEnd_type
      else if value = 0x06 then Some TransferEndAck_type
      else if value = 0x07 then Some TransferError_type
      else if value = 0x08 then Some EndOfStream_type
      else if value = 0x09 then Some TransferCreditsUpdate_type
      else if value = 0x0A then Some TransferCreditsRequest_type
      else None)"

fun message_type :: "mani_message \<Rightarrow> mani_message_type" where
  "message_type (Hello _) = Hello_type"
| "message_type (Payload _) = Payload_type"
| "message_type (Nack _) = Nack_type"
| "message_type (Retrans _) = Retrans_type"
| "message_type (TransferStart _) = TransferStart_type"
| "message_type (TransferEnd _) = TransferEnd_type"
| "message_type TransferEndAck = TransferEndAck_type"
| "message_type (TransferError _) = TransferError_type"
| "message_type EndOfStream = EndOfStream_type"
| "message_type (TransferCreditsUpdate _) = TransferCreditsUpdate_type"
| "message_type TransferCreditsRequest = TransferCreditsRequest_type"

lemma transfer_mode_from_as [simp]: "transfer_mode_from_u8 (transfer_mode_as_u8 m) = Some m"
  by (cases m) (simp_all add: transfer_mode_from_u8_def)

lemma transfer_error_code_from_as [simp]:
  "transfer_error_code_from_u16 (transfer_error_code_as_u16 c) = Some c"
  by (cases c) (simp_all add: transfer_error_code_from_u16_def)

lemma mani_message_type_from_as [simp]:
  "mani_message_type_from_u8 (mani_message_type_as_u8 t) = Some t"
  by (cases t) (simp_all add: mani_message_type_from_u8_def)

lemma mani_message_type_from_Some:
  "mani_message_type_from_u8 v = Some t \<longleftrightarrow> v = mani_message_type_as_u8 t"
  by (cases t) (auto simp: mani_message_type_from_u8_def split: if_splits)

lemma transfer_mode_from_Some:
  "transfer_mode_from_u8 v = Some m \<longleftrightarrow> v = transfer_mode_as_u8 m"
  by (cases m) (auto simp: transfer_mode_from_u8_def split: if_splits)

lemma transfer_error_code_from_Some:
  "transfer_error_code_from_u16 v = Some c \<longleftrightarrow> v = transfer_error_code_as_u16 c"
  by (cases c) (auto simp: transfer_error_code_from_u16_def split: if_splits)

end
