(* ===== verification/Mani_Codec.thy ===== *)
theory Mani_Codec
  imports Mani_Message
begin

text \<open>
  The wire format of Mani messages, \<^verbatim>\<open>src/src/mani/codec.rs\<close>, and the framed reader and
  writer of \<^verbatim>\<open>src/src/mani/frame.rs\<close>.
\<close>

section \<open>Parser\<close>

datatype mani_message_parse_error =
    InvalidMessageType u8
  | InvalidMessageFormat
  | UnexpectedEndOfMessage try_get_error

text \<open>\<open>cur.try_get_*()?\<close>: the accessor's error becomes \<open>UnexpectedEndOfMessage\<close>.\<close>

abbreviation read_or_end ::
  "try_get_error + 'a \<Rightarrow> ('a \<Rightarrow> mani_message_parse_error + 'b) \<Rightarrow> mani_message_parse_error + 'b" where
  "read_or_end r \<equiv> and_then (map_err UnexpectedEndOfMessage r)"

definition parse_hello_message :: "bytes \<Rightarrow> mani_message_parse_error + mani_message" where
  "parse_hello_message cur =
     read_or_end (try_get_u8 cur) (\<lambda>(ct, cur).
     and_then (ok_or InvalidMessageFormat (compression_type_from_u8 ct)) (\<lambda>ct.
       Inr (Hello \<lparr> hello_compression_type = ct \<rparr>)))"

definition parse_payload_message :: "bytes \<Rightarrow> mani_message_parse_error + mani_message" where
  "parse_payload_message cur = Inr (Payload \<lparr> payload_bytes = cur \<rparr>)"

text \<open>The loop that reads \<open>count\<close> sequence numbers.\<close>

fun parse_sequence_numbers ::
  "buf_ops \<Rightarrow> nat \<Rightarrow> bytes \<Rightarrow> mani_message_parse_error + sequence_number list" where
  "parse_sequence_numbers B 0 cur = Inr []"
| "parse_sequence_numbers B (Suc count) cur =
     read_or_end (try_get_u32 B cur) (\<lambda>(seq_num, cur).
     and_then (parse_sequence_numbers B count cur) (\<lambda>seqs.
       Inr (SequenceNumber seq_num # seqs)))"

definition parse_nack_message :: "buf_ops \<Rightarrow> bytes \<Rightarrow> mani_message_parse_error + mani_message" where
  "parse_nack_message B cur =
     read_or_end (try_get_u32 B cur) (\<lambda>(count, cur).
     and_then (parse_sequence_numbers B (unat count) cur) (\<lambda>seqs.
       Inr (Nack \<lparr> nack_sequence_numbers = seqs \<rparr>)))"

definition parse_retrans_message :: "buf_ops \<Rightarrow> bytes \<Rightarrow> mani_message_parse_error + mani_message" where
  "parse_retrans_message B cur =
     read_or_end (try_get_u32 B cur) (\<lambda>(sequence_number, cur).
     read_or_end (try_get_u64 B cur) (\<lambda>(ts, cur).
       Inr (Retrans \<lparr> retrans_sequence_number = SequenceNumber sequence_number,
                      retrans_timestamp = Timestamp ts, retrans_payload = cur \<rparr>)))"

definition parse_transfer_start_message ::
  "buf_ops \<Rightarrow> bytes \<Rightarrow> mani_message_parse_error + mani_message" where
  "parse_transfer_start_message B cur =
     read_or_end (try_get_u8 cur) (\<lambda>(mode_val, cur).
     read_or_end (try_get_u8 cur) (\<lambda>(compression_type, cur).
     read_or_end (try_get_u32 B cur) (\<lambda>(initial_sequence_number, cur).
     read_or_end (try_get_u8 cur) (\<lambda>(has_data_size, cur).
     and_then
       (if has_data_size \<noteq> 0
        then read_or_end (try_get_u64 B cur) (\<lambda>(size, cur). Inr (Some size))
        else Inr None) (\<lambda>data_size.
     and_then (ok_or InvalidMessageFormat (transfer_mode_from_u8 mode_val)) (\<lambda>mode.
     and_then (ok_or InvalidMessageFormat (compression_type_from_u8 compression_type)) (\<lambda>ct.
       Inr (TransferStart
             \<lparr> start_mode = mode, start_compression_type = ct,
               start_initial_sequence_number = SequenceNumber initial_sequence_number,
               start_data_size = data_size \<rparr>))))))))"

definition parse_transfer_end_message ::
  "buf_ops \<Rightarrow> bytes \<Rightarrow> mani_message_parse_error + mani_message" where
  "parse_transfer_end_message B cur =
     read_or_end (try_get_u32 B cur) (\<lambda>(final, cur).
       Inr (TransferEnd \<lparr> final_sequence_number = SequenceNumber final \<rparr>))"

definition parse_transfer_error_message ::
  "buf_ops \<Rightarrow> bytes \<Rightarrow> mani_message_parse_error + mani_message" where
  "parse_transfer_error_message B cur =
     read_or_end (try_get_u16 B cur) (\<lambda>(code, cur).
     and_then (ok_or InvalidMessageFormat (transfer_error_code_from_u16 code)) (\<lambda>code.
       Inr (TransferError \<lparr> error_code = code \<rparr>)))"

definition parse_transfer_credits_update_message ::
  "buf_ops \<Rightarrow> bytes \<Rightarrow> mani_message_parse_error + mani_message" where
  "parse_transfer_credits_update_message B cur =
     read_or_end (try_get_u32 B cur) (\<lambda>(credits, cur).
       Inr (TransferCreditsUpdate \<lparr> additional_credits = unat credits \<rparr>))"

definition parse_mani_message :: "buf_ops \<Rightarrow> bytes \<Rightarrow> mani_message_parse_error + mani_message" where
  "parse_mani_message B cur =
     read_or_end (try_get_u8 cur) (\<lambda>(message_type, cur).
     and_then (ok_or (InvalidMessageType message_type) (mani_message_type_from_u8 message_type))
       (\<lambda>t. case t of
          Hello_type \<Rightarrow> parse_hello_message cur
        | Payload_type \<Rightarrow> parse_payload_message cur
        | Nack_type \<Rightarrow> parse_nack_message B cur
        | Retrans_type \<Rightarrow> parse_retrans_message B cur
        | TransferStart_type \<Rightarrow> parse_transfer_start_message B cur
        | TransferEnd_type \<Rightarrow> parse_transfer_end_message B cur
        | TransferEndAck_type \<Rightarrow> Inr TransferEndAck
        | TransferError_type \<Rightarrow> parse_transfer_error_message B cur
        | EndOfStream_type \<Rightarrow> Inr EndOfStream
        | TransferCreditsUpdate_type \<Rightarrow> parse_transfer_credits_update_message B cur
        | TransferCreditsRequest_type \<Rightarrow> Inr TransferCreditsRequest))"

section \<open>Serialiser\<close>

text \<open>Each function gives the bytes it appends to the buffer.\<close>

definition serialize_hello_message :: "mani_hello \<Rightarrow> bytes" where
  "serialize_hello_message hello =
     [mani_message_type_as_u8 Hello_type,
      compression_type_as_u8 (hello_compression_type hello)]"

definition serialize_payload_message :: "mani_payload \<Rightarrow> bytes" where
  "serialize_payload_message pl = mani_message_type_as_u8 Payload_type # payload_bytes pl"

definition serialize_nack_message :: "buf_ops \<Rightarrow> mani_nack \<Rightarrow> bytes" where
  "serialize_nack_message B nack =
     mani_message_type_as_u8 Nack_type #
     put_u32 B (of_nat (length (nack_sequence_numbers nack))) @
     concat (map (\<lambda>seq_num. put_u32 B (seq_val seq_num)) (nack_sequence_numbers nack))"

definition serialize_retrans_message :: "buf_ops \<Rightarrow> mani_retrans \<Rightarrow> bytes" where
  "serialize_retrans_message B retrans =
     mani_message_type_as_u8 Retrans_type #
     put_u32 B (seq_val (retrans_sequence_number retrans)) @
     put_u64 B (timestamp_val (retrans_timestamp retrans)) @
     retrans_payload retrans"

definition serialize_transfer_start_message :: "buf_ops \<Rightarrow> transfer_start \<Rightarrow> bytes" where
  "serialize_transfer_start_message B start =
     mani_message_type_as_u8 TransferStart_type #
     transfer_mode_as_u8 (start_mode start) #
     compression_type_as_u8 (start_compression_type start) #
     put_u32 B (seq_val (start_initial_sequence_number start)) @
     (case start_data_size start of
        Some data_size \<Rightarrow> 1 # put_u64 B data_size
      | None \<Rightarrow> [0])"

definition serialize_transfer_end_message :: "buf_ops \<Rightarrow> transfer_end \<Rightarrow> bytes" where
  "serialize_transfer_end_message B te =
     mani_message_type_as_u8 TransferEnd_type # put_u32 B (seq_val (final_sequence_number te))"

text \<open>The credit count is cast from \<open>usize\<close> to \<open>u32\<close>.\<close>

definition serialize_transfer_credits_update_message ::
  "buf_ops \<Rightarrow> transfer_credits_update \<Rightarrow> bytes" where
  "serialize_transfer_credits_update_message B upd =
     mani_message_type_as_u8 TransferCreditsUpdate_type #
     put_u32 B (of_nat (additional_credits upd))"

fun serialize_mani_message :: "buf_ops \<Rightarrow> mani_message \<Rightarrow> bytes" where
  "serialize_mani_message B (Hello hello) = serialize_hello_message hello"
| "serialize_mani_message B (Payload pl) = serialize_payload_message pl"
| "serialize_mani_message B (Nack nack) = serialize_nack_message B nack"
| "serialize_mani_message B (Retrans retrans) = serialize_retrans_message B retrans"
| "serialize_mani_message B (TransferStart start) = serialize_transfer_start_message B start"
| "serialize_mani_message B (TransferEnd te) = serialize_transfer_end_message B te"
| "serialize_mani_message B TransferEndAck = [mani_message_type_as_u8 TransferEndAck_type]"
| "serialize_mani_message B (TransferError err) =
     mani_message_type_as_u8 TransferError_type #
     put_u16 B (transfer_error_code_as_u16 (error_code err))"
| "serialize_mani_message B EndOfStream = [mani_message_type_as_u8 EndOfStream_type]"
| "serialize_mani_message B (TransferCreditsUpdate upd) =
     serialize_transfer_credits_update_message B upd"
| "serialize_mani_message B TransferCreditsRequest =
     [mani_message_type_as_u8 TransferCreditsRequest_type]"

declare parse_hello_message_def [codec_simps] parse_payload_message_def [codec_simps]
  parse_nack_message_def [codec_simps] parse_retrans_message_def [codec_simps]
  parse_transfer_start_message_def [codec_simps] parse_transfer_end_message_def [codec_simps]
  parse_transfer_error_message_def [codec_simps]
  parse_transfer_credits_update_message_def [codec_simps]
  serialize_hello_message_def [codec_simps] serialize_payload_message_def [codec_simps]
  serialize_nack_message_def [codec_simps] serialize_retrans_message_def [codec_simps]
  serialize_transfer_start_message_def [codec_simps] serialize_transfer_end_message_def [codec_simps]
  serialize_transfer_credits_update_message_def [codec_simps]

text \<open>Message bytes stay symbolic in proofs, so that the dispatch on them is one rewrite.\<close>

declare mani_message_type_as_u8.simps [simp del]

section \<open>Framed streams\<close>

text \<open>
  \<open>ManiReadFrame::read_frame\<close>: \<open>next\<close> is what the length-delimited stream yielded (the
  end of the stream, an error, or a frame); anything but a frame that parses is \<open>None\<close>.
\<close>

definition read_frame :: "buf_ops \<Rightarrow> ('io_error + bytes) option \<Rightarrow> mani_message option" where
  "read_frame B next =
     (case next of
        None \<Rightarrow> None
      | Some (Inl io_error) \<Rightarrow> None
      | Some (Inr frame) \<Rightarrow>
          (case parse_mani_message B frame of Inl err \<Rightarrow> None | Inr message \<Rightarrow> Some message))"

text \<open>
  \<open>ManiWriteFrame::write_frame\<close>: the serialised message is handed to the sink, whose
  answer to the \<open>send\<close> is the parameter.
\<close>

definition write_frame :: "buf_ops \<Rightarrow> (bytes \<Rightarrow> 'io_error + unit) \<Rightarrow> mani_message \<Rightarrow> 'io_error + unit" where
  "write_frame B send message = send (serialize_mani_message B message)"

section \<open>Round trips\<close>

text \<open>
  The messages whose counts fit the wire: a NACK's length and a credit count are cast to
  \<open>u32\<close>.
\<close>

fun encodable :: "mani_message \<Rightarrow> bool" where
  "encodable (Nack nack) = (length (nack_sequence_numbers nack) < 2 ^ 32)"
| "encodable (TransferCreditsUpdate upd) = (additional_credits upd < 2 ^ 32)"
| "encodable _ = True"

fun self_delimiting :: "mani_message \<Rightarrow> bool" where
  "self_delimiting (Payload _) = False"
| "self_delimiting (Retrans _) = False"
| "self_delimiting _ = True"

lemma parse_mani_message_Cons:
  "parse_mani_message B (mani_message_type_as_u8 t # cur) =
     (case t of
          Hello_type \<Rightarrow> parse_hello_message cur
        | Payload_type \<Rightarrow> parse_payload_message cur
        | Nack_type \<Rightarrow> parse_nack_message B cur
        | Retrans_type \<Rightarrow> parse_retrans_message B cur
        | TransferStart_type \<Rightarrow> parse_transfer_start_message B cur
        | TransferEnd_type \<Rightarrow> parse_transfer_end_message B cur
        | TransferEndAck_type \<Rightarrow> Inr TransferEndAck
        | TransferError_type \<Rightarrow> parse_transfer_error_message B cur
        | EndOfStream_type \<Rightarrow> Inr EndOfStream
        | TransferCreditsUpdate_type \<Rightarrow> parse_transfer_credits_update_message B cur
        | TransferCreditsRequest_type \<Rightarrow> Inr TransferCreditsRequest)"
  by (simp add: parse_mani_message_def)

lemma parse_mani_message_InrE:
  assumes "parse_mani_message B bs = Inr m"
  obtains t cur where "bs = mani_message_type_as_u8 t # cur"
    and "parse_mani_message B (mani_message_type_as_u8 t # cur) = Inr m"
  using assms
  by (cases bs) (auto simp: parse_mani_message_def mani_message_type_from_Some)

context byte_buf
begin

lemma parse_sequence_numbers_concat:
  "parse_sequence_numbers B (length seqs)
     (concat (map (\<lambda>s. put_u32 B (seq_val s)) seqs) @ rest) = Inr seqs"
  by (induction seqs) (simp_all add: get_put)

lemma parse_sequence_numbers_length:
  "parse_sequence_numbers B n cur = Inr seqs \<Longrightarrow> length seqs = n \<and> 4 * n \<le> length cur"
  by (induction n arbitrary: cur seqs) (fastforce dest: u32.get_len)+

lemma length_concat_seqs:
  "length (concat (map (\<lambda>s. put_u32 B (seq_val s)) seqs)) = 4 * length seqs"
  by (induction seqs) (simp_all add: put_len)

lemma parse_serialize:
  assumes "encodable m"
  shows "parse_mani_message B (serialize_mani_message B m) = Inr m"
proof (cases m)
  case (Nack nack)
  then show ?thesis
    using assms parse_sequence_numbers_concat [of "nack_sequence_numbers nack" "[]"]
    by (simp add: codec_simps parse_mani_message_Cons get_put unat_of_nat)
next
  case (TransferStart start)
  then show ?thesis
    by (cases "start_data_size start")
      (simp_all add: codec_simps parse_mani_message_Cons get_put get_put_exact)
qed (use assms in \<open>simp_all add: codec_simps parse_mani_message_Cons get_put get_put_exact unat_of_nat\<close>)

text \<open>A payload and a retransmission carry the rest of the frame; all other messages end by
  themselves.\<close>

lemma parse_sequence_numbers_append:
  "parse_sequence_numbers B n cur = Inr seqs \<Longrightarrow>
   parse_sequence_numbers B n (cur @ tail) = Inr seqs"
  by (induction n arbitrary: cur seqs) (auto dest!: u32.get_sound simp: get_put)

lemma parse_append:
  assumes "parse_mani_message B bs = Inr m" and "self_delimiting m"
  shows "parse_mani_message B (bs @ tail) = Inr m"
proof -
  obtain t cur where bs: "bs = mani_message_type_as_u8 t # cur"
    and "parse_mani_message B (mani_message_type_as_u8 t # cur) = Inr m"
    using assms(1) by (rule parse_mani_message_InrE)
  with assms(2) show ?thesis
    by (cases t)
      (auto simp: bs codec_simps parse_mani_message_Cons get_put
        dest!: get_sound try_get_u8_sound dest: parse_sequence_numbers_append split: if_splits)
qed

text \<open>What the parser accepts can be serialised again, in no more bytes.\<close>

lemma parse_reserialize:
  assumes "parse_mani_message B bs = Inr m"
  shows "encodable m \<and> length (serialize_mani_message B m) \<le> length bs"
proof -
  obtain t cur where bs: "bs = mani_message_type_as_u8 t # cur"
    and "parse_mani_message B (mani_message_type_as_u8 t # cur) = Inr m"
    using assms by (rule parse_mani_message_InrE)
  moreover have "unat (x :: u32) < 2 ^ 32" for x
    using unsigned_less [of x] by simp
  ultimately show ?thesis
    by (cases t)
      (auto simp: bs codec_simps parse_mani_message_Cons put_len length_concat_seqs
        dest!: get_len try_get_u8_sound parse_sequence_numbers_length split: if_splits)
qed

end

sublocale byte_buf \<subseteq> mani:
  codec "serialize_mani_message B" "parse_mani_message B" Inr encodable
  by unfold_locales (auto intro: parse_serialize)

section \<open>Properties\<close>

text \<open>C32: Every message whose counts fit 32 bits survives serialisation and parsing unchanged,
  also through the framed reader; and whatever the parser accepts is such a message, whose
  serialisation is no longer than what was read and parses back to it: a NACK that announces
  more sequence numbers than the frame carries is never accepted.\<close>

theorem mani_message_roundtrip:
  assumes B: "byte_buf B"
  shows "(encodable m \<longrightarrow>
       parse_mani_message B (serialize_mani_message B m) = Inr m \<and>
       read_frame B (Some (Inr (serialize_mani_message B m) :: string + bytes)) = Some m) \<and>
     (parse_mani_message B bs = Inr m' \<longrightarrow>
       encodable m' \<and> length (serialize_mani_message B m') \<le> length bs \<and>
       parse_mani_message B (serialize_mani_message B m') = Inr m')"
proof (intro conjI impI)
  assume "encodable m"
  then show parsed: "parse_mani_message B (serialize_mani_message B m) = Inr m"
    using byte_buf.parse_serialize [OF B] by blast
  then show "read_frame B (Some (Inr (serialize_mani_message B m) :: string + bytes)) = Some m"
    by (simp add: read_frame_def)
next
  assume "parse_mani_message B bs = Inr m'"
  note accepted = byte_buf.parse_reserialize [OF B this]
  then show "encodable m'" and "length (serialize_mani_message B m') \<le> length bs" by simp_all
  from accepted show "parse_mani_message B (serialize_mani_message B m') = Inr m'"
    using byte_buf.parse_serialize [OF B] by blast
qed

theorem mani_message_roundtrip_witness:
  "parse_mani_message be_ops (serialize_mani_message be_ops
     (Nack \<lparr> nack_sequence_numbers = [SequenceNumber 3, SequenceNumber 5] \<rparr>)) =
   Inr (Nack \<lparr> nack_sequence_numbers = [SequenceNumber 3, SequenceNumber 5] \<rparr>) \<and>
   length (serialize_mani_message be_ops EndOfStream) \<le> length [mani_message_type_as_u8 EndOfStream_type, 99]"
  using mani_message_roundtrip [OF byte_buf_be_ops,
      of "Nack \<lparr> nack_sequence_numbers = [SequenceNumber 3, SequenceNumber 5] \<rparr>"
        "[mani_message_type_as_u8 EndOfStream_type, 99]" EndOfStream]
  by (simp add: parse_mani_message_Cons)

text \<open>Bytes after a message that ends by itself are ignored.\<close>

lemma mani_trailing_ignored:
  assumes "byte_buf B" and "encodable m" and "self_delimiting m"
  shows "parse_mani_message B (serialize_mani_message B m @ tail) = Inr m"
  using byte_buf.parse_append [OF assms(1) byte_buf.parse_serialize [OF assms(1,2)] assms(3)] .

text \<open>A credit count travels modulo \<open>2 ^ 32\<close>: the peer is granted the remainder, so an
  update of a multiple of \<open>2 ^ 32\<close> credits grants nothing.\<close>

lemma credits_update_truncated:
  assumes "byte_buf B"
  shows "parse_mani_message B (serialize_mani_message B
       (TransferCreditsUpdate \<lparr> additional_credits = n \<rparr>)) =
     Inr (TransferCreditsUpdate \<lparr> additional_credits = n mod 2 ^ 32 \<rparr>)"
proof -
  have "serialize_mani_message B (TransferCreditsUpdate \<lparr> additional_credits = n \<rparr>) =
      serialize_mani_message B (TransferCreditsUpdate \<lparr> additional_credits = n mod 2 ^ 32 \<rparr>)"
    unfolding serialize_mani_message.simps serialize_transfer_credits_update_message_def
    by (simp only: transfer_credits_update.simps of_nat_u32_mod)
  then show ?thesis
    using byte_buf.parse_serialize [OF assms, of "TransferCreditsUpdate \<lparr> additional_credits = n mod 2 ^ 32 \<rparr>"]
    by simp
qed

end
