(* ===== verification/Backpressure.thy ===== *)
theory Backpressure
  imports Prelude
begin

text \<open>
  The sender's credit bank, \<^verbatim>\<open>src/src/mani/transfer/backpressure.rs\<close>.  It wraps
  \<open>tokio::sync::Semaphore\<close>, which is a parameter of the model with the documented
  behaviour of its operations as a locale.
\<close>

section \<open>The semaphore interface\<close>

text \<open>
  \<open>sem_acquire\<close> is \<open>acquire().await\<close>: \<open>None\<close> while it has to wait, \<open>Some (Inl ())\<close> for
  \<open>AcquireError\<close>, \<open>Some (Inr s)\<close> with the semaphore once a permit is held;
  \<open>sem_forget\<close> is what \<open>permit.forget()\<close> leaves behind, while dropping the permit
  would return it.
\<close>

record 's semaphore_ops =
  sem_new :: "nat \<Rightarrow> 's outcome"
  sem_add_permits :: "'s \<Rightarrow> nat \<Rightarrow> 's outcome"
  sem_close :: "'s \<Rightarrow> 's"
  sem_acquire :: "'s \<Rightarrow> (unit + 's) option"
  sem_forget :: "'s \<Rightarrow> 's"

locale semaphore =
  fixes S :: "'s semaphore_ops"
    and available :: "'s \<Rightarrow> nat"
    and is_closed :: "'s \<Rightarrow> bool"
    and max_permits :: nat
  assumes new: "n \<le> max_permits \<Longrightarrow> \<exists>s. sem_new S n = Done s \<and> available s = n \<and> \<not> is_closed s"
    and new_panics: "max_permits < n \<Longrightarrow> sem_new S n = Panic"
    and add: "available s + n \<le> max_permits \<Longrightarrow>
      \<exists>s'. sem_add_permits S s n = Done s' \<and> available s' = available s + n \<and> is_closed s' = is_closed s"
    and add_panics: "max_permits < available s + n \<Longrightarrow> sem_add_permits S s n = Panic"
    and close: "is_closed (sem_close S s)" "available (sem_close S s) = available s"
    and acquire_closed: "is_closed s \<Longrightarrow> sem_acquire S s = Some (Inl ())"
    and acquire_waits: "\<not> is_closed s \<Longrightarrow> available s = 0 \<Longrightarrow> sem_acquire S s = None"
    and acquire_takes: "\<not> is_closed s \<Longrightarrow> 0 < available s \<Longrightarrow>
      \<exists>s'. sem_acquire S s = Some (Inr s') \<and> available s' = available s - 1 \<and> \<not> is_closed s'"
    and forget: "available (sem_forget S s) = available s" "is_closed (sem_forget S s) = is_closed s"

section \<open>The bank\<close>

record 's backpressure_bank =
  bank_sem :: 's

definition bank_new :: "'s semaphore_ops \<Rightarrow> nat \<Rightarrow> 's backpressure_bank outcome" where
  "bank_new S initial_credits =
     bind_outcome (sem_new S initial_credits) (\<lambda>s. Done \<lparr> bank_sem = s \<rparr>)"

definition increase_credits ::
  "'s semaphore_ops \<Rightarrow> 's backpressure_bank \<Rightarrow> nat \<Rightarrow> 's backpressure_bank outcome" where
  "increase_credits S b amount =
     bind_outcome (sem_add_permits S (bank_sem b) amount) (\<lambda>s. Done (b\<lparr> bank_sem := s \<rparr>))"

definition signal_shutdown :: "'s semaphore_ops \<Rightarrow> 's backpressure_bank \<Rightarrow> 's backpressure_bank" where
  "signal_shutdown S b = b\<lparr> bank_sem := sem_close S (bank_sem b) \<rparr>"

text \<open>\<open>None\<close> while the call has to wait.\<close>

definition wait_for_credit ::
  "'s semaphore_ops \<Rightarrow> 's backpressure_bank \<Rightarrow> (bool \<times> 's backpressure_bank) option" where
  "wait_for_credit S b =
     (case sem_acquire S (bank_sem b) of
        None \<Rightarrow> None
      | Some (Inr s) \<Rightarrow> Some (True, b\<lparr> bank_sem := sem_forget S s \<rparr>)
      | Some (Inl e) \<Rightarrow> Some (False, b))"

declare bank_new_def [step_defs] increase_credits_def [step_defs] signal_shutdown_def [step_defs]
  wait_for_credit_def [step_defs]

section \<open>Credits\<close>

context semaphore
begin

definition credits :: "'s backpressure_bank \<Rightarrow> nat" where
  "credits b = available (bank_sem b)"

definition shut :: "'s backpressure_bank \<Rightarrow> bool" where
  "shut b \<longleftrightarrow> is_closed (bank_sem b)"

lemma wait_for_credit_takes:
  assumes "\<not> shut b" and "0 < credits b"
  shows "\<exists>b'. wait_for_credit S b = Some (True, b') \<and> credits b' = credits b - 1 \<and> \<not> shut b'"
  using acquire_takes [of "bank_sem b"] assms
  by (auto simp: step_defs credits_def shut_def forget)

lemma wait_for_credit_waits: "\<not> shut b \<Longrightarrow> credits b = 0 \<Longrightarrow> wait_for_credit S b = None"
  by (simp add: step_defs credits_def shut_def acquire_waits)

lemma wait_for_credit_shut: "shut b \<Longrightarrow> wait_for_credit S b = Some (False, b)"
  by (simp add: step_defs shut_def acquire_closed)

lemma signal_shutdown_shuts: "shut (signal_shutdown S b)"
  by (simp add: step_defs shut_def close)

lemma increase_credits_adds:
  "credits b + n \<le> max_permits \<Longrightarrow>
   \<exists>b'. increase_credits S b n = Done b' \<and> credits b' = credits b + n \<and> shut b' = shut b"
  using add [of "bank_sem b" n] by (auto simp: step_defs credits_def shut_def)

end

section \<open>A counting semaphore\<close>

text \<open>
  The permits and the closed flag as the documentation describes them;
  \<open>Semaphore::MAX_PERMITS\<close> is \<open>usize::MAX >> 3\<close>.
\<close>

definition counting_ops :: "(nat \<times> bool) semaphore_ops" where
  "counting_ops = \<lparr>
     sem_new = (\<lambda>n. if n \<le> 2 ^ 61 - 1 then Done (n, False) else Panic),
     sem_add_permits = (\<lambda>(a, c) n. if a + n \<le> 2 ^ 61 - 1 then Done (a + n, c) else Panic),
     sem_close = (\<lambda>(a, c). (a, True)),
     sem_acquire = (\<lambda>(a, c). if c then Some (Inl ()) else if a = 0 then None else Some (Inr (a - 1, c))),
     sem_forget = (\<lambda>s. s) \<rparr>"

interpretation counting: semaphore counting_ops fst snd "2 ^ 61 - 1"
  by unfold_locales (auto simp: counting_ops_def)

lemma semaphore_counting_ops: "semaphore counting_ops fst snd (2 ^ 61 - 1)"
  by (rule counting.semaphore_axioms)

end
