(* ===== verification/Send_Stream.thy ===== *)
theory Send_Stream
  imports Mani_Message Packet Backpressure
begin

text \<open>
  The sending side of a transfer, \<^verbatim>\<open>src/src/mani/transfer/send.rs\<close>: splitting a compressed
  payload into datagrams, one credit per datagram, and the retransmission buffer.
\<close>

section \<open>State\<close>

datatype transfer_send_error =
    RetransmissionBufferFull
  | DatagramSendFailed string
  | CompressionFailed

text \<open>
  The retransmission buffer and the bank are shared with the stream task; the buffer is
  the map the task reads as well.  \<open>ss_command_sender\<close> says whether the channel to the
  task is still held.
\<close>

record send_stream =
  ss_id :: mani_stream_id
  ss_mode :: transfer_mode
  ss_compression :: compression
  ss_initial_sequence_number :: sequence_number
  ss_sequence_counter :: sequence_number
  ss_retransmission_buffer :: "sequence_number \<Rightarrow> packet list option"
  ss_max_retransmission_buffer_size :: nat
  ss_command_sender :: bool
  ss_max_datagram_size :: "nat option"

definition send_stream_new ::
  "mani_stream_id \<Rightarrow> transfer_mode \<Rightarrow> compression \<Rightarrow> sequence_number \<Rightarrow> nat \<Rightarrow>
   (sequence_number \<Rightarrow> packet list option) \<Rightarrow> nat option \<Rightarrow> send_stream" where
  "send_stream_new sid mode cmp initial max_size buffer max_datagram =
     \<lparr> ss_id = sid, ss_mode = mode, ss_compression = cmp,
       ss_initial_sequence_number = initial, ss_sequence_counter = initial,
       ss_retransmission_buffer = buffer, ss_max_retransmission_buffer_size = max_size,
       ss_command_sender = True, ss_max_datagram_size = max_datagram \<rparr>"

section \<open>Splitting a payload\<close>

text \<open>\<open>slice::chunks\<close> for a positive chunk size; the size 0 panics at the call.\<close>

fun chunks :: "nat \<Rightarrow> 'a list \<Rightarrow> 'a list list" where
  "chunks n [] = []"
| "chunks 0 (x # xs) = []"
| "chunks (Suc n) (x # xs) = (x # take n xs) # chunks (Suc n) (drop n xs)"

definition needs_fragment :: "nat option \<Rightarrow> bytes \<Rightarrow> bool" where
  "needs_fragment max_datagram compressed =
     (case map_option (\<lambda>m. m - (PACKET_WIRE_HEADER_SIZE + SINGLE_CONTENT_OVERHEAD)) max_datagram of
        None \<Rightarrow> False
      | Some limit \<Rightarrow> limit < length compressed)"

text \<open>The packets of one logical send.\<close>

definition build_packets ::
  "buf_ops \<Rightarrow> send_stream \<Rightarrow> timestamp \<Rightarrow> bytes \<Rightarrow> packet list outcome" where
  "build_packets B s ts compressed =
     (if needs_fragment (ss_max_datagram_size s) compressed then
        (case map_option (\<lambda>m. m - (PACKET_WIRE_HEADER_SIZE + FRAG_CONTENT_OVERHEAD)) (ss_max_datagram_size s) of
           None \<Rightarrow> Panic
         | Some frag_size \<Rightarrow>
             if frag_size = 0 then Panic
             else
               let frags = chunks frag_size compressed;
                   total :: u16 = of_nat (length frags)
               in Done (map (\<lambda>(i, frag).
                    \<lparr> pkt_stream_id = ss_id s, pkt_sequence_number = ss_sequence_counter s,
                      pkt_timestamp = ts,
                      pkt_content = encode_fragment_content B (of_nat i) total frag \<rparr>)
                    (enumerate 0 frags)))
      else
        Done [\<lparr> pkt_stream_id = ss_id s, pkt_sequence_number = ss_sequence_counter s,
                pkt_timestamp = ts, pkt_content = encode_single_content compressed \<rparr>])"

section \<open>Credits and datagrams\<close>

text \<open>The loop that takes \<open>n\<close> credits: all taken, the bank shut, or \<open>n\<close> still to wait for.\<close>

datatype 's credit_wait =
    Granted "'s backpressure_bank"
  | Shut "'s backpressure_bank"
  | Waiting nat "'s backpressure_bank"

fun take_credits :: "'s semaphore_ops \<Rightarrow> nat \<Rightarrow> 's backpressure_bank \<Rightarrow> 's credit_wait" where
  "take_credits S 0 b = Granted b"
| "take_credits S (Suc n) b =
     (case wait_for_credit S b of
        None \<Rightarrow> Waiting (Suc n) b
      | Some (True, b) \<Rightarrow> take_credits S n b
      | Some (False, b) \<Rightarrow> Shut b)"

text \<open>
  Sending the datagrams stops at the first error.  \<open>tx i\<close> is the connection's answer to
  the \<open>i\<close>-th \<open>send_datagram\<close> of this call, its error rendered as a string; the
  result lists the datagrams that were sent.
\<close>

fun send_datagrams ::
  "buf_ops \<Rightarrow> (nat \<Rightarrow> bytes \<Rightarrow> string + unit) \<Rightarrow> nat \<Rightarrow> packet list \<Rightarrow>
   bytes list \<times> (transfer_send_error + unit)" where
  "send_datagrams B tx i [] = ([], Inr ())"
| "send_datagrams B tx i (p # ps) =
     (case tx i (serialize_packet B p) of
        Inl e \<Rightarrow> ([], Inl (DatagramSendFailed e))
      | Inr _ \<Rightarrow>
          (case send_datagrams B tx (Suc i) ps of
             (sent, r) \<Rightarrow> (serialize_packet B p # sent, r)))"

section \<open>The retransmission buffer\<close>

definition store_packets :: "send_stream \<Rightarrow> packet list \<Rightarrow> (sequence_number \<Rightarrow> packet list option)" where
  "store_packets s packets =
     (let seq = ss_sequence_counter s;
          oldest_seq = SequenceNumber (seq_val seq - of_nat (ss_max_retransmission_buffer_size s));
          buffer =
            (if ss_max_retransmission_buffer_size s \<le> map_len (ss_retransmission_buffer s)
             then (ss_retransmission_buffer s)(oldest_seq := None)
             else ss_retransmission_buffer s)
      in buffer(seq \<mapsto> packets))"

section \<open>send\<close>

text \<open>
  What a call of \<open>send\<close> comes to: a result with the new stream, the bank and the
  datagrams on the wire, or a wait for credits.
\<close>

datatype 's send_outcome =
    Returned send_stream "'s backpressure_bank" "bytes list" "transfer_send_error + unit"
  | AwaitingCredit nat "'s backpressure_bank"

definition send ::
  "buf_ops \<Rightarrow> 's semaphore_ops \<Rightarrow> (nat \<Rightarrow> bytes \<Rightarrow> string + unit) \<Rightarrow> send_stream \<Rightarrow>
   's backpressure_bank \<Rightarrow> timestamp \<Rightarrow> bytes \<Rightarrow> 's send_outcome outcome" where
  "send B S tx s bank ts content =
     (let compressed = compress (ss_compression s) content in
      bind_outcome (build_packets B s ts compressed) (\<lambda>packets.
      Done
        (case take_credits S (length packets) bank of
           Waiting n bank \<Rightarrow> AwaitingCredit n bank
         | Shut bank \<Rightarrow> Returned s bank [] (Inl (DatagramSendFailed ''stream closed''))
         | Granted bank \<Rightarrow>
             (case send_datagrams B tx 0 packets of
                (sent, Inl e) \<Rightarrow> Returned s bank sent (Inl e)
              | (sent, Inr _) \<Rightarrow>
                  let buffer =
                        (if ss_mode s = Dual then store_packets s packets
                         else ss_retransmission_buffer s)
                  in Returned
                       (s\<lparr> ss_retransmission_buffer := buffer,
                           ss_sequence_counter :=
                             SequenceNumber (seq_val (ss_sequence_counter s) + 1) \<rparr>)
                       bank sent (Inr ())))))"

definition current_sequence_number :: "send_stream \<Rightarrow> sequence_number" where
  "current_sequence_number s = ss_sequence_counter s"

definition stream_final_sequence_number :: "send_stream \<Rightarrow> sequence_number" where
  "stream_final_sequence_number s =
     (if ss_sequence_counter s \<noteq> ss_initial_sequence_number s
      then SequenceNumber (seq_val (ss_sequence_counter s) - 1)
      else SequenceNumber (seq_val (ss_initial_sequence_number s) - 1))"

section \<open>end and drop\<close>

text \<open>
  \<open>end\<close> takes the command sender, sends \<open>EndTransfer\<close> and awaits the response.
  \<open>cmd_ok\<close> is whether the channel took the command; \<open>reply\<close> is what the oneshot
  delivered, \<open>None\<close> when its sender was dropped.  The command sent, if any, is part of
  the result.
\<close>

text \<open>The oneshot channel of a request is known by a number.\<close>

type_synonym response_id = nat

datatype transfer_send_command =
    EndTransferCommand sequence_number response_id
  | SendTransferEndAck

definition end_stream ::
  "send_stream \<Rightarrow> response_id \<Rightarrow> bool \<Rightarrow> (transfer_send_error + unit) option \<Rightarrow>
   send_stream \<times> transfer_send_command list \<times> (transfer_send_error + unit)" where
  "end_stream s response cmd_ok reply =
     (let final = stream_final_sequence_number s in
      if ss_command_sender s then
        (let s = s\<lparr> ss_command_sender := False \<rparr> in
         if \<not> cmd_ok then (s, [], Inl (DatagramSendFailed ''Failed to send end transfer command''))
         else
           (case reply of
              None \<Rightarrow> (s, [EndTransferCommand final response],
                       Inl (DatagramSendFailed ''Failed to receive end transfer response''))
            | Some r \<Rightarrow> (s, [EndTransferCommand final response], r)))
      else (s, [], Inl (DatagramSendFailed ''Command sender not available'')))"

definition drop_stream :: "send_stream \<Rightarrow> response_id \<Rightarrow> bool \<Rightarrow> transfer_send_command list" where
  "drop_stream s response cmd_ok =
     (if ss_command_sender s \<and> cmd_ok
      then [EndTransferCommand (stream_final_sequence_number s) response] else [])"

declare build_packets_def [step_defs] store_packets_def [step_defs] send_def [step_defs]
  end_stream_def [step_defs] drop_stream_def [step_defs]

section \<open>Chunks\<close>

lemma concat_chunks: "0 < n \<Longrightarrow> concat (chunks n xs) = xs"
  by (induction n xs rule: chunks.induct) auto

lemma chunks_bounds: "c \<in> set (chunks n xs) \<Longrightarrow> c \<noteq> [] \<and> length c \<le> n"
  by (induction n xs rule: chunks.induct) auto

lemma length_chunks: "0 < n \<Longrightarrow> length (chunks n xs) = (length xs + n - 1) div n"
proof (induction n xs rule: chunks.induct)
  case (3 n x xs)
  show ?case
  proof (cases "length xs < n")
    case True
    then have "(Suc (length xs) + n) div Suc n = 1" by (intro div_nat_eqI) simp_all
    with True show ?thesis by simp
  next
    case False
    have "Suc (length xs) + n = (length xs - n + n) + Suc n" using False by simp
    then have "(Suc (length xs) + n) div Suc n = (length xs - n + n) div Suc n + 1"
      by (metis div_add_self2 nat.distinct(2))
    with 3 False show ?thesis by simp
  qed
qed auto

lemma chunks_length_pos: "0 < n \<Longrightarrow> xs \<noteq> [] \<Longrightarrow> 0 < length (chunks n xs)"
  by (cases n; cases xs) auto

section \<open>Packets of one send\<close>

lemma build_packets_header:
  assumes "build_packets B s ts compressed = Done packets" and "p \<in> set packets"
  shows "pkt_stream_id p = ss_id s" and "pkt_sequence_number p = ss_sequence_counter s"
    and "pkt_timestamp p = ts"
  using assms by (auto simp: build_packets_def Let_def split: if_splits option.splits)

lemma build_packets_single:
  assumes "\<not> needs_fragment (ss_max_datagram_size s) compressed"
  shows "build_packets B s ts compressed =
     Done [\<lparr> pkt_stream_id = ss_id s, pkt_sequence_number = ss_sequence_counter s,
             pkt_timestamp = ts, pkt_content = encode_single_content compressed \<rparr>]"
  using assms by (simp add: build_packets_def)

text \<open>A payload that needs fragments, with a datagram size that leaves room for some.\<close>

lemma build_packets_fragments:
  assumes "ss_max_datagram_size s = Some m" and "needs_fragment (Some m) compressed"
    and "25 < m"
  shows "build_packets B s ts compressed =
     Done (map (\<lambda>(i, frag).
        \<lparr> pkt_stream_id = ss_id s, pkt_sequence_number = ss_sequence_counter s, pkt_timestamp = ts,
          pkt_content = encode_fragment_content B (of_nat i)
            (of_nat (length (chunks (m - 25) compressed))) frag \<rparr>)
        (enumerate 0 (chunks (m - 25) compressed)))"
  using assms by (simp add: build_packets_def PACKET_WIRE_HEADER_SIZE_def FRAG_CONTENT_OVERHEAD_def Let_def)

lemma build_packets_panics:
  assumes "ss_max_datagram_size s = Some m" and "needs_fragment (Some m) compressed" and "m \<le> 25"
  shows "build_packets B s ts compressed = Panic"
  using assms by (simp add: build_packets_def PACKET_WIRE_HEADER_SIZE_def FRAG_CONTENT_OVERHEAD_def)

lemma needs_fragment_nonempty: "needs_fragment m compressed \<Longrightarrow> compressed \<noteq> []"
  by (auto simp: needs_fragment_def split: option.splits)

lemma build_packets_nonempty:
  assumes "build_packets B s ts compressed = Done packets"
  shows "packets \<noteq> []"
proof (cases "needs_fragment (ss_max_datagram_size s) compressed")
  case True
  then obtain m where m: "ss_max_datagram_size s = Some m" "needs_fragment (Some m) compressed"
    by (cases "ss_max_datagram_size s") (auto simp: needs_fragment_def)
  then have big: "25 < m" using assms build_packets_panics [OF m] by (cases "m \<le> 25") auto
  then have "0 < length (chunks (m - 25) compressed)"
    using needs_fragment_nonempty [OF True] by (intro chunks_length_pos) simp_all
  moreover have "length packets = length (chunks (m - 25) compressed)"
    using assms by (auto simp: build_packets_fragments [OF m big])
  ultimately show ?thesis by auto
next
  case False
  then show ?thesis using assms by (auto simp: build_packets_single)
qed

lemma enumerate_snd: "(i, x) \<in> set (enumerate n xs) \<Longrightarrow> x \<in> set xs"
  by (auto simp: enumerate_eq_zip dest: set_zip_rightD)

lemma map_enumerate: "map (\<lambda>(i, x). f i x) (enumerate 0 xs) = map (\<lambda>i. f i (xs ! i)) [0 ..< length xs]"
  by (rule nth_equalityI) (simp_all add: nth_enumerate_eq)

context byte_buf
begin

text \<open>No datagram is longer than the limit, once the limit fits the headers.\<close>

lemma build_packets_size:
  assumes m: "ss_max_datagram_size s = Some m" "21 \<le> m"
    and build: "build_packets B s ts compressed = Done packets" and p: "p \<in> set packets"
  shows "length (serialize_packet B p) \<le> m"
proof (cases "needs_fragment (Some m) compressed")
  case True
  then have "25 < m" using build build_packets_panics [OF m(1) True] by (cases "m \<le> 25") auto
  with build True m(1) p
  have "\<exists>frag \<in> set (chunks (m - 25) compressed). length (pkt_content p) = 5 + length frag"
    by (auto simp: build_packets_fragments length_encode_fragment_content FRAG_CONTENT_OVERHEAD_def)
      (metis enumerate_snd)
  then obtain frag where "frag \<in> set (chunks (m - 25) compressed)"
    and "length (pkt_content p) = 5 + length frag" by blast
  moreover from this(1) have "length frag \<le> m - 25" by (simp add: chunks_bounds)
  ultimately show ?thesis using \<open>25 < m\<close>
    by (simp add: length_serialize_packet PACKET_WIRE_HEADER_SIZE_def)
next
  case False
  then show ?thesis
    using build p m
    by (auto simp: build_packets_single length_serialize_packet encode_single_content_def
        needs_fragment_def PACKET_WIRE_HEADER_SIZE_def SINGLE_CONTENT_OVERHEAD_def)
qed

end

section \<open>Credits spent\<close>

context semaphore
begin

lemma take_credits_enough:
  assumes "\<not> shut b" and "n \<le> credits b"
  shows "\<exists>b'. take_credits S n b = Granted b' \<and> credits b' = credits b - n \<and> \<not> shut b'"
  using assms
proof (induction n arbitrary: b)
  case (Suc n)
  obtain b1 where b1: "wait_for_credit S b = Some (True, b1)" "credits b1 = credits b - 1" "\<not> shut b1"
    using wait_for_credit_takes [of b] Suc.prems by auto
  with Suc.IH [of b1] Suc.prems show ?case by auto
qed simp

lemma take_credits_short:
  assumes "\<not> shut b" and "credits b < n"
  shows "\<exists>b'. take_credits S n b = Waiting (n - credits b) b' \<and> credits b' = 0 \<and> \<not> shut b'"
  using assms
proof (induction n arbitrary: b)
  case (Suc n)
  show ?case
  proof (cases "credits b = 0")
    case True
    with Suc.prems show ?thesis by (simp add: wait_for_credit_waits)
  next
    case False
    then obtain b1 where b1: "wait_for_credit S b = Some (True, b1)" "credits b1 = credits b - 1" "\<not> shut b1"
      using wait_for_credit_takes [of b] Suc.prems by auto
    with Suc.IH [of b1] Suc.prems False show ?thesis by auto
  qed
qed simp

lemma take_credits_shut: "shut b \<Longrightarrow> 0 < n \<Longrightarrow> take_credits S n b = Shut b"
  by (cases n) (simp_all add: wait_for_credit_shut)

end

lemma send_datagrams_ok:
  "send_datagrams B tx i ps = (sent, Inr ()) \<Longrightarrow> sent = map (serialize_packet B) ps"
  by (induction ps arbitrary: i sent) (auto split: sum.splits prod.splits)

lemma send_datagrams_length:
  "send_datagrams B tx i ps = (sent, r) \<Longrightarrow> length sent \<le> length ps"
  by (induction ps arbitrary: i sent) (auto split: sum.splits prod.splits)

lemma send_datagrams_all_ok:
  "(\<And>i d. tx i d = Inr ()) \<Longrightarrow> send_datagrams B tx i ps = (map (serialize_packet B) ps, Inr ())"
  by (induction ps arbitrary: i) auto

lemma send_datagrams_subset:
  "send_datagrams B tx i ps = (sent, r) \<Longrightarrow> set sent \<subseteq> serialize_packet B ` set ps"
  by (induction ps arbitrary: i sent) (fastforce split: sum.splits prod.splits)+

section \<open>The window of the retransmission buffer\<close>

text \<open>The \<open>k\<close> sequence numbers before \<open>seq\<close>, the most recent first.\<close>

definition recent_seqs :: "sequence_number \<Rightarrow> nat \<Rightarrow> sequence_number set" where
  "recent_seqs seq k = (\<lambda>i. SequenceNumber (seq_val seq - 1 - of_nat i)) ` {..<k}"

lemma of_nat_u32_inj: "i < 2 ^ 32 \<Longrightarrow> j < 2 ^ 32 \<Longrightarrow> (of_nat i :: u32) = of_nat j \<Longrightarrow> i = j"
  by (drule arg_cong [where f = unat]) (simp add: unat_of_nat)

lemma card_recent_seqs:
  assumes "k \<le> 2 ^ 32"
  shows "card (recent_seqs seq k) = k"
proof -
  have "inj_on (\<lambda>i. SequenceNumber (seq_val seq - 1 - of_nat i)) {..<k}"
    using assms by (auto intro!: inj_onI of_nat_u32_inj)
  then show ?thesis by (simp add: recent_seqs_def card_image)
qed

lemma recent_seqs_Suc:
  "recent_seqs (SequenceNumber (seq_val seq + 1)) (Suc k) = insert seq (recent_seqs seq k)"
proof -
  have "{..<Suc k} = insert 0 (Suc ` {..<k})" by (auto simp: image_iff less_Suc_eq_0_disj)
  then show ?thesis
    by (simp add: recent_seqs_def image_image algebra_simps)
qed

lemma recent_seqs_drop_oldest:
  assumes "k < 2 ^ 32"
  shows "recent_seqs seq (Suc k) - {SequenceNumber (seq_val seq - of_nat (Suc k))} = recent_seqs seq k"
proof -
  let ?oldest = "SequenceNumber (seq_val seq - of_nat (Suc k))"
  have "recent_seqs seq (Suc k) = insert ?oldest (recent_seqs seq k)"
    by (simp add: recent_seqs_def lessThan_Suc algebra_simps)
  moreover have "?oldest \<notin> recent_seqs seq k"
  proof
    assume "?oldest \<in> recent_seqs seq k"
    then obtain i where "i < k" and "(of_nat (Suc k) :: u32) = of_nat (Suc i)"
      by (auto simp: recent_seqs_def algebra_simps)
    then have "(of_nat k :: u32) = of_nat i" by simp
    with \<open>i < k\<close> assms show False using of_nat_u32_inj [of k i] by simp
  qed
  ultimately show ?thesis by simp
qed

text \<open>
  The buffer holds exactly the last \<open>k\<close> sends, \<open>k\<close> at most the limit, and each of
  them under its own sequence number.
\<close>

definition rtx_window :: "send_stream \<Rightarrow> nat \<Rightarrow> bool" where
  "rtx_window s k \<longleftrightarrow>
     k \<le> ss_max_retransmission_buffer_size s \<and>
     dom (ss_retransmission_buffer s) = recent_seqs (ss_sequence_counter s) k \<and>
     (\<forall>seq ps p. ss_retransmission_buffer s seq = Some ps \<and> p \<in> set ps \<longrightarrow>
        pkt_sequence_number p = seq \<and> pkt_stream_id p = ss_id s)"

lemma rtx_window_new: "rtx_window (send_stream_new sid mode cmp initial max_size Map.empty mtu) 0"
  by (simp add: rtx_window_def send_stream_new_def recent_seqs_def)

lemma store_packets_dom:
  assumes win: "rtx_window s k"
    and max: "0 < ss_max_retransmission_buffer_size s" "ss_max_retransmission_buffer_size s < 2 ^ 32"
  shows "dom (store_packets s ps) =
     recent_seqs (SequenceNumber (seq_val (ss_sequence_counter s) + 1))
       (min (Suc k) (ss_max_retransmission_buffer_size s))"
proof -
  let ?seq = "ss_sequence_counter s" and ?max = "ss_max_retransmission_buffer_size s"
  have dom: "dom (ss_retransmission_buffer s) = recent_seqs ?seq k" and k: "k \<le> ?max"
    using win by (simp_all add: rtx_window_def)
  have len: "map_len (ss_retransmission_buffer s) = k"
    using k max by (simp add: map_len_def dom card_recent_seqs)
  show ?thesis
  proof (cases "k = ?max")
    case True
    then obtain j where j: "?max = Suc j" using max by (cases "?max") auto
    have "dom (store_packets s ps) = insert ?seq (recent_seqs ?seq (Suc j) - {SequenceNumber (seq_val ?seq - of_nat (Suc j))})"
      using True j by (simp add: store_packets_def Let_def len dom)
    also have "\<dots> = insert ?seq (recent_seqs ?seq j)"
      using recent_seqs_drop_oldest [of j ?seq] max j by simp
    also have "\<dots> = recent_seqs (SequenceNumber (seq_val ?seq + 1)) (Suc j)"
      by (simp add: recent_seqs_Suc)
    finally show ?thesis using True j by simp
  next
    case False
    with k have "k < ?max" by simp
    then show ?thesis
      by (simp add: store_packets_def Let_def len dom recent_seqs_Suc)
  qed
qed

lemma store_packets_entries:
  "store_packets s ps seq = Some qs \<Longrightarrow>
   seq = ss_sequence_counter s \<and> qs = ps \<or> ss_retransmission_buffer s seq = Some qs"
  by (auto simp: store_packets_def Let_def split: if_splits)

section \<open>Successful sends\<close>

lemma send_ReturnedE:
  assumes "send B S tx s bank ts content = Done (Returned s' bank' sent r)"
  obtains (ok) packets where "build_packets B s ts (compress (ss_compression s) content) = Done packets"
      "r = Inr ()" "sent = map (serialize_packet B) packets"
      "s' = s\<lparr> ss_retransmission_buffer :=
              (if ss_mode s = Dual then store_packets s packets else ss_retransmission_buffer s),
            ss_sequence_counter := SequenceNumber (seq_val (ss_sequence_counter s) + 1) \<rparr>"
  | (failed) e where "r = Inl e" "s' = s"
proof -
  from assms obtain packets where
    build: "build_packets B s ts (compress (ss_compression s) content) = Done packets"
    by (auto simp: send_def Let_def)
  show thesis
  proof (cases r)
    case (Inl e)
    then have "s' = s"
      using assms by (auto simp: send_def Let_def build split: credit_wait.splits prod.splits sum.splits)
    with Inl failed show thesis by blast
  next
    case (Inr u)
    then show thesis
      using assms ok [OF build]
      by (auto simp: send_def Let_def build split: credit_wait.splits prod.splits sum.splits
          dest: send_datagrams_ok)
  qed
qed

lemma send_sent_packets:
  assumes "send B S tx s bank ts content = Done (Returned s' bank' sent r)"
  shows "\<exists>packets. build_packets B s ts (compress (ss_compression s) content) = Done packets \<and>
     set sent \<subseteq> serialize_packet B ` set packets"
proof -
  from assms obtain packets where
    build: "build_packets B s ts (compress (ss_compression s) content) = Done packets"
    by (auto simp: send_def Let_def)
  then show ?thesis
    using assms
    by (auto simp: send_def Let_def split: credit_wait.splits prod.splits sum.splits
        dest!: send_datagrams_subset)
qed

context semaphore
begin

text \<open>With enough credits and a connection that takes the datagrams, \<open>send\<close> succeeds and
  spends one credit per datagram.\<close>

lemma send_succeeds:
  assumes "build_packets B s ts (compress (ss_compression s) content) = Done packets"
    and "\<not> shut bank" and "length packets \<le> credits bank" and "\<And>i d. tx i d = Inr ()"
  shows "\<exists>s' bank'. send B S tx s bank ts content =
       Done (Returned s' bank' (map (serialize_packet B) packets) (Inr ())) \<and>
     credits bank' = credits bank - length packets \<and> \<not> shut bank'"
proof -
  obtain bank' where "take_credits S (length packets) bank = Granted bank'"
    and "credits bank' = credits bank - length packets" and "\<not> shut bank'"
    using take_credits_enough [OF assms(2,3)] by blast
  with assms(1) send_datagrams_all_ok [of tx B 0 packets] assms(4) show ?thesis
    by (simp add: send_def Let_def)
qed

lemma send_shut:
  assumes "build_packets B s ts (compress (ss_compression s) content) = Done packets" and "shut bank"
  shows "send B S tx s bank ts content =
     Done (Returned s bank [] (Inl (DatagramSendFailed ''stream closed'')))"
proof -
  have "0 < length packets" using build_packets_nonempty [OF assms(1)] by simp
  then have "take_credits S (length packets) bank = Shut bank"
    using assms(2) by (rule take_credits_shut [rotated])
  with assms(1) show ?thesis by (simp add: send_def Let_def)
qed

lemma send_waits:
  assumes "build_packets B s ts (compress (ss_compression s) content) = Done packets"
    and "\<not> shut bank" and "credits bank < length packets"
  shows "\<exists>bank'. send B S tx s bank ts content = Done (AwaitingCredit (length packets - credits bank) bank') \<and>
     credits bank' = 0"
  using take_credits_short [OF assms(2,3)] assms(1) by (auto simp: send_def Let_def)

end

section \<open>A transfer's sends\<close>

text \<open>
  The states of a stream whose calls of \<open>send\<close> returned, with the history of the
  successful ones: the sequence number and the datagrams of each.  The bank and the
  connection may answer differently at every call.
\<close>

inductive send_run ::
  "buf_ops \<Rightarrow> 's semaphore_ops \<Rightarrow> send_stream \<Rightarrow> (sequence_number \<times> bytes list) list \<Rightarrow> send_stream \<Rightarrow> bool"
  for B S s0 where
  start: "send_run B S s0 [] s0"
| sent: "send_run B S s0 hist s \<Longrightarrow>
    send B S tx s bank ts content = Done (Returned s' bank' sent (Inr ())) \<Longrightarrow>
    send_run B S s0 (hist @ [(ss_sequence_counter s, sent)]) s'"
| failed: "send_run B S s0 hist s \<Longrightarrow>
    send B S tx s bank ts content = Done (Returned s' bank' sent (Inl e)) \<Longrightarrow>
    send_run B S s0 hist s'"

definition nth_seq :: "sequence_number \<Rightarrow> nat \<Rightarrow> sequence_number" where
  "nth_seq seq n = SequenceNumber (seq_val seq + of_nat n)"

lemma nth_seq_neq:
  assumes "j < n" and "n - j < 2 ^ 32"
  shows "nth_seq seq j \<noteq> nth_seq seq n"
proof
  assume "nth_seq seq j = nth_seq seq n"
  then have "(of_nat n :: u32) = of_nat j" by (simp add: nth_seq_def)
  then have "(of_nat (n - j) :: u32) = of_nat 0" using assms(1) by (simp add: of_nat_diff)
  then show False using of_nat_u32_inj [of "n - j" 0] assms by simp
qed

lemma nth_seq_Suc: "SequenceNumber (seq_val (nth_seq seq n) + 1) = nth_seq seq (Suc n)"
  by (simp add: nth_seq_def algebra_simps)

lemma nth_seq_back: "k \<le> n \<Longrightarrow> SequenceNumber (seq_val (nth_seq seq n) - of_nat k) = nth_seq seq (n - k)"
  by (simp add: nth_seq_def of_nat_diff)

text \<open>What a run keeps of the stream, and the numbering of the history.\<close>

lemma send_run_frame:
  "send_run B S s0 hist s \<Longrightarrow>
     ss_mode s = ss_mode s0 \<and> ss_id s = ss_id s0 \<and>
     ss_max_retransmission_buffer_size s = ss_max_retransmission_buffer_size s0 \<and>
     ss_initial_sequence_number s = ss_initial_sequence_number s0 \<and>
     ss_sequence_counter s = nth_seq (ss_sequence_counter s0) (length hist) \<and>
     map fst hist = map (nth_seq (ss_sequence_counter s0)) [0 ..< length hist]"
proof (induction rule: send_run.induct)
  case start
  show ?case by (simp add: nth_seq_def)
next
  case (sent hist s tx bank ts content s' bank' d)
  from sent.hyps(2) obtain packets where "s' = s\<lparr> ss_retransmission_buffer :=
              (if ss_mode s = Dual then store_packets s packets else ss_retransmission_buffer s),
            ss_sequence_counter := SequenceNumber (seq_val (ss_sequence_counter s) + 1) \<rparr>"
    by (cases rule: send_ReturnedE) auto
  with sent.IH show ?case by (simp add: nth_seq_Suc)
next
  case (failed hist s tx bank ts content s' bank' d e)
  from failed.hyps(2) have "s' = s" by (cases rule: send_ReturnedE) auto
  with failed.IH show ?case by simp
qed

lemma send_run_command_sender:
  "send_run B S s0 hist s \<Longrightarrow> ss_command_sender s = ss_command_sender s0"
proof (induction rule: send_run.induct)
  case (sent hist s tx bank ts content s' bank' d)
  from sent.hyps(2) sent.IH show ?case by (cases rule: send_ReturnedE) auto
next
  case (failed hist s tx bank ts content s' bank' d e)
  from failed.hyps(2) failed.IH show ?case by (cases rule: send_ReturnedE) auto
qed simp

text \<open>The last sends, as many as the limit, can all be retransmitted.\<close>

definition holds_recent :: "buf_ops \<Rightarrow> (sequence_number \<times> bytes list) list \<Rightarrow> send_stream \<Rightarrow> bool" where
  "holds_recent B hist s \<longleftrightarrow>
     (\<forall>j < length hist. length hist \<le> j + ss_max_retransmission_buffer_size s \<longrightarrow>
        (\<exists>ps. ss_retransmission_buffer s (fst (hist ! j)) = Some ps \<and>
           map (serialize_packet B) ps = snd (hist ! j)))"

lemma holds_recent_step:
  assumes holds: "holds_recent B hist s"
    and counter: "ss_sequence_counter s = nth_seq initial (length hist)"
    and seqs: "map fst hist = map (nth_seq initial) [0 ..< length hist]"
    and win: "rtx_window s (min (length hist) (ss_max_retransmission_buffer_size s))"
    and max: "ss_max_retransmission_buffer_size s < 2 ^ 32"
    and s': "s' = s\<lparr> ss_retransmission_buffer := store_packets s packets,
                      ss_sequence_counter := SequenceNumber (seq_val (ss_sequence_counter s) + 1) \<rparr>"
  shows "holds_recent B (hist @ [(ss_sequence_counter s, map (serialize_packet B) packets)]) s'"
  unfolding holds_recent_def
proof (intro allI impI)
  let ?n = "length hist" and ?max = "ss_max_retransmission_buffer_size s"
  let ?hist' = "hist @ [(ss_sequence_counter s, map (serialize_packet B) packets)]"
  fix j assume j: "j < length ?hist'" "length ?hist' \<le> j + ss_max_retransmission_buffer_size s'"
  show "\<exists>ps. ss_retransmission_buffer s' (fst (?hist' ! j)) = Some ps \<and>
     map (serialize_packet B) ps = snd (?hist' ! j)"
  proof (cases "j = ?n")
    case True
    then show ?thesis by (simp add: s' store_packets_def Let_def)
  next
    case False
    with j s' have jn: "j < ?n" and near: "?n < j + ?max" by auto
    have fst: "fst (hist ! j) = nth_seq initial j"
      using arg_cong [OF seqs, of "\<lambda>xs. xs ! j"] jn by simp
    have "nth_seq initial j \<noteq> ss_sequence_counter s"
      unfolding counter using jn near max by (intro nth_seq_neq) auto
    moreover have "nth_seq initial j \<noteq> SequenceNumber (seq_val (ss_sequence_counter s) - of_nat ?max)"
      if full: "?max \<le> map_len (ss_retransmission_buffer s)"
    proof -
      have "map_len (ss_retransmission_buffer s) = min ?n ?max"
        using win max by (simp add: map_len_def rtx_window_def card_recent_seqs)
      with full have le: "?max \<le> ?n" by simp
      then have "SequenceNumber (seq_val (ss_sequence_counter s) - of_nat ?max) = nth_seq initial (?n - ?max)"
        by (simp add: counter nth_seq_back)
      moreover have "nth_seq initial (?n - ?max) \<noteq> nth_seq initial j"
        using jn near max le by (intro nth_seq_neq) auto
      ultimately show ?thesis by simp
    qed
    ultimately show ?thesis
      using holds jn near fst
      by (auto simp: holds_recent_def s' store_packets_def Let_def nth_append)
  qed
qed

lemma send_run_window:
  assumes "send_run B S s0 hist s" and "ss_mode s0 = Dual"
    and "ss_retransmission_buffer s0 = Map.empty"
    and "0 < ss_max_retransmission_buffer_size s0" and "ss_max_retransmission_buffer_size s0 < 2 ^ 32"
  shows "rtx_window s (min (length hist) (ss_max_retransmission_buffer_size s)) \<and> holds_recent B hist s"
  using assms
proof (induction rule: send_run.induct)
  case start
  then show ?case by (simp add: rtx_window_def recent_seqs_def holds_recent_def)
next
  case (sent hist s tx bank ts content s' bank' d)
  note frame = send_run_frame [OF sent.hyps(1)]
  from sent.hyps(2) frame sent.prems(1) obtain packets where
    build: "build_packets B s ts (compress (ss_compression s) content) = Done packets"
    and d: "d = map (serialize_packet B) packets"
    and s': "s' = s\<lparr> ss_retransmission_buffer := store_packets s packets,
            ss_sequence_counter := SequenceNumber (seq_val (ss_sequence_counter s) + 1) \<rparr>"
    by (cases rule: send_ReturnedE) auto
  have win: "rtx_window s (min (length hist) (ss_max_retransmission_buffer_size s))"
    and holds: "holds_recent B hist s"
    using sent.IH sent.prems by auto
  have "min (Suc (min (length hist) m)) m = min (Suc (length hist)) m" for m by simp
  then have "dom (store_packets s packets) = recent_seqs (SequenceNumber (seq_val (ss_sequence_counter s) + 1))
       (min (Suc (length hist)) (ss_max_retransmission_buffer_size s))"
    using store_packets_dom [OF win, of packets] frame sent.prems by metis
  moreover have "pkt_sequence_number p = ss_sequence_counter s \<and> pkt_stream_id p = ss_id s"
    if "p \<in> set packets" for p using build_packets_header [OF build that] by simp
  ultimately have "rtx_window s' (min (length (hist @ [(ss_sequence_counter s, d)])) (ss_max_retransmission_buffer_size s'))"
    using win by (auto simp: rtx_window_def s' dest!: store_packets_entries)
  moreover have "holds_recent B (hist @ [(ss_sequence_counter s, d)]) s'"
    unfolding d using frame sent.prems by (intro holds_recent_step [OF holds _ _ win _ s']) auto
  ultimately show ?case by simp
next
  case (failed hist s tx bank ts content s' bank' d e)
  from failed.hyps(2) have "s' = s" by (cases rule: send_ReturnedE) auto
  with failed show ?case by simp
qed

text \<open>The final sequence number after a run of sends.\<close>

lemma send_run_final:
  assumes "send_run B S (send_stream_new sid mode cmp initial n buf mtu) hist s"
  shows "stream_final_sequence_number s = SequenceNumber (seq_val (nth_seq initial (length hist)) - 1)"
proof -
  let ?s0 = "send_stream_new sid mode cmp initial n buf mtu"
  have "ss_sequence_counter ?s0 = initial" "ss_initial_sequence_number ?s0 = initial"
    by (simp_all add: send_stream_new_def)
  with send_run_frame [OF assms] show ?thesis by (simp add: stream_final_sequence_number_def)
qed

section \<open>Properties\<close>

text \<open>A stream and an open bank for the concrete instances below.\<close>

definition plain_stream :: "nat option \<Rightarrow> send_stream" where
  "plain_stream mtu =
     send_stream_new (ManiStreamId 7) Dual NoCompression (SequenceNumber 0) 4 Map.empty mtu"

lemma build_plain_stream:
  "\<not> needs_fragment mtu data \<Longrightarrow> build_packets be_ops (plain_stream mtu) (Timestamp 1) data =
     Done [\<lparr> pkt_stream_id = ManiStreamId 7, pkt_sequence_number = SequenceNumber 0,
             pkt_timestamp = Timestamp 1, pkt_content = encode_single_content data \<rparr>]"
  by (simp add: build_packets_def plain_stream_def send_stream_new_def)

lemma compress_plain_stream: "compress (ss_compression (plain_stream mtu)) data = data"
  by (simp add: plain_stream_def send_stream_new_def NoCompression_def)

lemma send_plain_stream:
  "\<not> needs_fragment mtu data \<Longrightarrow> \<exists>s' bank' sent. send be_ops counting_ops (\<lambda>_ _. Inr ()) (plain_stream mtu)
     \<lparr> bank_sem = (5, False) \<rparr> (Timestamp 1) data = Done (Returned s' bank' sent (Inr ()))"
  using counting.send_succeeds [of be_ops "plain_stream mtu" "Timestamp 1" data _
      "\<lparr> bank_sem = (5, False) \<rparr>" "\<lambda>_ _. Inr ()"]
  by (auto simp: compress_plain_stream build_plain_stream counting.shut_def counting.credits_def)

text \<open>C33: No datagram that a call of \<open>send\<close> puts on the wire, successful or not, is longer than
  the configured maximum, once the maximum has room for the headers of a single packet.\<close>

theorem sent_datagrams_fit:
  assumes B: "byte_buf B" and m: "ss_max_datagram_size s = Some m" "PACKET_WIRE_HEADER_SIZE + SINGLE_CONTENT_OVERHEAD \<le> m"
    and send: "send B S tx s bank ts content = Done (Returned s' bank' sent r)"
  shows "\<forall>d \<in> set sent. length d \<le> m"
proof
  fix d assume d: "d \<in> set sent"
  obtain packets where build: "build_packets B s ts (compress (ss_compression s) content) = Done packets"
    and "set sent \<subseteq> serialize_packet B ` set packets"
    using send_sent_packets [OF send] by blast
  with d obtain p where "p \<in> set packets" "d = serialize_packet B p" by blast
  then show "length d \<le> m"
    using byte_buf.build_packets_size [OF B m(1) _ build] m(2)
    by (simp add: PACKET_WIRE_HEADER_SIZE_def SINGLE_CONTENT_OVERHEAD_def)
qed

theorem sent_datagrams_fit_witness:
  "\<exists>s' bank' sent. send be_ops counting_ops (\<lambda>_ _. Inr ()) (plain_stream (Some 30)) \<lparr> bank_sem = (5, False) \<rparr>
     (Timestamp 1) [1, 2] = Done (Returned s' bank' sent (Inr ())) \<and> (\<forall>d \<in> set sent. length d \<le> 30)"
proof -
  have "\<not> needs_fragment (Some 30) [1, 2]"
    by (simp add: needs_fragment_def PACKET_WIRE_HEADER_SIZE_def SINGLE_CONTENT_OVERHEAD_def)
  then obtain s' bank' sent where send: "send be_ops counting_ops (\<lambda>_ _. Inr ()) (plain_stream (Some 30))
      \<lparr> bank_sem = (5, False) \<rparr> (Timestamp 1) [1, 2] = Done (Returned s' bank' sent (Inr ()))"
    using send_plain_stream by blast
  have "\<forall>d \<in> set sent. length d \<le> 30"
    by (rule sent_datagrams_fit [OF byte_buf_be_ops _ _ send])
      (simp_all add: plain_stream_def send_stream_new_def PACKET_WIRE_HEADER_SIZE_def SINGLE_CONTENT_OVERHEAD_def)
  with send show ?thesis by blast
qed

text \<open>C34: A payload that does not fit a single datagram is cut into fragments that carry it
  completely and in order, each with its index and the number of fragments modulo
  \<open>2 ^ 16\<close>; building them panics exactly when the maximum leaves no room for a fragment.\<close>

theorem fragments_cover_payload:
  assumes "ss_max_datagram_size s = Some m" and "needs_fragment (Some m) compressed"
  shows "if m \<le> PACKET_WIRE_HEADER_SIZE + FRAG_CONTENT_OVERHEAD then build_packets B s ts compressed = Panic
     else \<exists>frags packets. build_packets B s ts compressed = Done packets \<and> concat frags = compressed \<and>
       length packets = length frags \<and>
       length frags = (length compressed + (m - 25) - 1) div (m - 25) \<and>
       map pkt_content packets =
         map (\<lambda>i. encode_fragment_content B (of_nat i) (of_nat (length frags)) (frags ! i)) [0 ..< length frags]"
proof (cases "m \<le> 25")
  case True
  then show ?thesis
    using build_packets_panics [OF assms] by (simp add: PACKET_WIRE_HEADER_SIZE_def FRAG_CONTENT_OVERHEAD_def)
next
  case False
  let ?frags = "chunks (m - 25) compressed"
  obtain packets where build: "build_packets B s ts compressed = Done packets"
    and "map pkt_content packets = map (\<lambda>(i, frag). encode_fragment_content B (of_nat i)
            (of_nat (length ?frags)) frag) (enumerate 0 ?frags)"
    using build_packets_fragments [OF assms, of B ts] False by (auto simp: case_prod_beta)
  moreover from this have "length packets = length ?frags"
    by (metis length_map length_enumerate)
  ultimately show ?thesis
    using False concat_chunks [of "m - 25" compressed] length_chunks [of "m - 25" compressed]
    by (auto simp: map_enumerate PACKET_WIRE_HEADER_SIZE_def FRAG_CONTENT_OVERHEAD_def intro!: exI [of _ ?frags])
qed

theorem fragments_cover_payload_witness:
  "build_packets be_ops (plain_stream (Some 23)) (Timestamp 1) [1, 2, 3] = Panic"
  using fragments_cover_payload [of "plain_stream (Some 23)" 23 "[1, 2, 3]" be_ops "Timestamp 1"]
  by (simp add: needs_fragment_def plain_stream_def send_stream_new_def PACKET_WIRE_HEADER_SIZE_def
      SINGLE_CONTENT_OVERHEAD_def FRAG_CONTENT_OVERHEAD_def)

text \<open>C28: One credit is spent per datagram before anything is sent: with enough credits and a
  working connection the call succeeds and spends exactly their number, with too few it waits
  for the rest without sending, and after the shutdown of the bank it fails without sending.\<close>

theorem send_spends_credits:
  assumes sem: "semaphore S avail is_closed max_permits"
    and build: "build_packets B s ts (compress (ss_compression s) content) = Done packets"
    and tx: "tx = (\<lambda>_ _. Inr ())"
  shows "if is_closed (bank_sem bank) then
       send B S tx s bank ts content = Done (Returned s bank [] (Inl (DatagramSendFailed ''stream closed'')))
     else if length packets \<le> avail (bank_sem bank) then
       \<exists>s' bank'. send B S tx s bank ts content =
           Done (Returned s' bank' (map (serialize_packet B) packets) (Inr ())) \<and>
         avail (bank_sem bank') = avail (bank_sem bank) - length packets
     else
       \<exists>bank'. send B S tx s bank ts content =
           Done (AwaitingCredit (length packets - avail (bank_sem bank)) bank') \<and>
         avail (bank_sem bank') = 0"
proof -
  note defs = semaphore.shut_def [OF sem] semaphore.credits_def [OF sem]
  show ?thesis
    using semaphore.send_shut [OF sem build, of bank tx]
      semaphore.send_succeeds [OF sem build, of bank tx] semaphore.send_waits [OF sem build, of bank tx]
    by (auto simp: defs tx)
qed

theorem send_spends_credits_witness:
  "\<exists>bank'. send be_ops counting_ops (\<lambda>_ _. Inr ()) (plain_stream None) \<lparr> bank_sem = (0, False) \<rparr> (Timestamp 1) [9] =
     Done (AwaitingCredit 1 bank')"
  using send_spends_credits [OF semaphore_counting_ops, of be_ops "plain_stream None" "Timestamp 1" "[9]" _
      "\<lambda>_ _. Inr ()" "\<lparr> bank_sem = (0, False) \<rparr>"]
  by (auto simp: compress_plain_stream build_plain_stream needs_fragment_def)

text \<open>C26: In a \<open>Dual\<close> transfer whose buffer limit is positive, the retransmission buffer holds
  the last sends, as many as the limit, each under its own sequence number and with exactly
  the packets whose datagrams went out; sends are numbered consecutively from the initial
  number, and calls that fail change nothing.\<close>

theorem retransmission_window:
  assumes "send_run B S (send_stream_new sid Dual cmp initial n Map.empty mtu) hist s"
    and "0 < n" and "n < 2 ^ 32"
  shows "map fst hist = map (nth_seq initial) [0 ..< length hist] \<and>
     map_len (ss_retransmission_buffer s) = min (length hist) n \<and>
     holds_recent B hist s"
proof -
  let ?s0 = "send_stream_new sid Dual cmp initial n Map.empty mtu"
  have s0: "ss_mode ?s0 = Dual" "ss_retransmission_buffer ?s0 = Map.empty"
      "ss_max_retransmission_buffer_size ?s0 = n" "ss_sequence_counter ?s0 = initial"
    by (simp_all add: send_stream_new_def)
  note frame = send_run_frame [OF assms(1)]
  have win: "rtx_window s (min (length hist) n)" and "holds_recent B hist s"
    using send_run_window [OF assms(1)] s0 frame assms(2,3) by auto
  then have "map_len (ss_retransmission_buffer s) = min (length hist) n"
    using assms(3) by (simp add: rtx_window_def map_len_def card_recent_seqs)
  with frame s0 \<open>holds_recent B hist s\<close> show ?thesis by simp
qed

theorem retransmission_window_witness:
  "\<exists>s sent. send_run be_ops counting_ops (plain_stream None) [(SequenceNumber 0, sent)] s \<and>
     map_len (ss_retransmission_buffer s) = 1 \<and> holds_recent be_ops [(SequenceNumber 0, sent)] s"
proof -
  obtain s' bank' sent where "send be_ops counting_ops (\<lambda>_ _. Inr ()) (plain_stream None)
      \<lparr> bank_sem = (5, False) \<rparr> (Timestamp 1) [9] = Done (Returned s' bank' sent (Inr ()))"
    using send_plain_stream [of None "[9]"] by (auto simp: needs_fragment_def)
  from send_run.sent [OF send_run.start this]
  have run: "send_run be_ops counting_ops (plain_stream None) [(SequenceNumber 0, sent)] s'"
    by (simp add: plain_stream_def send_stream_new_def)
  from retransmission_window [OF run [unfolded plain_stream_def]] run show ?thesis by auto
qed

text \<open>After a run of sends, ending the stream sends one \<open>EndTransfer\<close>, which names the last
  sequence number sent, or the one before the initial number when nothing was sent; ending
  it again or dropping it sends nothing more.\<close>

lemma end_names_last_send:
  assumes "send_run B S (send_stream_new sid mode cmp initial n buf mtu) hist s"
  shows "\<exists>s' r. end_stream s resp True reply = (s', [EndTransferCommand
         (if hist = [] then SequenceNumber (seq_val initial - 1) else fst (last hist)) resp], r) \<and>
     drop_stream s' resp' cmd_ok = [] \<and> fst (snd (end_stream s' resp' cmd_ok reply')) = []"
proof -
  have fsts: "map fst hist = map (nth_seq initial) [0 ..< length hist]"
    using send_run_frame [OF assms] by (simp add: send_stream_new_def)
  note final = send_run_final [OF assms]
  have "fst (last hist) = SequenceNumber (seq_val (nth_seq initial (length hist)) - 1)" if "hist \<noteq> []"
  proof -
    have "fst (last hist) = last (map fst hist)" using that by (simp add: last_map)
    also have "\<dots> = nth_seq initial (length hist - 1)" using that unfolding fsts by (simp add: last_map)
    also have "\<dots> = SequenceNumber (seq_val (nth_seq initial (length hist)) - 1)"
      using nth_seq_back [of 1 "length hist" initial] that by (simp add: Suc_le_eq)
    finally show ?thesis .
  qed
  with final have "stream_final_sequence_number s =
      (if hist = [] then SequenceNumber (seq_val initial - 1) else fst (last hist))"
    by (auto simp: nth_seq_def)
  moreover have "ss_command_sender s"
    using send_run_command_sender [OF assms] by (simp add: send_stream_new_def)
  ultimately show ?thesis
    by (cases reply) (simp_all add: end_stream_def drop_stream_def)
qed

end
