(* ===== verification/Reassembly.thy ===== *)
theory Reassembly
  imports Send_Stream
begin

text \<open>
  The receiving end of the datagram path, \<^verbatim>\<open>src/src/mani/transfer/compression.rs\<close>: it strips
  the content header, collects the fragments of each sequence number, decompresses and
  routes the result to the receive streams.
\<close>

section \<open>State\<close>

record fragment_buffer =
  fb_total_frags :: u16
  fb_fragments :: "u16 \<Rightarrow> bytes option"
  fb_timestamp :: timestamp

text \<open>The channels to the receive streams are numbered from 0.\<close>

record packet_receiver =
  pr_senders :: nat
  pr_compression :: compression
  pr_fragment_buffers :: "u32 \<Rightarrow> fragment_buffer option"
  pr_max_fragment_groups :: nat

definition packet_receiver_new :: "nat \<Rightarrow> compression \<Rightarrow> nat \<Rightarrow> packet_receiver" where
  "packet_receiver_new senders cmp max_groups =
     \<lparr> pr_senders = senders, pr_compression = cmp, pr_fragment_buffers = Map.empty,
       pr_max_fragment_groups = max_groups \<rparr>"

section \<open>Routing\<close>

text \<open>
  \<open>alive i\<close> is whether the \<open>send\<close> on channel \<open>i\<close> succeeded.  The result lists the packets
  that were delivered, and says whether every receiver is gone.
\<close>

fun route_loop ::
  "(nat \<Rightarrow> bool) \<Rightarrow> packet \<Rightarrow> nat list \<Rightarrow> bool \<Rightarrow> (nat \<times> packet) list \<times> bool" where
  "route_loop alive packet [] any_alive = ([], any_alive)"
| "route_loop alive packet (i # is) any_alive =
     (if alive i
      then (case route_loop alive packet is True of (sent, a) \<Rightarrow> ((i, packet) # sent, a))
      else route_loop alive packet is any_alive)"

definition route_decompressed ::
  "packet_receiver \<Rightarrow> (nat \<Rightarrow> bool) \<Rightarrow> mani_stream_id \<Rightarrow> sequence_number \<Rightarrow> timestamp \<Rightarrow> bytes \<Rightarrow>
   (nat \<times> packet) list \<times> bool" where
  "route_decompressed r alive sid seq ts decompressed =
     (case route_loop alive
        \<lparr> pkt_stream_id = sid, pkt_sequence_number = seq, pkt_timestamp = ts, pkt_content = decompressed \<rparr>
        [0 ..< pr_senders r] False of
        (sent, any_alive) \<Rightarrow> (sent, \<not> any_alive \<and> pr_senders r \<noteq> 0))"

section \<open>Fragments\<close>

text \<open>Evicting the group with the smallest key when a new group would exceed the limit.\<close>

definition evict_oldest :: "packet_receiver \<Rightarrow> u32 \<Rightarrow> packet_receiver" where
  "evict_oldest r key =
     (let groups = pr_fragment_buffers r in
      if groups key = None \<and> pr_max_fragment_groups r \<le> map_len groups then
        (if dom groups = {} then r
         else r\<lparr> pr_fragment_buffers := groups(Min (dom groups) := None) \<rparr>)
      else r)"

text \<open>\<open>entry(key).or_insert_with(..)\<close> and the insertion of the fragment.\<close>

definition insert_fragment ::
  "packet_receiver \<Rightarrow> u32 \<Rightarrow> u16 \<Rightarrow> u16 \<Rightarrow> timestamp \<Rightarrow> bytes \<Rightarrow> packet_receiver" where
  "insert_fragment r key index total_fragments ts data =
     (let buf = (case pr_fragment_buffers r key of
                   Some buf \<Rightarrow> buf
                 | None \<Rightarrow> \<lparr> fb_total_frags = total_fragments, fb_fragments = Map.empty, fb_timestamp = ts \<rparr>)
      in r\<lparr> pr_fragment_buffers := (pr_fragment_buffers r)
             (key \<mapsto> buf\<lparr> fb_fragments := (fb_fragments buf)(index \<mapsto> data) \<rparr>) \<rparr>)"

definition is_complete :: "packet_receiver \<Rightarrow> u32 \<Rightarrow> bool" where
  "is_complete r key =
     (case pr_fragment_buffers r key of
        Some b \<Rightarrow> map_len (fb_fragments b) = unat (fb_total_frags b)
      | None \<Rightarrow> False)"

text \<open>The loop over the indices, which gives up at the first one that is missing.\<close>

fun collect_fragments :: "(u16 \<Rightarrow> bytes option) \<Rightarrow> u16 list \<Rightarrow> bytes option" where
  "collect_fragments frags [] = Some []"
| "collect_fragments frags (i # is) =
     (case frags i of
        Some frag \<Rightarrow> map_option (\<lambda>rest. frag @ rest) (collect_fragments frags is)
      | None \<Rightarrow> None)"

definition assemble_group :: "fragment_buffer \<Rightarrow> bytes option" where
  "assemble_group buf = collect_fragments (fb_fragments buf) (map of_nat [0 ..< unat (fb_total_frags buf)])"

section \<open>One packet, and the loop\<close>

text \<open>
  Every step results in the new state, the deliveries and whether the loop stops.  A
  complete group is removed, assembled, decompressed and routed with its own timestamp.
\<close>

definition complete_group ::
  "packet_receiver \<Rightarrow> (nat \<Rightarrow> bool) \<Rightarrow> packet \<Rightarrow> u32 \<Rightarrow> packet_receiver \<times> (nat \<times> packet) list \<times> bool" where
  "complete_group r alive packet key =
     (case pr_fragment_buffers r key of
        None \<Rightarrow> (r, [], False)
      | Some buf \<Rightarrow>
          (let r = r\<lparr> pr_fragment_buffers := (pr_fragment_buffers r)(key := None) \<rparr> in
           case assemble_group buf of
             None \<Rightarrow> (r, [], False)
           | Some assembled \<Rightarrow>
               (r, route_decompressed r alive (pkt_stream_id packet) (pkt_sequence_number packet)
                     (fb_timestamp buf) (decompress (pr_compression r) assembled))))"

definition receive_fragment ::
  "packet_receiver \<Rightarrow> (nat \<Rightarrow> bool) \<Rightarrow> packet \<Rightarrow> u16 \<Rightarrow> u16 \<Rightarrow> bytes \<Rightarrow>
   packet_receiver \<times> (nat \<times> packet) list \<times> bool" where
  "receive_fragment r alive packet index total_fragments data =
     (let key = seq_val (pkt_sequence_number packet);
          r = insert_fragment (evict_oldest r key) key index total_fragments (pkt_timestamp packet) data
      in if is_complete r key then complete_group r alive packet key else (r, [], False))"

definition receive_packet ::
  "buf_ops \<Rightarrow> packet_receiver \<Rightarrow> (nat \<Rightarrow> bool) \<Rightarrow> packet \<Rightarrow>
   (packet_receiver \<times> (nat \<times> packet) list \<times> bool) outcome" where
  "receive_packet B r alive packet =
     bind_outcome (decode_content B (pkt_content packet)) (\<lambda>decoded. Done
       (case decoded of
          Inl e \<Rightarrow> (r, [], False)
        | Inr (Single compressed) \<Rightarrow>
            (r, route_decompressed r alive (pkt_stream_id packet) (pkt_sequence_number packet)
                  (pkt_timestamp packet) (decompress (pr_compression r) compressed))
        | Inr (Fragment index total_fragments data) \<Rightarrow>
            receive_fragment r alive packet index total_fragments data))"

fun receive_all ::
  "buf_ops \<Rightarrow> packet_receiver \<Rightarrow> ((nat \<Rightarrow> bool) \<times> packet) list \<Rightarrow>
   (packet_receiver \<times> (nat \<times> packet) list \<times> bool) outcome" where
  "receive_all B r [] = Done (r, [], False)"
| "receive_all B r ((alive, packet) # ps) =
     bind_outcome (receive_packet B r alive packet) (\<lambda>(r, sent, stop).
       if stop then Done (r, sent, True)
       else bind_outcome (receive_all B r ps) (\<lambda>(r, sents, stop). Done (r, sent @ sents, stop)))"

section \<open>Routing facts\<close>

lemma route_loop_eq:
  "route_loop alive packet is a = (map (\<lambda>i. (i, packet)) (filter alive is), a \<or> (\<exists>i \<in> set is. alive i))"
  by (induction "is" arbitrary: a) auto

lemma route_decompressed_eq:
  "route_decompressed r alive sid seq ts data =
     (map (\<lambda>i. (i, \<lparr> pkt_stream_id = sid, pkt_sequence_number = seq, pkt_timestamp = ts, pkt_content = data \<rparr>))
        (filter alive [0 ..< pr_senders r]),
      pr_senders r \<noteq> 0 \<and> (\<forall>i < pr_senders r. \<not> alive i))"
  by (auto simp: route_decompressed_def route_loop_eq)

section \<open>The number of groups is bounded\<close>

definition groups_bounded :: "packet_receiver \<Rightarrow> bool" where
  "groups_bounded r \<longleftrightarrow> map_len (pr_fragment_buffers r) \<le> max 1 (pr_max_fragment_groups r)"

lemma finite_u32_dom: "finite (dom (m :: u32 \<Rightarrow> 'a option))"
  by (rule finite)

lemma evict_oldest_room:
  assumes "groups_bounded r"
  shows "groups_bounded (evict_oldest r key) \<and>
     (pr_fragment_buffers (evict_oldest r key) key = None \<longrightarrow>
        map_len (pr_fragment_buffers (evict_oldest r key)) < max 1 (pr_max_fragment_groups r))"
proof (cases "pr_fragment_buffers r key = None \<and> pr_max_fragment_groups r \<le> map_len (pr_fragment_buffers r) \<and>
    dom (pr_fragment_buffers r) \<noteq> {}")
  case True
  then have "Min (dom (pr_fragment_buffers r)) \<in> dom (pr_fragment_buffers r)"
    by (intro Min_in) simp_all
  then have "map_len (pr_fragment_buffers (evict_oldest r key)) = map_len (pr_fragment_buffers r) - 1"
    and "0 < map_len (pr_fragment_buffers r)"
    using True by (auto simp: evict_oldest_def Let_def map_len_del map_len_def card_gt_0_iff)
  with assms True show ?thesis
    by (auto simp: groups_bounded_def evict_oldest_def Let_def)
next
  case False
  then have "evict_oldest r key = r" by (auto simp: evict_oldest_def Let_def)
  moreover have "map_len (pr_fragment_buffers r) = 0" if "dom (pr_fragment_buffers r) = {}"
    using that by (simp add: map_len_def)
  ultimately show ?thesis using assms False by (auto simp: groups_bounded_def)
qed

lemma insert_fragment_bounded:
  assumes "groups_bounded r"
  shows "groups_bounded (insert_fragment (evict_oldest r key) key i t ts data)"
  using evict_oldest_room [OF assms, of key]
  by (auto simp: groups_bounded_def insert_fragment_def Let_def map_len_upd evict_oldest_def split: if_splits)

lemma complete_group_bounded:
  assumes "groups_bounded r"
  shows "groups_bounded (fst (complete_group r alive p key))"
  using assms
  by (auto simp: complete_group_def groups_bounded_def map_len_del Let_def split: option.splits)

lemma receive_packet_bounded:
  assumes "groups_bounded r" and "receive_packet B r alive p = Done (r', sent, stop)"
  shows "groups_bounded r'"
proof -
  have "groups_bounded (fst (receive_fragment r alive p i t data))" for i t data
    using insert_fragment_bounded [OF assms(1)] complete_group_bounded
    by (auto simp: receive_fragment_def Let_def)
  note frag = this
  obtain d where d: "decode_content B (pkt_content p) = Done d"
    using assms(2) by (auto simp: receive_packet_def)
  show ?thesis
  proof (cases d)
    case (Inr c)
    then show ?thesis
      using assms d frag [of "frag_index c" "total_frags c" "payload c"]
      by (cases c) (auto simp: receive_packet_def)
  qed (use assms d in \<open>auto simp: receive_packet_def\<close>)
qed

text \<open>A receiver as a step system: whatever arrives, on whatever channels.\<close>

definition receiver_step :: "buf_ops \<Rightarrow> packet_receiver \<Rightarrow> (nat \<Rightarrow> bool) \<times> packet \<Rightarrow> packet_receiver" where
  "receiver_step B r e =
     (case receive_packet B r (fst e) (snd e) of Panic \<Rightarrow> r | Done (r', sent, stop) \<Rightarrow> r')"

interpretation receiver: step_system "receiver_step B" groups_bounded for B
  by unfold_locales
    (auto simp: receiver_step_def split: outcome.splits prod.splits dest: receive_packet_bounded)

text \<open>
  The groups that are kept are the open ones: they hold a fragment, and fewer than they announce
  unless they announce none.
\<close>

definition group_open :: "fragment_buffer \<Rightarrow> bool" where
  "group_open b \<longleftrightarrow> fb_fragments b \<noteq> Map.empty \<and>
     (fb_total_frags b = 0 \<or> map_len (fb_fragments b) < unat (fb_total_frags b))"

definition groups_open :: "packet_receiver \<Rightarrow> bool" where
  "groups_open r \<longleftrightarrow> (\<forall>b \<in> ran (pr_fragment_buffers r). group_open b)"

lemma evict_oldest_open: "groups_open r \<Longrightarrow> groups_open (evict_oldest r key)"
  by (auto simp: groups_open_def evict_oldest_def Let_def ran_def split: if_splits)

lemma insert_fragment_open:
  assumes "groups_open r"
  shows "\<exists>b. pr_fragment_buffers (insert_fragment r key i t ts data) key = Some b \<and>
     (is_complete (insert_fragment r key i t ts data) key \<or> group_open b) \<and>
     (\<forall>k. k \<noteq> key \<longrightarrow> pr_fragment_buffers (insert_fragment r key i t ts data) k = pr_fragment_buffers r k)"
proof -
  let ?r = "insert_fragment r key i t ts data"
  define old where "old = (case pr_fragment_buffers r key of Some buf \<Rightarrow> buf
      | None \<Rightarrow> \<lparr> fb_total_frags = t, fb_fragments = Map.empty, fb_timestamp = ts \<rparr>)"
  define b where "b = old\<lparr> fb_fragments := (fb_fragments old)(i \<mapsto> data) \<rparr>"
  have r: "pr_fragment_buffers ?r = (pr_fragment_buffers r)(key \<mapsto> b)"
    by (simp add: insert_fragment_def Let_def b_def old_def)
  have "map_len (fb_fragments b) \<le> Suc (map_len (fb_fragments old))"
    by (simp add: b_def map_len_upd)
  moreover have "fb_fragments old = Map.empty \<or> group_open old"
    using assms by (auto simp: old_def groups_open_def ran_def split: option.split)
  ultimately have "fb_total_frags b = 0 \<or> map_len (fb_fragments b) \<le> unat (fb_total_frags b)"
    by (auto simp: b_def group_open_def map_len_def unat_gt_0 Suc_le_eq)
  moreover have "fb_fragments b \<noteq> Map.empty" by (auto simp: b_def fun_eq_iff)
  ultimately have "is_complete ?r key \<or> group_open b"
    by (auto simp: is_complete_def r group_open_def)
  then show ?thesis using r by auto
qed

lemma receive_packet_open:
  assumes "groups_open r" and "receive_packet B r alive p = Done (r', sent, stop)"
  shows "groups_open r'"
proof -
  have frag: "groups_open (fst (receive_fragment r alive p i t data))" for i t data
  proof -
    let ?key = "seq_val (pkt_sequence_number p)"
    let ?r = "insert_fragment (evict_oldest r ?key) ?key i t (pkt_timestamp p) data"
    obtain b where b: "pr_fragment_buffers ?r ?key = Some b" "is_complete ?r ?key \<or> group_open b"
      and others: "\<forall>k. k \<noteq> ?key \<longrightarrow> pr_fragment_buffers ?r k = pr_fragment_buffers (evict_oldest r ?key) k"
      using insert_fragment_open [OF evict_oldest_open [OF assms(1), of ?key], of ?key i t "pkt_timestamp p" data] by blast
    have open_others: "group_open b'" if "pr_fragment_buffers ?r k = Some b'" "k \<noteq> ?key" for k b'
      using evict_oldest_open [OF assms(1), of ?key] that others by (auto simp: groups_open_def ran_def)
    show ?thesis
    proof (cases "is_complete ?r ?key")
      case True
      then show ?thesis
        using b(1) open_others
        by (auto simp: receive_fragment_def complete_group_def groups_open_def ran_def Let_def split: option.split if_splits)
    next
      case False
      then show ?thesis
        using b open_others by (auto simp: receive_fragment_def groups_open_def ran_def Let_def) (metis option.inject)
    qed
  qed
  obtain d where d: "decode_content B (pkt_content p) = Done d"
    using assms(2) by (auto simp: receive_packet_def)
  show ?thesis
  proof (cases d)
    case (Inr c)
    then show ?thesis
      using assms d frag [of "frag_index c" "total_frags c" "payload c"]
      by (cases c) (auto simp: receive_packet_def)
  qed (use assms d in \<open>auto simp: receive_packet_def\<close>)
qed

interpretation opened: step_system "receiver_step B" groups_open for B
  by unfold_locales
    (auto simp: receiver_step_def split: outcome.splits prod.splits dest: receive_packet_open)

lemma receive_all_state:
  "receive_all B r ps = Done (r', sent, stop) \<Longrightarrow> \<exists>n. r' = foldl (receiver_step B) r (take n ps)"
proof (induction ps arbitrary: r r' sent stop)
  case Nil
  then show ?case by simp
next
  case (Cons p ps)
  obtain alive packet where p: "p = (alive, packet)" by (cases p)
  with Cons.prems obtain r1 sent1 stop1 where step: "receive_packet B r alive packet = Done (r1, sent1, stop1)"
    by auto
  then have r1: "receiver_step B r p = r1" by (simp add: receiver_step_def p)
  show ?case
  proof (cases stop1)
    case True
    then have "r' = foldl (receiver_step B) r (take 1 (p # ps))"
      using Cons.prems p step r1 by simp
    then show ?thesis by blast
  next
    case False
    then obtain sent2 where "receive_all B r1 ps = Done (r', sent2, stop)"
      using Cons.prems p step by auto
    then obtain n where "r' = foldl (receiver_step B) r1 (take n ps)" using Cons.IH by blast
    then have "r' = foldl (receiver_step B) r (take (Suc n) (p # ps))" using r1 by simp
    then show ?thesis by blast
  qed
qed

lemma insert_evict_max:
  "pr_max_fragment_groups (insert_fragment (evict_oldest r key) key i t ts data) = pr_max_fragment_groups r"
  by (simp add: insert_fragment_def evict_oldest_def Let_def)

lemma complete_group_max:
  "pr_max_fragment_groups (fst (complete_group r alive p key)) = pr_max_fragment_groups r"
  by (simp add: complete_group_def Let_def split: option.split)

lemma receive_packet_max:
  assumes "receive_packet B r alive p = Done (r', sent, stop)"
  shows "pr_max_fragment_groups r' = pr_max_fragment_groups r"
proof -
  have frag: "pr_max_fragment_groups (fst (receive_fragment r alive p i t data)) = pr_max_fragment_groups r" for i t data
    by (simp add: receive_fragment_def Let_def insert_evict_max complete_group_max)
  obtain d where d: "decode_content B (pkt_content p) = Done d"
    using assms by (auto simp: receive_packet_def)
  show ?thesis
  proof (cases d)
    case (Inr c)
    then show ?thesis
      using assms d frag [of "frag_index c" "total_frags c" "payload c"]
      by (cases c) (auto simp: receive_packet_def)
  qed (use assms d in \<open>auto simp: receive_packet_def\<close>)
qed

lemma receive_all_max:
  "receive_all B r ps = Done (r', sent, stop) \<Longrightarrow> pr_max_fragment_groups r' = pr_max_fragment_groups r"
proof (induction ps arbitrary: r sent)
  case (Cons p ps)
  then show ?case
    by (cases p) (auto split: if_splits dest!: receive_packet_max)
qed simp

section \<open>Reassembling one send\<close>

text \<open>The packets a fragmented send puts on the wire, by index.\<close>

definition fragment_packet ::
  "buf_ops \<Rightarrow> mani_stream_id \<Rightarrow> sequence_number \<Rightarrow> timestamp \<Rightarrow> bytes list \<Rightarrow> nat \<Rightarrow> packet" where
  "fragment_packet B sid seq ts frags i =
     \<lparr> pkt_stream_id = sid, pkt_sequence_number = seq, pkt_timestamp = ts,
       pkt_content = encode_fragment_content B (of_nat i) (of_nat (length frags)) (frags ! i) \<rparr>"

lemma build_packets_fragment_packets:
  assumes "ss_max_datagram_size s = Some m" and "needs_fragment (Some m) compressed" and "25 < m"
  shows "build_packets B s ts compressed =
     Done (map (fragment_packet B (ss_id s) (ss_sequence_counter s) ts (chunks (m - 25) compressed))
        [0 ..< length (chunks (m - 25) compressed)])"
  unfolding build_packets_fragments [OF assms] map_enumerate fragment_packet_def by (rule refl)

text \<open>The group after the fragments with the indices \<open>I\<close> have arrived.\<close>

definition group_of :: "bytes list \<Rightarrow> timestamp \<Rightarrow> nat set \<Rightarrow> fragment_buffer" where
  "group_of frags ts I =
     \<lparr> fb_total_frags = of_nat (length frags),
       fb_fragments = (\<lambda>j. if unat j \<in> I then Some (frags ! unat j) else None), fb_timestamp = ts \<rparr>"

definition with_group :: "packet_receiver \<Rightarrow> u32 \<Rightarrow> bytes list \<Rightarrow> timestamp \<Rightarrow> nat set \<Rightarrow> packet_receiver" where
  "with_group r key frags ts I =
     (if I = {} then r
      else r\<lparr> pr_fragment_buffers := (pr_fragment_buffers r)(key \<mapsto> group_of frags ts I) \<rparr>)"

lemma map_len_group:
  assumes "I \<subseteq> {..<n}" and "n < 2 ^ 16"
  shows "map_len (fb_fragments (group_of frags ts I)) = card I"
proof -
  have "dom (fb_fragments (group_of frags ts I)) = (of_nat :: nat \<Rightarrow> u16) ` I"
  proof (intro set_eqI iffI)
    fix j assume "j \<in> dom (fb_fragments (group_of frags ts I))"
    then have "unat j \<in> I" by (auto simp: group_of_def split: if_splits)
    then show "j \<in> of_nat ` I" by (metis imageI unat_u16_of_nat_unat)
  next
    fix j :: u16 assume "j \<in> of_nat ` I"
    then obtain i where "i \<in> I" and "j = of_nat i" by blast
    moreover have "unat (of_nat i :: u16) = i"
      using \<open>i \<in> I\<close> assms by (intro unat_of_nat_u16) auto
    ultimately show "j \<in> dom (fb_fragments (group_of frags ts I))" by (simp add: group_of_def dom_def)
  qed
  moreover have "inj_on (of_nat :: nat \<Rightarrow> u16) I"
  proof (rule inj_onI)
    fix i j assume "i \<in> I" "j \<in> I" and "(of_nat i :: u16) = of_nat j"
    then have "unat (of_nat i :: u16) = unat (of_nat j :: u16)" by simp
    moreover have "i < 2 ^ 16" "j < 2 ^ 16" using \<open>i \<in> I\<close> \<open>j \<in> I\<close> assms by auto
    ultimately show "i = j" by (simp only: unat_of_nat_u16)
  qed
  ultimately show ?thesis by (simp add: map_len_def card_image)
qed

lemma with_group_insert:
  assumes I: "I \<subseteq> {..<length frags}" and i: "i < length frags" and n: "length frags < 2 ^ 16"
    and fresh: "pr_fragment_buffers r key = None"
    and room: "map_len (pr_fragment_buffers r) < pr_max_fragment_groups r"
  shows "insert_fragment (evict_oldest (with_group r key frags ts I) key) key (of_nat i)
           (of_nat (length frags)) ts (frags ! i) = with_group r key frags ts (insert i I)"
proof -
  have "unat (of_nat i :: u16) = i" using i n by (intro unat_of_nat_u16) simp
  then have at: "j = of_nat i \<longleftrightarrow> unat j = i" for j :: u16
    by (metis unat_u16_of_nat_unat)
  have upd: "(group_of frags ts I)\<lparr> fb_fragments :=
       (fb_fragments (group_of frags ts I))(of_nat i \<mapsto> frags ! i) \<rparr> = group_of frags ts (insert i I)"
    by (auto simp: group_of_def fun_eq_iff at)
  have new: "\<lparr> fb_total_frags = of_nat (length frags),
       fb_fragments = Map.empty(of_nat i \<mapsto> frags ! i), fb_timestamp = ts \<rparr> = group_of frags ts {i}"
    by (auto simp: group_of_def fun_eq_iff at)
  show ?thesis
  proof (cases "I = {}")
    case True
    then show ?thesis
      using fresh room by (simp add: with_group_def evict_oldest_def insert_fragment_def Let_def new)
  next
    case False
    then show ?thesis
      by (simp add: with_group_def evict_oldest_def insert_fragment_def Let_def upd)
  qed
qed

lemma with_group_complete:
  assumes "I \<subseteq> {..<length frags}" and "I \<noteq> {}" and "length frags < 2 ^ 16"
  shows "is_complete (with_group r key frags ts I) key \<longleftrightarrow> I = {..<length frags}"
proof -
  have "map_len (fb_fragments (group_of frags ts I)) = card I"
    using assms(1,3) by (rule map_len_group)
  moreover have "unat (fb_total_frags (group_of frags ts I)) = length frags"
    using assms(3) by (simp add: group_of_def unat_of_nat)
  moreover have "card I = length frags \<longleftrightarrow> I = {..<length frags}"
    using assms(1) card_subset_eq [of "{..<length frags}" I] by auto
  ultimately show ?thesis using assms(2) by (simp add: is_complete_def with_group_def)
qed

lemma collect_group:
  assumes "set is \<subseteq> I" and "I \<subseteq> {..<2 ^ 16}"
  shows "collect_fragments (fb_fragments (group_of frags ts I)) (map of_nat is) =
     Some (concat (map (\<lambda>i. frags ! i) is))"
  using assms
proof (induction "is")
  case (Cons i "is")
  then have "unat (of_nat i :: u16) = i" by (intro unat_of_nat_u16) auto
  with Cons show ?case by (simp add: group_of_def)
qed simp

lemma assemble_whole_group:
  assumes "length frags < 2 ^ 16"
  shows "assemble_group (group_of frags ts {..<length frags}) = Some (concat frags)"
proof -
  have "unat (fb_total_frags (group_of frags ts {..<length frags})) = length frags"
    using assms by (simp add: group_of_def unat_of_nat)
  moreover have "collect_fragments (fb_fragments (group_of frags ts {..<length frags}))
      (map of_nat [0 ..< length frags]) = Some (concat (map (\<lambda>i. frags ! i) [0 ..< length frags]))"
    using assms by (intro collect_group) auto
  ultimately show ?thesis by (simp add: assemble_group_def map_nth)
qed

lemma receive_all_append:
  assumes "receive_all B r ps = Done (r', sent, False)"
  shows "receive_all B r (ps @ qs) =
     bind_outcome (receive_all B r' qs) (\<lambda>(r, sents, stop). Done (r, sent @ sents, stop))"
  using assms
proof (induction ps arbitrary: r sent)
  case Nil
  then show ?case by (cases "receive_all B r qs") auto
next
  case (Cons p ps)
  obtain alive packet where p: "p = (alive, packet)" by (cases p)
  from Cons.prems p obtain r1 sent1 sent2 where "receive_packet B r alive packet = Done (r1, sent1, False)"
    and "receive_all B r1 ps = Done (r', sent2, False)" and "sent = sent1 @ sent2"
    by (auto split: if_splits)
  with Cons.IH p show ?case by (cases "receive_all B r' qs") auto
qed

context byte_buf
begin

lemma receive_fragment_packet:
  "receive_packet B r alive (fragment_packet B sid seq ts frags i) =
     Done (receive_fragment r alive (fragment_packet B sid seq ts frags i)
             (of_nat i) (of_nat (length frags)) (frags ! i))"
  using decode_encode_content [of "Fragment (of_nat i) (of_nat (length frags)) (frags ! i)"]
  by (simp add: receive_packet_def fragment_packet_def)

lemma receive_partial:
  assumes I: "I \<subseteq> {..<length frags}" and is_lt: "\<forall>e \<in> set es. snd e < length frags"
    and partial: "I \<union> snd ` set es \<noteq> {..<length frags}" and n: "length frags < 2 ^ 16"
    and fresh: "pr_fragment_buffers r (seq_val seq) = None"
    and room: "map_len (pr_fragment_buffers r) < pr_max_fragment_groups r"
  shows "receive_all B (with_group r (seq_val seq) frags ts I)
      (map (\<lambda>(alive, i). (alive, fragment_packet B sid seq ts frags i)) es) =
     Done (with_group r (seq_val seq) frags ts (I \<union> snd ` set es), [], False)"
  using I is_lt partial
proof (induction es arbitrary: I)
  case (Cons e es)
  obtain alive i where e: "e = (alive, i)" by (cases e)
  have i: "i < length frags" using Cons.prems(2) e by simp
  have sub: "insert i I \<subseteq> {..<length frags}" using Cons.prems(1) i by simp
  moreover have "snd ` set es \<subseteq> {..<length frags}" using Cons.prems(2) by auto
  ultimately have "insert i I \<noteq> {..<length frags}" using Cons.prems(3) e by auto
  then have "receive_packet B (with_group r (seq_val seq) frags ts I) alive (fragment_packet B sid seq ts frags i)
      = Done (with_group r (seq_val seq) frags ts (insert i I), [], False)"
    using with_group_insert [OF Cons.prems(1) i n fresh room] with_group_complete [OF sub _ n]
    unfolding receive_fragment_packet
    by (simp add: receive_fragment_def Let_def) (simp add: fragment_packet_def)
  then show ?case using Cons.IH [OF sub] Cons.prems e by simp
qed simp

lemma receive_last:
  assumes I: "I \<subseteq> {..<length frags}" and i: "i < length frags" and n: "length frags < 2 ^ 16"
    and last: "insert i I = {..<length frags}"
    and fresh: "pr_fragment_buffers r (seq_val seq) = None"
    and room: "map_len (pr_fragment_buffers r) < pr_max_fragment_groups r"
  shows "receive_packet B (with_group r (seq_val seq) frags ts I) alive (fragment_packet B sid seq ts frags i) =
     Done (r, route_decompressed r alive sid seq ts (decompress (pr_compression r) (concat frags)))"
proof -
  let ?p = "fragment_packet B sid seq ts frags i"
  have pkt: "pkt_sequence_number ?p = seq" "pkt_stream_id ?p = sid" "pkt_timestamp ?p = ts"
    by (simp_all add: fragment_packet_def)
  have ne: "{..<length frags} \<noteq> {}" using i by auto
  have "with_group r (seq_val seq) frags ts {..<length frags} =
      r\<lparr> pr_fragment_buffers := (pr_fragment_buffers r)(seq_val seq \<mapsto> group_of frags ts {..<length frags}) \<rparr>"
    using ne by (simp add: with_group_def)
  moreover have "r\<lparr> pr_fragment_buffers := (pr_fragment_buffers r)(seq_val seq := None) \<rparr> = r"
    using fresh by (simp add: fun_upd_idem)
  ultimately have "complete_group (with_group r (seq_val seq) frags ts {..<length frags}) alive ?p (seq_val seq) =
      (r, route_decompressed r alive sid seq ts (decompress (pr_compression r) (concat frags)))"
    using assemble_whole_group [OF n, of ts]
    by (simp add: complete_group_def Let_def pkt) (simp add: group_of_def)
  then show ?thesis
    using with_group_insert [OF I i n fresh room] with_group_complete [OF _ ne n] last
    unfolding receive_fragment_packet
    by (simp add: receive_fragment_def Let_def pkt)
qed

text \<open>
  The fragments of one send, in any order and with duplicates before the last missing one:
  exactly one delivery, of the whole payload, and the receiver is as before.
\<close>

lemma reassemble:
  assumes n: "length frags < 2 ^ 16" and es: "\<forall>e \<in> set es. snd e < length frags"
    and last: "i < length frags" "i \<notin> snd ` set es" "insert i (snd ` set es) = {..<length frags}"
    and fresh: "pr_fragment_buffers r (seq_val seq) = None"
    and room: "map_len (pr_fragment_buffers r) < pr_max_fragment_groups r"
  shows "receive_all B r (map (\<lambda>(alive, i). (alive, fragment_packet B sid seq ts frags i)) (es @ [(alive, i)])) =
     Done (r, route_decompressed r alive sid seq ts (decompress (pr_compression r) (concat frags)))"
proof -
  have "snd ` set es \<noteq> {..<length frags}" using last(1,2) by auto
  then have part: "receive_all B r (map (\<lambda>(alive, i). (alive, fragment_packet B sid seq ts frags i)) es) =
     Done (with_group r (seq_val seq) frags ts (snd ` set es), [], False)"
    using receive_partial [of "{}" frags es r seq ts sid] es n fresh room by (simp add: with_group_def)
  have "snd ` set es \<subseteq> {..<length frags}" using es by auto
  then have "receive_packet B (with_group r (seq_val seq) frags ts (snd ` set es)) alive
       (fragment_packet B sid seq ts frags i) =
     Done (r, route_decompressed r alive sid seq ts (decompress (pr_compression r) (concat frags)))"
    using receive_last [OF _ last(1) n last(3) fresh room] by blast
  then show ?thesis
    by (cases "route_decompressed r alive sid seq ts (decompress (pr_compression r) (concat frags))")
      (simp add: receive_all_append [OF part])
qed

lemma receive_single:
  "receive_packet B r alive \<lparr> pkt_stream_id = sid, pkt_sequence_number = seq, pkt_timestamp = ts,
       pkt_content = encode_single_content data \<rparr> =
     Done (r, route_decompressed r alive sid seq ts (decompress (pr_compression r) data))"
  using decode_encode_content [of "Single data"] by (simp add: receive_packet_def)

lemma receive_packet_no_panic: "receive_packet B r alive p \<noteq> Panic"
  using decode_content_no_panic [of "pkt_content p"]
  by (cases "decode_content B (pkt_content p)") (auto simp: receive_packet_def)

end

lemma receive_all_no_panic:
  assumes B: "byte_buf B"
  shows "receive_all B r ps \<noteq> Panic"
proof (induction ps arbitrary: r)
  case (Cons p ps)
  obtain alive q where p: "p = (alive, q)" by (cases p)
  obtain r1 sent1 stop1 where one: "receive_packet B r alive q = Done (r1, sent1, stop1)"
    using byte_buf.receive_packet_no_panic [OF B, of r alive q]
    by (cases "receive_packet B r alive q") auto
  obtain r2 sent2 stop2 where "receive_all B r1 ps = Done (r2, sent2, stop2)"
    using Cons.IH [of r1] by (cases "receive_all B r1 ps") auto
  with p one show ?case by simp
qed simp

section \<open>From one call of send to one delivery\<close>

text \<open>The fragments of one send differ in their index.\<close>

lemma fragment_packet_inj:
  assumes B: "byte_buf B" and "length frags < 2 ^ 16" and "i < length frags" and "j < length frags"
    and eq: "fragment_packet B sid seq ts frags i = fragment_packet B sid seq ts frags j"
  shows "i = j"
proof -
  have "encode_content B (Fragment (of_nat i) (of_nat (length frags)) (frags ! i)) =
      encode_content B (Fragment (of_nat j) (of_nat (length frags)) (frags ! j))"
    using eq by (simp add: fragment_packet_def)
  then have "Fragment (of_nat i) (of_nat (length frags)) (frags ! i) =
      Fragment (of_nat j) (of_nat (length frags)) (frags ! j)"
    using byte_buf.decode_encode_content [OF B] by (metis outcome.inject sum.inject(2))
  then have "unat (of_nat i :: u16) = unat (of_nat j :: u16)" by simp
  with assms(2-4) show ?thesis by (simp add: unat_of_nat_u16)
qed

text \<open>Arrivals drawn from an indexed family of packets are a list of indices.\<close>

lemma arrivals_indices:
  assumes "snd ` set es \<subseteq> f ` {..<n}"
  shows "\<exists>is. es = map (\<lambda>(alive, i). (alive, f i)) is \<and> snd ` set is \<subseteq> {..<n}"
  using assms
proof (induction es)
  case (Cons e es)
  then obtain "is" i where "es = map (\<lambda>(alive, i). (alive, f i)) is" "snd ` set is \<subseteq> {..<n}"
      and "snd e = f i" "i < n" by auto
  then show ?case by (intro exI [of _ "(fst e, i) # is"]) (auto simp: prod_eq_iff)
qed simp

lemma deliver_built_packets:
  assumes B: "byte_buf B"
    and build: "build_packets B s ts compressed = Done packets" and count: "length packets < 2 ^ 16"
    and all: "snd ` set (es @ [(alive, p)]) = set packets" and fresh_p: "p \<notin> snd ` set es"
    and fresh: "pr_fragment_buffers r (seq_val (ss_sequence_counter s)) = None"
    and room: "map_len (pr_fragment_buffers r) < pr_max_fragment_groups r"
  shows "receive_all B r (es @ [(alive, p)]) =
     Done (r, route_decompressed r alive (ss_id s) (ss_sequence_counter s) ts
       (decompress (pr_compression r) compressed))"
proof (cases "needs_fragment (ss_max_datagram_size s) compressed")
  case False
  then have packets: "packets = [\<lparr> pkt_stream_id = ss_id s, pkt_sequence_number = ss_sequence_counter s,
             pkt_timestamp = ts, pkt_content = encode_single_content compressed \<rparr>]"
    using build by (simp add: build_packets_single)
  then have p: "p = \<lparr> pkt_stream_id = ss_id s, pkt_sequence_number = ss_sequence_counter s,
             pkt_timestamp = ts, pkt_content = encode_single_content compressed \<rparr>"
    using all by auto
  have "snd ` set es \<subseteq> {p}" using all packets p by auto
  with fresh_p have "es = []" by (cases es) auto
  with p show ?thesis
    by (cases "route_decompressed r alive (ss_id s) (ss_sequence_counter s) ts (decompress (pr_compression r) compressed)")
      (simp add: byte_buf.receive_single [OF B])
next
  case True
  then obtain m where m: "ss_max_datagram_size s = Some m" "needs_fragment (Some m) compressed"
    by (cases "ss_max_datagram_size s") (auto simp: needs_fragment_def)
  then have big: "25 < m" using build build_packets_panics [OF m] by (cases "m \<le> 25") auto
  define frags where "frags = chunks (m - 25) compressed"
  define f where "f = fragment_packet B (ss_id s) (ss_sequence_counter s) ts frags"
  have packets: "packets = map f [0 ..< length frags]"
    using build_packets_fragment_packets [OF m big, of B ts] build by (simp add: frags_def f_def)
  then have n: "length frags < 2 ^ 16" using count by simp
  have set_packets: "set packets = f ` {..<length frags}" by (auto simp: packets)
  then obtain "is" where es: "es = map (\<lambda>(alive, i). (alive, f i)) is" and "is": "snd ` set is \<subseteq> {..<length frags}"
  proof -
    have "snd ` set es \<subseteq> f ` {..<length frags}" using all set_packets by auto
    then show thesis using arrivals_indices that by blast
  qed
  obtain i where p: "p = f i" and i: "i < length frags" using all set_packets by auto
  have snd_es: "snd ` set es = f ` snd ` set is" by (force simp: es image_iff)
  have i_new: "i \<notin> snd ` set is" using fresh_p p snd_es by blast
  have "insert i (snd ` set is) = {..<length frags}"
  proof
    show "insert i (snd ` set is) \<subseteq> {..<length frags}" using "is" i by simp
    show "{..<length frags} \<subseteq> insert i (snd ` set is)"
    proof
      fix k assume k: "k \<in> {..<length frags}"
      then have "f k \<in> insert (f i) (f ` snd ` set is)"
        using all set_packets p snd_es by auto
      then obtain j where "j \<in> insert i (snd ` set is)" "f k = f j" by blast
      then show "k \<in> insert i (snd ` set is)"
        using fragment_packet_inj [OF B n, of k j] k "is" i unfolding f_def by (metis insert_iff lessThan_iff subsetD)
    qed
  qed
  moreover have "\<forall>e \<in> set is. snd e < length frags" using "is" by auto
  ultimately have "receive_all B r (map (\<lambda>(alive, i). (alive, f i)) (is @ [(alive, i)])) =
     Done (r, route_decompressed r alive (ss_id s) (ss_sequence_counter s) ts
       (decompress (pr_compression r) (concat frags)))"
    using byte_buf.reassemble [OF B n _ i i_new _ fresh room] unfolding f_def by blast
  then show ?thesis using big by (simp add: es p frags_def concat_chunks)
qed

section \<open>Properties\<close>



text \<open>Whatever packets arrive, the receiver task does not panic and never holds more
  incomplete fragment groups than the configured maximum (one, if that is 0).\<close>

lemma fragment_groups_bounded:
  assumes "byte_buf B"
  shows "\<exists>r sent stop. receive_all B (packet_receiver_new n cmp max_groups) arrivals = Done (r, sent, stop) \<and>
     map_len (pr_fragment_buffers r) \<le> max 1 max_groups"
proof -
  obtain r sent stop where run: "receive_all B (packet_receiver_new n cmp max_groups) arrivals = Done (r, sent, stop)"
    using receive_all_no_panic [OF assms, of "packet_receiver_new n cmp max_groups" arrivals]
    by (cases "receive_all B (packet_receiver_new n cmp max_groups) arrivals") auto
  have "groups_bounded (packet_receiver_new n cmp max_groups)"
    by (simp add: groups_bounded_def packet_receiver_new_def)
  then have "groups_bounded r"
    using receive_all_state [OF run] receiver.run_inv by blast
  moreover have "pr_max_fragment_groups r = max_groups"
    using receive_all_max [OF run] by (simp add: packet_receiver_new_def)
  ultimately show ?thesis using run by (auto simp: groups_bounded_def)
qed

text \<open>C20: The fragment table stays small and only holds groups that are still open: whatever
  packets arrived, the task has not panicked and holds at most the configured number of groups
  (one, if that is 0), and every group in it has a fragment, and fewer fragments than its first
  one announced; only a group announced with no fragments at all stays until it is evicted.\<close>

theorem kept_groups_open:
  assumes "byte_buf B"
  shows "\<exists>r sent stop. receive_all B (packet_receiver_new n cmp max_groups) arrivals = Done (r, sent, stop) \<and>
     map_len (pr_fragment_buffers r) \<le> max 1 max_groups \<and>
     (\<forall>key b. pr_fragment_buffers r key = Some b \<longrightarrow> fb_fragments b \<noteq> Map.empty \<and>
       (fb_total_frags b = 0 \<or> map_len (fb_fragments b) < unat (fb_total_frags b)))"
proof -
  obtain r sent stop where run: "receive_all B (packet_receiver_new n cmp max_groups) arrivals = Done (r, sent, stop)"
    and bound: "map_len (pr_fragment_buffers r) \<le> max 1 max_groups"
    using fragment_groups_bounded [OF assms] by blast
  have "groups_open (packet_receiver_new n cmp max_groups)"
    by (simp add: groups_open_def packet_receiver_new_def)
  then have "groups_open r" using receive_all_state [OF run] opened.run_inv by blast
  then have "\<forall>key b. pr_fragment_buffers r key = Some b \<longrightarrow> fb_fragments b \<noteq> Map.empty \<and>
       (fb_total_frags b = 0 \<or> map_len (fb_fragments b) < unat (fb_total_frags b))"
    by (auto simp: groups_open_def group_open_def ran_def)
  with run bound show ?thesis by blast
qed

theorem kept_groups_open_witness:
  "\<exists>r b. receive_all be_ops (packet_receiver_new 1 NoCompression 4)
     [(\<lambda>_. True, fragment_packet be_ops (ManiStreamId 1) (SequenceNumber 3) (Timestamp 0) [[1], [2]] 0)] = Done (r, [], False) \<and>
     pr_fragment_buffers r 3 = Some b \<and> map_len (fb_fragments b) < unat (fb_total_frags b)"
proof -
  let ?r = "packet_receiver_new 1 NoCompression 4"
  have n: "length [[1], [2 :: u8]] < 2 ^ 16"
    and fresh: "pr_fragment_buffers ?r (seq_val (SequenceNumber 3)) = None"
    and room: "map_len (pr_fragment_buffers ?r) < pr_max_fragment_groups ?r"
    by (simp_all add: packet_receiver_new_def)
  have "{} \<union> snd ` set [(\<lambda>_ :: nat. True, 0 :: nat)] \<noteq> {..<length [[1], [2 :: u8]]}" by (auto simp: lessThan_Suc)
  from be.receive_partial [OF _ _ this n fresh room, of "Timestamp 0" "ManiStreamId 1"]
  have run: "receive_all be_ops ?r
      [(\<lambda>_. True, fragment_packet be_ops (ManiStreamId 1) (SequenceNumber 3) (Timestamp 0) [[1], [2]] 0)] =
      Done (with_group ?r 3 [[1], [2]] (Timestamp 0) {0}, [], False)"
    by (simp add: with_group_def)
  moreover have kept: "pr_fragment_buffers (with_group ?r 3 [[1], [2]] (Timestamp 0) {0}) 3 =
      Some (group_of [[1], [2]] (Timestamp 0) {0})"
    by (simp add: with_group_def)
  moreover have "fb_total_frags (group_of [[1], [2]] (Timestamp 0) {0}) \<noteq> 0" by (simp add: group_of_def)
  moreover have "map_len (fb_fragments (group_of [[1], [2]] (Timestamp 0) {0})) <
      unat (fb_total_frags (group_of [[1], [2]] (Timestamp 0) {0}))"
    using run kept calculation(3) kept_groups_open [OF byte_buf_be_ops, of 1 NoCompression 4
      "[(\<lambda>_. True, fragment_packet be_ops (ManiStreamId 1) (SequenceNumber 3) (Timestamp 0) [[1], [2]] 0)]"]
    by (fastforce simp del: receive_all.simps)
  ultimately show ?thesis by blast
qed

end
