(* ===== verification/Reorder_Spec.thy ===== *)
theory Reorder_Spec
  imports Packet
begin

text \<open>
  What the reliable receive stream needs of its reorder buffer: a window of positions from
  the next one to deliver, an insertion, and a drain that delivers the run at the front.
  The client's facts (in-order delivery, recovery of a gap) are proved here from the
  contract alone; the assembler satisfies it in \<open>Assembler\<close>.
\<close>

section \<open>Feeding packets through a buffer\<close>

text \<open>
  Every arrival is pushed, the gaps are noted, and whatever has become ready is delivered.
  The result has the gaps seen after each arrival and all that was delivered.
\<close>

fun deliver_all ::
  "('b \<Rightarrow> sequence_number \<Rightarrow> packet \<Rightarrow> 'b outcome) \<Rightarrow> ('b \<Rightarrow> sequence_number list outcome) \<Rightarrow>
   ('b \<Rightarrow> ('b \<times> packet list) outcome) \<Rightarrow> 'b \<Rightarrow> packet list \<Rightarrow>
   ('b \<times> sequence_number list list \<times> packet list) outcome" where
  "deliver_all push missing drain b [] = Done (b, [], [])"
| "deliver_all push missing drain b (p # ps) =
     bind_outcome (push b (pkt_sequence_number p) p) (\<lambda>b.
     bind_outcome (missing b) (\<lambda>gap.
     bind_outcome (drain b) (\<lambda>(b, out).
     bind_outcome (deliver_all push missing drain b ps) (\<lambda>(b, gaps, outs).
       Done (b, gap # gaps, out @ outs)))))"

abbreviation seqs_of :: "packet list \<Rightarrow> nat list" where
  "seqs_of ps \<equiv> map (\<lambda>p. seq_nat (pkt_sequence_number p)) ps"

section \<open>The contract\<close>

locale reorder_buffer =
  fixes nxt :: "'b \<Rightarrow> nat"
    and wend :: "'b \<Rightarrow> nat"
    and cap :: "'b \<Rightarrow> nat"
    and contents :: "'b \<Rightarrow> nat \<Rightarrow> packet option"
    and valid :: "'b \<Rightarrow> bool"
    and push :: "'b \<Rightarrow> sequence_number \<Rightarrow> packet \<Rightarrow> 'b outcome"
    and missing :: "'b \<Rightarrow> sequence_number list outcome"
    and drain :: "'b \<Rightarrow> ('b \<times> packet list) outcome"
  assumes window: "nxt b \<le> wend b"
    and contents_window: "contents b n = Some p \<Longrightarrow> nxt b \<le> n \<and> n < wend b"
    and push_inside:
      "valid b \<Longrightarrow> wend b - nxt b < cap b \<Longrightarrow> nxt b \<le> seq_nat s \<Longrightarrow> seq_nat s < wend b \<Longrightarrow>
       \<exists>b'. push b s p = Done b' \<and> valid b' \<and> nxt b' = nxt b \<and> wend b' = wend b \<and> cap b' = cap b \<and>
         contents b' =
           (if contents b (seq_nat s) = None then (contents b)(seq_nat s \<mapsto> p) else contents b)"
    and push_empty:
      "valid b \<Longrightarrow> wend b = nxt b \<Longrightarrow> 0 < cap b \<Longrightarrow> nxt b \<le> seq_nat s \<Longrightarrow> seq_nat s + 1 < 2 ^ 32 \<Longrightarrow>
       \<exists>b'. push b s p = Done b' \<and> valid b' \<and> nxt b' = nxt b \<and> wend b' = seq_nat s + 1 \<and>
         cap b' = cap b \<and> contents b' = (contents b)(seq_nat s \<mapsto> p)"
    and missing:
      "valid b \<Longrightarrow>
       \<exists>gap. missing b = Done gap \<and> map seq_nat gap = filter (\<lambda>n. contents b n = None) [nxt b ..< wend b]"
    and drain:
      "valid b \<Longrightarrow>
       \<exists>b' out. drain b = Done (b', out) \<and> valid b' \<and> nxt b \<le> nxt b' \<and> wend b' = wend b \<and>
         cap b' = cap b \<and> map Some out = map (contents b) [nxt b ..< nxt b'] \<and>
         contents b' = (\<lambda>n. if n < nxt b' then None else contents b n) \<and> contents b' (nxt b') = None"
begin

text \<open>Every packet sits at its own sequence number.\<close>

definition placed :: "'b \<Rightarrow> bool" where
  "placed b \<longleftrightarrow> (\<forall>n p. contents b n = Some p \<longrightarrow> seq_nat (pkt_sequence_number p) = n)"

lemma drain_placed:
  assumes "valid b" and "placed b"
  shows "\<exists>b' out. drain b = Done (b', out) \<and> valid b' \<and> placed b' \<and> nxt b \<le> nxt b' \<and>
     wend b' = wend b \<and> cap b' = cap b \<and> seqs_of out = [nxt b ..< nxt b'] \<and>
     contents b' = (\<lambda>n. if n < nxt b' then None else contents b n) \<and> contents b' (nxt b') = None \<and>
     (\<forall>n. nxt b \<le> n \<and> n < nxt b' \<longrightarrow> contents b n \<noteq> None) \<and> set out \<subseteq> ran (contents b)"
proof -
  obtain b' out where d: "drain b = Done (b', out)" "valid b'" "nxt b \<le> nxt b'" "wend b' = wend b"
      "cap b' = cap b" "contents b' (nxt b') = None"
    and out: "map Some out = map (contents b) [nxt b ..< nxt b']"
    and rest: "contents b' = (\<lambda>n. if n < nxt b' then None else contents b n)"
    using drain [OF assms(1)] by blast
  have len: "length out = nxt b' - nxt b"
    using arg_cong [OF out, of length] by simp
  have slot: "contents b (nxt b + i) = Some (out ! i)" if "i < length out" for i
  proof -
    have "map Some out ! i = map (contents b) [nxt b ..< nxt b'] ! i" by (simp only: out)
    then show ?thesis using that len by simp
  qed
  then have "seqs_of out = [nxt b ..< nxt b']"
    using len assms(2) by (intro nth_equalityI) (simp_all add: placed_def)
  moreover have "contents b n \<noteq> None" if "nxt b \<le> n" "n < nxt b'" for n
    using slot [of "n - nxt b"] that len by simp
  moreover have "placed b'" using assms(2) by (auto simp: placed_def rest)
  moreover have "set out \<subseteq> ran (contents b)"
    using slot by (fastforce simp: in_set_conv_nth ran_def)
  ultimately show ?thesis using d rest by blast
qed

text \<open>The next packet in order goes straight through an empty buffer.\<close>

lemma deliver_next:
  assumes "valid b" and "wend b = nxt b" and "0 < cap b"
    and "seq_nat (pkt_sequence_number p) = nxt b" and "nxt b + 1 < 2 ^ 32"
  shows "\<exists>b'. push b (pkt_sequence_number p) p = Done b' \<and> missing b' = Done [] \<and>
     (\<exists>b''. drain b' = Done (b'', [p]) \<and> valid b'' \<and> nxt b'' = nxt b + 1 \<and> wend b'' = nxt b'' \<and>
       cap b'' = cap b)"
proof -
  obtain b' where b': "push b (pkt_sequence_number p) p = Done b'" "valid b'" "nxt b' = nxt b"
      "wend b' = nxt b + 1" "cap b' = cap b" "contents b' = (contents b)(nxt b \<mapsto> p)"
    using push_empty [of b "pkt_sequence_number p" p] assms by auto
  obtain b'' out where b'': "drain b' = Done (b'', out)" "valid b''" "nxt b' \<le> nxt b''"
      "wend b'' = wend b'" "cap b'' = cap b'" "map Some out = map (contents b') [nxt b' ..< nxt b'']"
      "contents b'' = (\<lambda>n. if n < nxt b'' then None else contents b' n)" "contents b'' (nxt b'') = None"
    using drain [OF b'(2)] by blast
  have "nxt b'' \<noteq> nxt b" using b'' b' by (auto simp: fun_eq_iff)
  moreover have "nxt b'' \<le> nxt b + 1" using window [of b''] b'' b' by simp
  ultimately have n: "nxt b'' = nxt b + 1" using b'' b' by simp
  then have "out = [p]" using b'' b' by (simp add: map_eq_Cons_conv)
  moreover obtain gap where "missing b' = Done gap" "map seq_nat gap = filter (\<lambda>n. contents b' n = None) [nxt b' ..< wend b']"
    using missing [OF b'(2)] by blast
  then have "missing b' = Done []" using b' by simp
  ultimately show ?thesis using b' b'' n by auto
qed

text \<open>In-order arrivals are delivered as they come, each at once.\<close>

lemma deliver_in_order:
  assumes "valid b" and "wend b = nxt b" and "0 < cap b"
    and "seqs_of ps = [nxt b ..< nxt b + length ps]" and "nxt b + length ps < 2 ^ 32"
  shows "\<exists>b'. deliver_all push missing drain b ps = Done (b', replicate (length ps) [], ps) \<and> valid b' \<and>
     nxt b' = nxt b + length ps \<and> wend b' = nxt b'"
  using assms
proof (induction ps arbitrary: b)
  case Nil
  then show ?case by simp
next
  case (Cons p ps)
  have p: "seq_nat (pkt_sequence_number p) = nxt b"
    and ps: "seqs_of ps = [Suc (nxt b) ..< Suc (nxt b) + length ps]"
  proof -
    have "[nxt b ..< nxt b + length (p # ps)] = nxt b # [Suc (nxt b) ..< Suc (nxt b) + length ps]"
      by (simp add: upt_conv_Cons del: upt_Suc)
    with Cons.prems(4) show "seq_nat (pkt_sequence_number p) = nxt b"
      and "seqs_of ps = [Suc (nxt b) ..< Suc (nxt b) + length ps]"
      by (simp_all del: upt_Suc)
  qed
  obtain b' b'' where "push b (pkt_sequence_number p) p = Done b'" "missing b' = Done []" "drain b' = Done (b'', [p])"
    and b'': "valid b''" "nxt b'' = nxt b + 1" "wend b'' = nxt b''" "cap b'' = cap b"
    using deliver_next [OF Cons.prems(1-3) p] Cons.prems(5) by auto
  moreover obtain b3 where "deliver_all push missing drain b'' ps = Done (b3, replicate (length ps) [], ps)" "valid b3"
      "nxt b3 = nxt b'' + length ps" "wend b3 = nxt b3"
    using Cons.IH [OF b''(1) b''(3)] Cons.prems(3,5) b'' ps by auto
  ultimately show ?case by simp
qed

text \<open>
  The missing positions of the window, in any order and once each, close the gap: what
  comes out is the whole window in order.
\<close>

lemma deliver_fills_gap:
  assumes "valid b" and "placed b" and "wend b - nxt b < cap b"
    and "contents b (nxt b) = None"
    and "distinct (seqs_of ps)"
    and "set (seqs_of ps) = {n. nxt b \<le> n \<and> n < wend b \<and> contents b n = None}"
  shows "\<exists>b' gaps out. deliver_all push missing drain b ps = Done (b', gaps, out) \<and> valid b' \<and>
     seqs_of out = [nxt b ..< wend b] \<and> nxt b' = wend b \<and> wend b' = wend b \<and> cap b' = cap b \<and>
     set out \<subseteq> ran (contents b) \<union> set ps"
  using assms
proof (induction ps arbitrary: b)
  case Nil
  then have "\<not> nxt b < wend b" by auto
  then have "nxt b = wend b" using window [of b] by simp
  with Nil show ?case by simp
next
  case (Cons p ps)
  let ?s = "pkt_sequence_number p"
  have s: "nxt b \<le> seq_nat ?s" "seq_nat ?s < wend b" "contents b (seq_nat ?s) = None"
    using Cons.prems(6) by auto
  obtain b1 where b1: "push b ?s p = Done b1" "valid b1" "nxt b1 = nxt b" "wend b1 = wend b"
      "cap b1 = cap b" "contents b1 = (contents b)(seq_nat ?s \<mapsto> p)"
    using push_inside [OF Cons.prems(1,3) s(1,2), of p] s(3) by auto
  obtain gap where gap: "missing b1 = Done gap" using missing [OF b1(2)] by blast
  have "placed b1" using Cons.prems(2) b1(6) by (auto simp: placed_def)
  then obtain b2 out where b2: "drain b1 = Done (b2, out)" "valid b2" "placed b2" "nxt b1 \<le> nxt b2"
      "wend b2 = wend b1" "cap b2 = cap b1" "seqs_of out = [nxt b1 ..< nxt b2]"
      "contents b2 = (\<lambda>n. if n < nxt b2 then None else contents b1 n)" "contents b2 (nxt b2) = None"
      "\<forall>n. nxt b1 \<le> n \<and> n < nxt b2 \<longrightarrow> contents b1 n \<noteq> None" "set out \<subseteq> ran (contents b1)"
    using drain_placed [OF b1(2)] by blast
  then have none: "contents b n \<noteq> None \<or> n = seq_nat ?s" if "nxt b \<le> n" "n < nxt b2" for n
    using that b1 by (metis fun_upd_other)
  have "set (seqs_of ps) = set (seqs_of (p # ps)) - {seq_nat ?s}"
    using Cons.prems(5) by auto
  also have "\<dots> = {n. nxt b \<le> n \<and> n < wend b \<and> contents b n = None \<and> n \<noteq> seq_nat ?s}"
    unfolding Cons.prems(6) by auto
  also have "\<dots> = {n. nxt b2 \<le> n \<and> n < wend b2 \<and> contents b2 n = None}"
    using b1 b2 none by (auto simp: not_less)
  finally have "set (seqs_of ps) = {n. nxt b2 \<le> n \<and> n < wend b2 \<and> contents b2 n = None}" .
  moreover have "wend b2 - nxt b2 < cap b2" using Cons.prems(3) b1 b2 by linarith
  ultimately obtain b3 gaps out' where b3: "deliver_all push missing drain b2 ps = Done (b3, gaps, out')" "valid b3"
      "seqs_of out' = [nxt b2 ..< wend b2]" "nxt b3 = wend b2" "wend b3 = wend b2" "cap b3 = cap b2"
      "set out' \<subseteq> ran (contents b2) \<union> set ps"
    using Cons.IH [of b2] b2 Cons.prems(5) by auto
  have "[nxt b ..< nxt b2] @ [nxt b2 ..< wend b] = [nxt b ..< wend b]"
    using b1 b2 window [of b2] by (metis upt_add_eq_append le_Suc_ex)
  moreover have "ran (contents b2) \<subseteq> ran (contents b1)"
    using b2(8) by (auto simp: ran_def split: if_splits)
  moreover have "ran (contents b1) \<subseteq> insert p (ran (contents b))"
    using b1(6) s(3) by (simp add: ran_map_upd)
  ultimately have "seqs_of (out @ out') = [nxt b ..< wend b]"
    and "set (out @ out') \<subseteq> ran (contents b) \<union> set (p # ps)"
    using b1 b2 b3 by auto
  with b1 gap b2 b3 show ?case by auto
qed

text \<open>
  A packet ahead of its turn, then the packets before it in any order: the first gap that is
  noted is exactly these, and all of them come out, in order and once each.
\<close>

lemma deliver_ahead:
  assumes "valid b" and empty: "contents b = Map.empty" "wend b = nxt b"
    and ahead: "nxt b \<le> seq_nat (pkt_sequence_number p)" "seq_nat (pkt_sequence_number p) + 1 < 2 ^ 32"
    and room: "seq_nat (pkt_sequence_number p) + 1 - nxt b < cap b"
    and rest: "distinct (seqs_of ps)" "set (seqs_of ps) = {nxt b ..< seq_nat (pkt_sequence_number p)}"
  shows "\<exists>b' gap gaps out. deliver_all push missing drain b (p # ps) = Done (b', gap # gaps, out) \<and> valid b' \<and>
     map seq_nat gap = [nxt b ..< seq_nat (pkt_sequence_number p)] \<and>
     seqs_of out = [nxt b ..< seq_nat (pkt_sequence_number p) + 1] \<and>
     nxt b' = seq_nat (pkt_sequence_number p) + 1 \<and> wend b' = nxt b' \<and> cap b' = cap b \<and>
     set out \<subseteq> set (p # ps)"
proof (cases "seq_nat (pkt_sequence_number p) = nxt b")
  case True
  then have "ps = []" using rest(2) by simp
  with True deliver_next [of b p] assms show ?thesis by auto
next
  case False
  let ?n = "seq_nat (pkt_sequence_number p)"
  obtain b1 where b1: "push b (pkt_sequence_number p) p = Done b1" "valid b1" "nxt b1 = nxt b"
      "wend b1 = ?n + 1" "cap b1 = cap b" "contents b1 = [?n \<mapsto> p]"
    using push_empty [OF assms(1) empty(2) _ ahead] room empty(1) by auto
  have placed: "placed b1" by (simp add: placed_def b1)
  obtain gap where gap: "missing b1 = Done gap" "map seq_nat gap = filter (\<lambda>n. contents b1 n = None) [nxt b1 ..< wend b1]"
    using missing [OF b1(2)] by blast
  have "filter (\<lambda>n. contents b1 n = None) [nxt b1 ..< wend b1] = [nxt b ..< ?n]"
    using b1 ahead(1) by (simp add: filter_id_conv)
  obtain b2 out where b2: "drain b1 = Done (b2, out)" "valid b2" "placed b2" "nxt b1 \<le> nxt b2"
      "wend b2 = wend b1" "cap b2 = cap b1" "seqs_of out = [nxt b1 ..< nxt b2]"
      "contents b2 = (\<lambda>n. if n < nxt b2 then None else contents b1 n)"
      "\<forall>n. nxt b1 \<le> n \<and> n < nxt b2 \<longrightarrow> contents b1 n \<noteq> None"
    using drain_placed [OF b1(2) placed] by blast
  have n2: "nxt b2 = nxt b" using b2(4,9) b1 False by (metis fun_upd_other le_neq_implies_less order_refl)
  then have out: "out = []" and c2: "contents b2 = [?n \<mapsto> p]"
    using b1 b2 ahead(1) by (auto simp: fun_eq_iff)
  have "set (seqs_of ps) = {n. nxt b2 \<le> n \<and> n < wend b2 \<and> contents b2 n = None}"
    unfolding rest(2) using n2 c2 b1 b2 by auto
  then obtain b3 gaps out' where "deliver_all push missing drain b2 ps = Done (b3, gaps, out')" "valid b3"
      "seqs_of out' = [nxt b ..< ?n + 1]" "nxt b3 = ?n + 1" "wend b3 = ?n + 1" "cap b3 = cap b2"
      "set out' \<subseteq> ran [?n \<mapsto> p] \<union> set ps"
    using deliver_fills_gap [OF b2(2,3) _ _ rest(1)] n2 c2 b1 b2 room False by auto
  moreover have "ran [?n \<mapsto> p] = {p}" by simp
  ultimately show ?thesis
    using b1 b2 out gap \<open>filter _ _ = _\<close> by auto
qed

end

end
