(* ===== verification/Assembler.thy ===== *)
theory Assembler
  imports Reorder_Spec
begin

text \<open>
  The reorder buffer of the reliable receiver, \<^verbatim>\<open>src/src/mani/transfer/assembler.rs\<close>.
  \<open>asm_packets\<close> holds one slot per sequence number from the cursor on.  The first part
  translates the code; the second relates it to the map from sequence numbers to packets
  that the buffer is meant to be, and says exactly when a push agrees with that map.
\<close>

section \<open>Operations\<close>

datatype assembler_error = RetransmissionBufferOverflow

datatype assembler_packet = AsmPayload packet | AsmMissing

record assembler =
  asm_cursor :: sequence_number
  asm_packets :: "assembler_packet list"
  asm_waker :: bool
  asm_max_retransmission_buffer_size :: nat

definition assembler_new :: "nat \<Rightarrow> assembler" where
  "assembler_new max_size =
     \<lparr> asm_cursor = SequenceNumber 0, asm_packets = [], asm_waker = False,
       asm_max_retransmission_buffer_size = max_size \<rparr>"

definition assembler_index :: "bool \<Rightarrow> assembler \<Rightarrow> sequence_number \<Rightarrow> nat option outcome" where
  "assembler_index oc a sequence_number =
     (if sequence_number < asm_cursor a then Done None
      else bind_outcome (seq_sub oc sequence_number (asm_cursor a)) (\<lambda>d.
        let index = unat (seq_val d)
        in Done (if length (asm_packets a) \<le> index then None else Some index)))"

text \<open>\<open>push\<close> returns the new state with the \<open>Result\<close>; \<open>waker.take()\<close> clears the waker.\<close>

definition assembler_push ::
  "bool \<Rightarrow> assembler \<Rightarrow> sequence_number \<Rightarrow> packet \<Rightarrow> (assembler \<times> (assembler_error + unit)) outcome" where
  "assembler_push oc a sequence_number pl =
     (if asm_max_retransmission_buffer_size a \<le> length (asm_packets a)
      then Done (a, Inl RetransmissionBufferOverflow)
      else
        bind_outcome (assembler_index oc a sequence_number) (\<lambda>i.
        bind_outcome
          (case i of
             Some index \<Rightarrow>
               Done (if asm_packets a ! index = AsmMissing
                     then a\<lparr> asm_packets := (asm_packets a)[index := AsmPayload pl] \<rparr>
                     else a)
           | None \<Rightarrow>
               bind_outcome (seq_sub oc sequence_number (asm_cursor a)) (\<lambda>missing_packets.
                 Done (a\<lparr> asm_packets :=
                   asm_packets a @ replicate (unat (seq_val missing_packets)) AsmMissing
                     @ [AsmPayload pl] \<rparr>)))
          (\<lambda>a. Done (a\<lparr> asm_waker := False \<rparr>, Inr ()))))"

text \<open>The loop of \<open>read_ordered\<close> over the cursor and the front of the deque.\<close>

fun read_ordered_loop ::
  "bool \<Rightarrow> sequence_number \<Rightarrow> assembler_packet list \<Rightarrow>
   (packet list \<times> sequence_number \<times> assembler_packet list) outcome" where
  "read_ordered_loop oc cursor [] = Done ([], cursor, [])"
| "read_ordered_loop oc cursor (AsmPayload p # ps) =
     bind_outcome (seq_add oc cursor (SequenceNumber 1)) (\<lambda>cursor.
     bind_outcome (read_ordered_loop oc cursor ps) (\<lambda>(payloads, cursor, ps).
       Done (p # payloads, cursor, ps)))"
| "read_ordered_loop oc cursor (AsmMissing # ps) = Done ([], cursor, AsmMissing # ps)"

definition assembler_read_ordered :: "bool \<Rightarrow> assembler \<Rightarrow> (assembler \<times> packet list) outcome" where
  "assembler_read_ordered oc a =
     bind_outcome (read_ordered_loop oc (asm_cursor a) (asm_packets a)) (\<lambda>(payloads, cursor, ps).
       Done (a\<lparr> asm_cursor := cursor, asm_packets := ps \<rparr>, payloads))"

text \<open>The iterator chain of \<open>missing_sequence_numbers\<close>, with the index it enumerates.\<close>

fun missing_from ::
  "bool \<Rightarrow> sequence_number \<Rightarrow> nat \<Rightarrow> assembler_packet list \<Rightarrow> sequence_number list outcome" where
  "missing_from oc cursor index [] = Done []"
| "missing_from oc cursor index (AsmPayload p # ps) = missing_from oc cursor (Suc index) ps"
| "missing_from oc cursor index (AsmMissing # ps) =
     bind_outcome (seq_add oc cursor (SequenceNumber (of_nat index))) (\<lambda>s.
     bind_outcome (missing_from oc cursor (Suc index) ps) (\<lambda>rest. Done (s # rest)))"

definition assembler_missing_sequence_numbers :: "bool \<Rightarrow> assembler \<Rightarrow> sequence_number list outcome" where
  "assembler_missing_sequence_numbers oc a = missing_from oc (asm_cursor a) 0 (asm_packets a)"

section \<open>The buffer as a map\<close>

text \<open>Positions in the stream are natural numbers here: slot \<open>i\<close> stands for the sequence
  number \<open>i\<close> after the cursor.\<close>

definition asm_next :: "assembler \<Rightarrow> nat" where
  "asm_next a = seq_nat (asm_cursor a)"

definition asm_end :: "assembler \<Rightarrow> nat" where
  "asm_end a = asm_next a + length (asm_packets a)"

fun slot_payload :: "assembler_packet \<Rightarrow> packet option" where
  "slot_payload (AsmPayload p) = Some p"
| "slot_payload AsmMissing = None"

definition asm_contents :: "assembler \<Rightarrow> nat \<Rightarrow> packet option" where
  "asm_contents a n =
     (if asm_next a \<le> n \<and> n < asm_end a then slot_payload (asm_packets a ! (n - asm_next a)) else None)"

text \<open>Every packet sits at its own sequence number, and no position wraps.\<close>

definition asm_placed :: "assembler \<Rightarrow> bool" where
  "asm_placed a \<longleftrightarrow>
     (\<forall>n p. asm_contents a n = Some p \<longrightarrow> seq_nat (pkt_sequence_number p) = n)"

definition asm_in_range :: "assembler \<Rightarrow> bool" where
  "asm_in_range a \<longleftrightarrow> asm_end a < 2 ^ 32"

definition asm_full :: "assembler \<Rightarrow> bool" where
  "asm_full a \<longleftrightarrow> asm_max_retransmission_buffer_size a \<le> length (asm_packets a)"

lemma slot_payload_None [simp]: "slot_payload s = None \<longleftrightarrow> s = AsmMissing"
  by (cases s) auto

lemma slot_payload_Some [simp]: "slot_payload s = Some p \<longleftrightarrow> s = AsmPayload p"
  by (cases s) auto

section \<open>Push\<close>

lemma assembler_index_eq:
  "assembler_index oc a s =
     Done (if asm_next a \<le> seq_nat s \<and> seq_nat s < asm_end a
           then Some (seq_nat s - asm_next a) else None)"
proof (cases "s < asm_cursor a")
  case True
  then show ?thesis
    by (simp add: assembler_index_def asm_next_def seq_less_nat)
next
  case False
  then have le: "asm_cursor a \<le> s" by simp
  then obtain d where "seq_sub oc s (asm_cursor a) = Done d"
    and "unat (seq_val d) = seq_nat s - seq_nat (asm_cursor a)"
    using seq_sub_Done [of "asm_cursor a" s oc] by (auto simp: seq_nat_def)
  with False le show ?thesis
    by (auto simp: assembler_index_def asm_next_def asm_end_def seq_le_nat Let_def)
qed

lemma assembler_push_full: "asm_full a \<Longrightarrow> assembler_push oc a s p = Done (a, Inl RetransmissionBufferOverflow)"
  by (simp add: assembler_push_def asm_full_def)

lemma assembler_push_below:
  assumes "\<not> asm_full a" and "seq_nat s < asm_next a"
  shows "assembler_push True a s p = Panic"
  using assms
  by (simp add: assembler_push_def asm_full_def assembler_index_eq seq_sub_def asm_next_def
      seq_nat_def word_less_nat_alt)

lemma assembler_push_inside:
  assumes "\<not> asm_full a" and "asm_next a \<le> seq_nat s" and "seq_nat s < asm_end a"
  shows "assembler_push oc a s p =
     Done ((if asm_contents a (seq_nat s) = None
            then a\<lparr> asm_packets := (asm_packets a)[seq_nat s - asm_next a := AsmPayload p] \<rparr>
            else a)\<lparr> asm_waker := False \<rparr>, Inr ())"
  using assms
  by (simp add: assembler_push_def asm_full_def assembler_index_eq asm_contents_def)

lemma assembler_push_beyond:
  assumes "\<not> asm_full a" and "asm_end a \<le> seq_nat s"
  shows "assembler_push oc a s p =
     Done (a\<lparr> asm_packets := asm_packets a @ replicate (seq_nat s - asm_next a) AsmMissing @ [AsmPayload p],
             asm_waker := False \<rparr>, Inr ())"
proof -
  have "asm_cursor a \<le> s" using assms(2) by (simp add: asm_end_def asm_next_def seq_le_nat)
  then obtain d where "seq_sub oc s (asm_cursor a) = Done d"
    and "unat (seq_val d) = seq_nat s - asm_next a"
    using seq_sub_Done [of "asm_cursor a" s oc] by (auto simp: seq_nat_def asm_next_def)
  with assms show ?thesis
    by (simp add: assembler_push_def asm_full_def assembler_index_eq)
qed

lemmas assembler_push_cases =
  assembler_push_full assembler_push_inside assembler_push_beyond

text \<open>A push inside the window is an insertion that keeps an earlier arrival.\<close>

lemma assembler_push_inside_contents:
  assumes "\<not> asm_full a" and "asm_next a \<le> seq_nat s" and "seq_nat s < asm_end a"
  shows "\<exists>a'. assembler_push oc a s p = Done (a', Inr ()) \<and>
     asm_next a' = asm_next a \<and> asm_end a' = asm_end a \<and>
     asm_contents a' =
       (if asm_contents a (seq_nat s) = None then (asm_contents a)(seq_nat s \<mapsto> p) else asm_contents a)"
proof -
  have "seq_nat s - asm_next a < length (asm_packets a)"
    using assms(2,3) by (simp add: asm_end_def)
  with assms show ?thesis
    by (auto simp: assembler_push_inside asm_next_def asm_end_def asm_contents_def fun_eq_iff
        nth_list_update)
qed

text \<open>A push beyond the window lands \<open>length (asm_packets a)\<close> positions too far.\<close>

lemma assembler_push_beyond_contents:
  assumes "\<not> asm_full a" and "asm_end a \<le> seq_nat s"
  shows "\<exists>a'. assembler_push oc a s p = Done (a', Inr ()) \<and>
     asm_next a' = asm_next a \<and>
     asm_end a' = seq_nat s + length (asm_packets a) + 1 \<and>
     asm_contents a' = (asm_contents a)(seq_nat s + length (asm_packets a) \<mapsto> p)"
proof -
  have "asm_next a \<le> seq_nat s" using assms(2) by (simp add: asm_end_def)
  then show ?thesis
    by (auto simp: assembler_push_beyond [OF assms] asm_next_def asm_end_def asm_contents_def
        fun_eq_iff nth_append)
qed

section \<open>Reading in order\<close>

text \<open>Nothing is ready at the cursor.\<close>

definition asm_blocked :: "assembler \<Rightarrow> bool" where
  "asm_blocked a \<longleftrightarrow> asm_contents a (asm_next a) = None"

lemma asm_blocked_iff: "asm_blocked a \<longleftrightarrow> asm_packets a = [] \<or> hd (asm_packets a) = AsmMissing"
  by (cases "asm_packets a") (auto simp: asm_blocked_def asm_contents_def asm_end_def)

lemma read_ordered_loop_spec:
  assumes "seq_nat cursor + length ps < 2 ^ 32"
  shows "\<exists>payloads cursor' ps'. read_ordered_loop oc cursor ps = Done (payloads, cursor', ps') \<and>
     ps = map AsmPayload payloads @ ps' \<and> seq_nat cursor' = seq_nat cursor + length payloads \<and>
     (ps' = [] \<or> hd ps' = AsmMissing)"
  using assms
proof (induction oc cursor ps rule: read_ordered_loop.induct)
  case (2 oc cursor p ps)
  have one: "seq_nat (SequenceNumber 1) = 1" by (simp add: seq_nat_def)
  with 2(2) obtain c where c: "seq_add oc cursor (SequenceNumber 1) = Done c"
    and "seq_nat c = seq_nat cursor + 1"
    using seq_add_Done [of cursor "SequenceNumber 1" oc] by auto
  with 2(1) [of c] 2(2) show ?case by fastforce
qed auto

lemma assembler_read_ordered_split:
  assumes "asm_in_range a"
  shows "\<exists>a' payloads. assembler_read_ordered oc a = Done (a', payloads) \<and>
     asm_packets a = map AsmPayload payloads @ asm_packets a' \<and>
     asm_next a' = asm_next a + length payloads \<and> asm_blocked a' \<and>
     asm_max_retransmission_buffer_size a' = asm_max_retransmission_buffer_size a"
  using read_ordered_loop_spec [of "asm_cursor a" "asm_packets a" oc] assms
  by (auto simp: assembler_read_ordered_def asm_in_range_def asm_end_def asm_next_def asm_blocked_iff)

text \<open>What is delivered is the run of packets from the old cursor to the new one, and the
  rest of the buffer is untouched.\<close>

lemma assembler_read_ordered_spec:
  assumes "asm_in_range a"
  shows "\<exists>a' payloads. assembler_read_ordered oc a = Done (a', payloads) \<and>
     map Some payloads = map (asm_contents a) [asm_next a ..< asm_next a'] \<and>
     asm_next a \<le> asm_next a' \<and> asm_end a' = asm_end a \<and> asm_blocked a' \<and>
     asm_contents a' = (\<lambda>n. if n < asm_next a' then None else asm_contents a n)"
proof -
  obtain a' payloads where
    read: "assembler_read_ordered oc a = Done (a', payloads)"
    and split: "asm_packets a = map AsmPayload payloads @ asm_packets a'"
    and nxt: "asm_next a' = asm_next a + length payloads"
    and blocked: "asm_blocked a'"
    using assembler_read_ordered_split [OF assms] by blast
  have fin: "asm_end a' = asm_end a"
    using split nxt by (simp add: asm_end_def)
  have "map Some payloads = map (asm_contents a) [asm_next a ..< asm_next a']"
    by (rule nth_equalityI) (auto simp: nxt asm_contents_def asm_end_def split nth_append)
  moreover have "asm_contents a' n = (if n < asm_next a' then None else asm_contents a n)" for n
    using nxt fin by (auto simp: asm_contents_def split nth_append)
  ultimately show ?thesis
    using read nxt fin blocked by (auto simp: fun_eq_iff)
qed

section \<open>Missing sequence numbers\<close>

lemma missing_from_spec:
  assumes "seq_nat cursor + index + length ps < 2 ^ 32"
  shows "\<exists>seqs. missing_from oc cursor index ps = Done seqs \<and>
     map seq_nat seqs =
       filter (\<lambda>n. ps ! (n - seq_nat cursor - index) = AsmMissing)
         [seq_nat cursor + index ..< seq_nat cursor + index + length ps]"
  using assms
proof (induction oc cursor index ps rule: missing_from.induct)
  case (1 oc cursor index)
  then show ?case by simp
next
  case (2 oc cursor index p ps)
  let ?n = "seq_nat cursor + index"
  have "filter (\<lambda>n. (AsmPayload p # ps) ! (n - seq_nat cursor - index) = AsmMissing) [?n ..< ?n + length (AsmPayload p # ps)]
      = filter (\<lambda>n. ps ! (n - seq_nat cursor - Suc index) = AsmMissing) [Suc ?n ..< Suc ?n + length ps]"
    by (auto simp: upt_conv_Cons nth_Cons' Suc_le_eq intro!: filter_cong)
  with 2 show ?case by simp
next
  case (3 oc cursor index ps)
  let ?n = "seq_nat cursor + index"
  have eq: "filter (\<lambda>n. (AsmMissing # ps) ! (n - seq_nat cursor - index) = AsmMissing) [?n ..< ?n + length (AsmMissing # ps)]
      = ?n # filter (\<lambda>n. ps ! (n - seq_nat cursor - Suc index) = AsmMissing) [Suc ?n ..< Suc ?n + length ps]"
    by (auto simp: upt_conv_Cons nth_Cons' Suc_le_eq intro!: filter_cong)
  have i: "seq_nat (SequenceNumber (of_nat index)) = index"
    using 3(2) by (intro seq_nat_of_nat) simp
  then obtain s where "seq_add oc cursor (SequenceNumber (of_nat index)) = Done s"
    and "seq_nat s = ?n"
    using seq_add_Done [of cursor "SequenceNumber (of_nat index)" oc] 3(2) by auto
  with 3 eq show ?case by auto
qed

lemma assembler_missing_spec:
  assumes "asm_in_range a"
  shows "\<exists>seqs. assembler_missing_sequence_numbers oc a = Done seqs \<and>
     map seq_nat seqs = filter (\<lambda>n. asm_contents a n = None) [asm_next a ..< asm_end a]"
proof -
  have "filter (\<lambda>n. asm_packets a ! (n - asm_next a) = AsmMissing) [asm_next a ..< asm_end a]
      = filter (\<lambda>n. asm_contents a n = None) [asm_next a ..< asm_end a]"
    by (auto simp: asm_contents_def intro!: filter_cong)
  then show ?thesis
    using missing_from_spec [of "asm_cursor a" 0 "asm_packets a" oc] assms
    by (simp add: assembler_missing_sequence_numbers_def asm_in_range_def asm_end_def asm_next_def)
qed

section \<open>The assembler as a reorder buffer\<close>

text \<open>The receive stream logs the error of a push and goes on with the state.\<close>

definition assembler_push_state :: "bool \<Rightarrow> assembler \<Rightarrow> sequence_number \<Rightarrow> packet \<Rightarrow> assembler outcome" where
  "assembler_push_state oc a s p = bind_outcome (assembler_push oc a s p) (\<lambda>(a, r). Done a)"

lemma asm_next_le_end: "asm_next a \<le> asm_end a"
  by (simp add: asm_end_def)

lemma asm_contents_window: "asm_contents a n = Some p \<Longrightarrow> asm_next a \<le> n \<and> n < asm_end a"
  by (simp add: asm_contents_def split: if_splits)

lemma asm_full_iff: "asm_full a \<longleftrightarrow> asm_max_retransmission_buffer_size a \<le> asm_end a - asm_next a"
  by (simp add: asm_full_def asm_end_def)

lemma asm_empty_iff: "asm_end a = asm_next a \<longleftrightarrow> asm_packets a = []"
  by (simp add: asm_end_def)

lemma assembler_push_max:
  "assembler_push oc a s p = Done (a', r) \<Longrightarrow>
   asm_max_retransmission_buffer_size a' = asm_max_retransmission_buffer_size a"
  by (auto simp: assembler_push_def split: if_splits option.splits)

lemma push_state_inside:
  assumes "asm_in_range a" and "asm_end a - asm_next a < asm_max_retransmission_buffer_size a"
    and "asm_next a \<le> seq_nat s" and "seq_nat s < asm_end a"
  shows "\<exists>a'. assembler_push_state oc a s p = Done a' \<and> asm_in_range a' \<and> asm_next a' = asm_next a \<and>
     asm_end a' = asm_end a \<and>
     asm_max_retransmission_buffer_size a' = asm_max_retransmission_buffer_size a \<and>
     asm_contents a' =
       (if asm_contents a (seq_nat s) = None then (asm_contents a)(seq_nat s \<mapsto> p) else asm_contents a)"
proof -
  have "\<not> asm_full a" using assms(2) by (simp add: asm_full_iff)
  then obtain a' where push: "assembler_push oc a s p = Done (a', Inr ())"
    and a': "asm_next a' = asm_next a" "asm_end a' = asm_end a"
      "asm_contents a' =
       (if asm_contents a (seq_nat s) = None then (asm_contents a)(seq_nat s \<mapsto> p) else asm_contents a)"
    using assembler_push_inside_contents [OF _ assms(3,4), of oc p] by auto
  from push assembler_push_max [OF push] a' assms(1) show ?thesis
    by (simp add: assembler_push_state_def asm_in_range_def)
qed

lemma push_state_empty:
  assumes "asm_end a = asm_next a" and "0 < asm_max_retransmission_buffer_size a"
    and "asm_next a \<le> seq_nat s" and "seq_nat s + 1 < 2 ^ 32"
  shows "\<exists>a'. assembler_push_state oc a s p = Done a' \<and> asm_in_range a' \<and> asm_next a' = asm_next a \<and>
     asm_end a' = seq_nat s + 1 \<and>
     asm_max_retransmission_buffer_size a' = asm_max_retransmission_buffer_size a \<and>
     asm_contents a' = (asm_contents a)(seq_nat s \<mapsto> p)"
proof -
  have "\<not> asm_full a" and "asm_end a \<le> seq_nat s" and len: "length (asm_packets a) = 0"
    using assms by (simp_all add: asm_full_def asm_end_def)
  then obtain a' where push: "assembler_push oc a s p = Done (a', Inr ())"
    and a': "asm_next a' = asm_next a" "asm_end a' = seq_nat s + 1"
      "asm_contents a' = (asm_contents a)(seq_nat s \<mapsto> p)"
    using assembler_push_beyond_contents [of a s oc p] by auto
  from push assembler_push_max [OF push] a' assms(4) show ?thesis
    by (simp add: assembler_push_state_def asm_in_range_def)
qed

lemma read_ordered_drain:
  assumes "asm_in_range a"
  shows "\<exists>a' out. assembler_read_ordered oc a = Done (a', out) \<and> asm_in_range a' \<and>
     asm_next a \<le> asm_next a' \<and> asm_end a' = asm_end a \<and>
     asm_max_retransmission_buffer_size a' = asm_max_retransmission_buffer_size a \<and>
     map Some out = map (asm_contents a) [asm_next a ..< asm_next a'] \<and>
     asm_contents a' = (\<lambda>n. if n < asm_next a' then None else asm_contents a n) \<and>
     asm_contents a' (asm_next a') = None"
  using assembler_read_ordered_spec [OF assms, of oc] assembler_read_ordered_split [OF assms, of oc] assms
  by (auto simp: asm_in_range_def asm_blocked_def)

interpretation asm: reorder_buffer asm_next asm_end asm_max_retransmission_buffer_size asm_contents
  asm_in_range "assembler_push_state oc" "assembler_missing_sequence_numbers oc" "assembler_read_ordered oc" for oc
proof unfold_locales
  fix a s p n
  show "asm_next a \<le> asm_end a" by (rule asm_next_le_end)
  show "asm_contents a n = Some p \<Longrightarrow> asm_next a \<le> n \<and> n < asm_end a" by (rule asm_contents_window)
qed (use push_state_inside push_state_empty assembler_missing_spec read_ordered_drain in blast)+

section \<open>Where the buffer stops working\<close>

text \<open>
  The window test of \<open>push\<close> only looks at the buffer before the insertion, and refuses
  arrivals inside the window as well: a full buffer that waits for its first packet can
  never be unblocked.
\<close>

lemma assembler_full_blocked_stuck:
  assumes "asm_full a" and "asm_blocked a"
  shows "assembler_push oc a s p = Done (a, Inl RetransmissionBufferOverflow)"
    and "assembler_read_ordered oc a = Done (a, [])"
proof -
  show "assembler_push oc a s p = Done (a, Inl RetransmissionBufferOverflow)"
    using assms(1) by (rule assembler_push_full)
  have "read_ordered_loop oc (asm_cursor a) (asm_packets a) = Done ([], asm_cursor a, asm_packets a)"
    using assms(2) by (cases "asm_packets a"; cases "hd (asm_packets a)") (auto simp: asm_blocked_iff)
  then show "assembler_read_ordered oc a = Done (a, [])"
    by (simp add: assembler_read_ordered_def)
qed

text \<open>Feeding packets to an assembler, as the receive stream does.\<close>

abbreviation assemble_all ::
  "bool \<Rightarrow> assembler \<Rightarrow> packet list \<Rightarrow> (assembler \<times> sequence_number list list \<times> packet list) outcome" where
  "assemble_all oc \<equiv>
     deliver_all (assembler_push_state oc) (assembler_missing_sequence_numbers oc) (assembler_read_ordered oc)"

lemma deliver_all_stuck:
  assumes "asm_full a" and "asm_blocked a" and "asm_in_range a"
  shows "\<exists>gap. assemble_all oc a ps = Done (a, replicate (length ps) gap, [])"
proof -
  obtain gap where "assembler_missing_sequence_numbers oc a = Done gap"
    using assembler_missing_spec [OF assms(3)] by blast
  then have "assemble_all oc a ps = Done (a, replicate (length ps) gap, [])"
    by (induction ps) (simp_all add: assembler_full_blocked_stuck [OF assms(1,2)] assembler_push_state_def)
  then show ?thesis by blast
qed

section \<open>Properties\<close>

text \<open>A packet for the concrete instances below.\<close>

definition plain_packet :: "u32 \<Rightarrow> packet" where
  "plain_packet n = \<lparr> pkt_stream_id = ManiStreamId 1, pkt_sequence_number = SequenceNumber n,
     pkt_timestamp = Timestamp 0, pkt_content = [] \<rparr>"

lemma seq_plain_packet [simp]: "pkt_sequence_number (plain_packet n) = SequenceNumber n"
  by (simp add: plain_packet_def)

lemma asm_contents_empty: "asm_packets a = [] \<Longrightarrow> asm_contents a = Map.empty"
  by (auto simp: asm_contents_def asm_end_def fun_eq_iff)

lemma assembler_new_state:
  "asm_packets (assembler_new n) = []" "asm_next (assembler_new n) = 0"
  "asm_in_range (assembler_new n)" "asm_max_retransmission_buffer_size (assembler_new n) = n"
  by (simp_all add: assembler_new_def asm_next_def asm_in_range_def asm_end_def seq_nat_def)

text \<open>Packets that arrive in order from the cursor of an empty buffer on are all delivered,
  in order and once each, without a gap being noted, and the buffer is empty again.\<close>

lemma assembler_delivers_in_order:
  assumes "asm_packets a = []" and "0 < asm_max_retransmission_buffer_size a"
    and "seqs_of ps = [asm_next a ..< asm_next a + length ps]" and "asm_next a + length ps < 2 ^ 32"
  shows "\<exists>a'. assemble_all oc a ps = Done (a', replicate (length ps) [], ps) \<and>
     asm_next a' = asm_next a + length ps \<and> asm_packets a' = []"
proof -
  have "asm_in_range a" and "asm_end a = asm_next a"
    using assms(1,4) by (simp_all add: asm_in_range_def asm_end_def)
  from asm.deliver_in_order [OF this assms(2-4), of oc] show ?thesis
    by (auto simp: asm_empty_iff)
qed

text \<open>C6: When a packet arrives ahead of its turn and then the packets before it arrive, in any
  order and once each, the first gap noted names exactly these and the receiver gets exactly
  these packets in the order of their sequence numbers, provided the gap stays below the size
  limit of the buffer.\<close>

theorem assembler_recovers_gap:
  assumes "asm_packets a = []"
    and "asm_next a \<le> seq_nat (pkt_sequence_number p)" and "seq_nat (pkt_sequence_number p) + 1 < 2 ^ 32"
    and "seq_nat (pkt_sequence_number p) + 1 - asm_next a < asm_max_retransmission_buffer_size a"
    and "distinct (seqs_of ps)" and "set (seqs_of ps) = {asm_next a ..< seq_nat (pkt_sequence_number p)}"
  shows "\<exists>a' gap gaps out. assemble_all oc a (p # ps) = Done (a', gap # gaps, out) \<and>
     map seq_nat gap = [asm_next a ..< seq_nat (pkt_sequence_number p)] \<and>
     seqs_of out = [asm_next a ..< seq_nat (pkt_sequence_number p) + 1] \<and>
     set out \<subseteq> set (p # ps) \<and> asm_packets a' = []"
proof -
  have "asm_in_range a" and "asm_end a = asm_next a"
    using assms(1-3) by (simp_all add: asm_in_range_def asm_end_def)
  from asm.deliver_ahead [OF this(1) asm_contents_empty [OF assms(1)] this(2) assms(2-6), of oc]
  show ?thesis by (auto simp: asm_empty_iff simp del: deliver_all.simps upt_Suc)
qed

theorem assembler_recovers_gap_witness:
  "\<exists>a' gaps out. assemble_all True (assembler_new 8)
     [plain_packet 2, plain_packet 1, plain_packet 0] = Done (a', gaps, out) \<and> seqs_of out = [0 ..< 3]"
proof -
  have "set (seqs_of [plain_packet 1, plain_packet 0]) = {0 ..< 2}"
    by (auto simp: seq_nat_def)
  then show ?thesis
    using assembler_recovers_gap [of "assembler_new 8" "plain_packet 2" "[plain_packet 1, plain_packet 0]" True]
    by (simp add: assembler_new_state seq_nat_def del: deliver_all.simps upt_Suc) blast
qed

text \<open>C35: A push of a sequence number not below the cursor puts the packet where it belongs
  exactly when the buffer is empty or the number lies inside the window: beyond a window that
  already holds packets it lands as many positions too far as the buffer holds.\<close>

theorem assembler_push_places:
  assumes "\<not> asm_full a" and "asm_next a \<le> seq_nat s"
  shows "\<exists>a'. assembler_push oc a s p = Done (a', Inr ()) \<and> asm_next a' = asm_next a \<and>
     (asm_contents a' =
        (if asm_contents a (seq_nat s) = None then (asm_contents a)(seq_nat s \<mapsto> p) else asm_contents a)
      \<longleftrightarrow> asm_packets a = [] \<or> seq_nat s < asm_end a)"
proof (cases "seq_nat s < asm_end a")
  case True
  then show ?thesis using assembler_push_inside_contents [OF assms True, of oc p] by auto
next
  case False
  then have le: "asm_end a \<le> seq_nat s" by simp
  have none: "asm_contents a (seq_nat s) = None"
    using False by (auto simp: asm_contents_def)
  obtain a' where a': "assembler_push oc a s p = Done (a', Inr ())" "asm_next a' = asm_next a"
      "asm_contents a' = (asm_contents a)(seq_nat s + length (asm_packets a) \<mapsto> p)"
    using assembler_push_beyond_contents [OF assms(1) le, of oc p] by blast
  have "asm_contents a' = (asm_contents a)(seq_nat s \<mapsto> p) \<longleftrightarrow> asm_packets a = []"
  proof
    assume "asm_contents a' = (asm_contents a)(seq_nat s \<mapsto> p)"
    then have "asm_contents a' (seq_nat s) = Some p" by simp
    then show "asm_packets a = []" using a'(3) none by (cases "asm_packets a") auto
  qed (simp add: a')
  with a' none False show ?thesis by auto
qed

theorem assembler_push_places_witness:
  "\<exists>a'. assembler_push True ((assembler_new 8)\<lparr> asm_packets := [AsmMissing, AsmPayload (plain_packet 1)] \<rparr>)
      (SequenceNumber 3) (plain_packet 3) = Done (a', Inr ()) \<and>
     asm_contents a' \<noteq> (asm_contents ((assembler_new 8)\<lparr> asm_packets := [AsmMissing, AsmPayload (plain_packet 1)] \<rparr>))
       (3 \<mapsto> plain_packet 3)"
proof -
  let ?a = "(assembler_new 8)\<lparr> asm_packets := [AsmMissing, AsmPayload (plain_packet 1)] \<rparr>"
  have "\<not> asm_full ?a" and "asm_next ?a \<le> seq_nat (SequenceNumber 3)" and "asm_end ?a = 2"
    by (simp_all add: asm_full_def asm_next_def asm_end_def assembler_new_def seq_nat_def)
  moreover have "asm_contents ?a (seq_nat (SequenceNumber 3)) = None"
    by (simp add: asm_contents_def \<open>asm_end ?a = 2\<close> seq_nat_def)
  ultimately show ?thesis
    using assembler_push_places [of ?a "SequenceNumber 3" True "plain_packet 3"]
    by (auto simp: seq_nat_def)
qed

text \<open>With overflow checks, a sequence number below the cursor (a duplicate or a late
  retransmission of something already delivered) panics unless the buffer is full.\<close>

lemma assembler_push_duplicate_panics:
  assumes "seq_nat s < asm_next a"
  shows "assembler_push True a s p = Panic \<longleftrightarrow> \<not> asm_full a"
  using assembler_push_below [OF _ assms, of p] assembler_push_full [of a True s p] by auto

text \<open>C36: One packet far enough ahead wedges a fresh buffer: it fills the buffer to its limit,
  and from then on every packet is refused, the missing first one included, and nothing is
  ever delivered.\<close>

theorem assembler_wedged:
  assumes "0 < n" and "0 < seq_nat (pkt_sequence_number p)" and "n \<le> seq_nat (pkt_sequence_number p) + 1"
    and "seq_nat (pkt_sequence_number p) + 1 < 2 ^ 32"
  shows "\<exists>a gaps. assemble_all oc (assembler_new n) (p # ps) = Done (a, gaps, [])"
proof -
  let ?n = "seq_nat (pkt_sequence_number p)"
  obtain a1 where a1: "assembler_push_state oc (assembler_new n) (pkt_sequence_number p) p = Done a1"
      "asm_in_range a1" "asm_next a1 = 0" "asm_end a1 = ?n + 1"
      "asm_max_retransmission_buffer_size a1 = n" "asm_contents a1 = [?n \<mapsto> p]"
    using push_state_empty [of "assembler_new n" "pkt_sequence_number p" oc p] assms
    by (auto simp: assembler_new_state asm_end_def asm_contents_empty)
  then have "asm_full a1" and "asm_blocked a1"
    using assms by (simp_all add: asm_full_iff asm_blocked_def)
  moreover obtain gap where "assembler_missing_sequence_numbers oc a1 = Done gap"
    using assembler_missing_spec [OF a1(2)] by blast
  moreover obtain gap' where "assemble_all oc a1 ps = Done (a1, replicate (length ps) gap', [])"
    using deliver_all_stuck a1(2) calculation by blast
  ultimately show ?thesis
    using a1 assembler_full_blocked_stuck(2) by simp
qed

theorem assembler_wedged_witness:
  "\<exists>a gaps. assemble_all True (assembler_new 2) [plain_packet 1, plain_packet 0] = Done (a, gaps, [])"
  using assembler_wedged [of 2 "plain_packet 1" True "[plain_packet 0]"] by (simp add: seq_nat_def del: deliver_all.simps)

end
