(* ===== verification/Credit.thy ===== *)
theory Credit
  imports Types
begin

text \<open>
  The receiver's \<open>CreditCoordinator\<close>, \<^verbatim>\<open>src/src/mani/transfer/recv.rs\<close> lines 23 to 144:
  credits go back to the sender as the application drains the receive streams.
\<close>

section \<open>State and operations\<close>

record coord_state =
  reliable_drained :: u64
  unreliable_drained :: u64
  last_emitted :: u64
  has_reliable :: bool
  reliable_closed :: bool
  unreliable_closed :: bool

record credit_coordinator =
  cc_bulk :: nat
  cc_state :: coord_state

definition credit_coordinator_new :: "nat \<Rightarrow> bool \<Rightarrow> credit_coordinator" where
  "credit_coordinator_new bulk dual =
     \<lparr> cc_bulk = max bulk 1,
       cc_state = \<lparr> reliable_drained = 0, unreliable_drained = 0, last_emitted = 0,
                    has_reliable = dual, reliable_closed = False, unreliable_closed = False \<rparr> \<rparr>"

definition effective_count :: "coord_state \<Rightarrow> u64 option" where
  "effective_count s =
     (let r_active = has_reliable s \<and> \<not> reliable_closed s;
          u_active = \<not> unreliable_closed s
      in case (r_active, u_active) of
           (True, True) \<Rightarrow> Some (min (reliable_drained s) (unreliable_drained s))
         | (True, False) \<Rightarrow> Some (reliable_drained s)
         | (False, True) \<Rightarrow> Some (unreliable_drained s)
         | (False, False) \<Rightarrow> None)"

text \<open>The new state and the credits of the \<open>UpdateCredits\<close> command, if one is sent.\<close>

definition maybe_emit :: "nat \<Rightarrow> coord_state \<Rightarrow> bool \<Rightarrow> coord_state \<times> nat option" where
  "maybe_emit bulk s force =
     (case effective_count s of
        None \<Rightarrow> (s, None)
      | Some effective \<Rightarrow>
          if effective \<le> last_emitted s then (s, None)
          else
            (let pending = effective - last_emitted s in
             if \<not> force \<and> unat pending < bulk then (s, None)
             else (s\<lparr> last_emitted := effective \<rparr>, Some (unat pending))))"

definition emit_with :: "credit_coordinator \<Rightarrow> coord_state \<Rightarrow> bool \<Rightarrow> credit_coordinator \<times> nat option" where
  "emit_with c s force =
     (case maybe_emit (cc_bulk c) s force of (s, cmd) \<Rightarrow> (c\<lparr> cc_state := s \<rparr>, cmd))"

definition record_reliable :: "credit_coordinator \<Rightarrow> nat \<Rightarrow> credit_coordinator \<times> nat option" where
  "record_reliable c n =
     (if n = 0 then (c, None)
      else emit_with c ((cc_state c)\<lparr> reliable_drained :=
             saturating_add64 (reliable_drained (cc_state c)) n \<rparr>) False)"

definition record_unreliable :: "credit_coordinator \<Rightarrow> nat \<Rightarrow> credit_coordinator \<times> nat option" where
  "record_unreliable c n =
     (if n = 0 then (c, None)
      else emit_with c ((cc_state c)\<lparr> unreliable_drained :=
             saturating_add64 (unreliable_drained (cc_state c)) n \<rparr>) False)"

definition mark_reliable_closed :: "credit_coordinator \<Rightarrow> credit_coordinator \<times> nat option" where
  "mark_reliable_closed c =
     (if reliable_closed (cc_state c) then (c, None)
      else emit_with c ((cc_state c)\<lparr> reliable_closed := True \<rparr>) True)"

definition mark_unreliable_closed :: "credit_coordinator \<Rightarrow> credit_coordinator \<times> nat option" where
  "mark_unreliable_closed c =
     (if unreliable_closed (cc_state c) then (c, None)
      else emit_with c ((cc_state c)\<lparr> unreliable_closed := True \<rparr>) True)"

declare maybe_emit_def [step_defs] emit_with_def [step_defs] record_reliable_def [step_defs]
  record_unreliable_def [step_defs] mark_reliable_closed_def [step_defs]
  mark_unreliable_closed_def [step_defs]

section \<open>Runs\<close>

text \<open>
  The calls the receive streams make, in the order the state mutex admits them, and a
  ghost account of the credits sent and of what each stream has drained.
\<close>

datatype coord_event =
    RecordReliable nat
  | RecordUnreliable nat
  | ReliableClosed
  | UnreliableClosed

fun coord_op :: "credit_coordinator \<Rightarrow> coord_event \<Rightarrow> credit_coordinator \<times> nat option" where
  "coord_op c (RecordReliable n) = record_reliable c n"
| "coord_op c (RecordUnreliable n) = record_unreliable c n"
| "coord_op c ReliableClosed = mark_reliable_closed c"
| "coord_op c UnreliableClosed = mark_unreliable_closed c"

record coord_account =
  acc_coord :: credit_coordinator
  acc_emitted :: nat
  acc_reliable :: nat
  acc_unreliable :: nat

fun credits_of :: "nat option \<Rightarrow> nat" where
  "credits_of None = 0"
| "credits_of (Some n) = n"

definition account_step :: "coord_account \<Rightarrow> coord_event \<Rightarrow> coord_account" where
  "account_step a e =
     (case coord_op (acc_coord a) e of
        (c, cmd) \<Rightarrow>
          a\<lparr> acc_coord := c, acc_emitted := acc_emitted a + credits_of cmd,
             acc_reliable := acc_reliable a + (case e of RecordReliable n \<Rightarrow> n | _ \<Rightarrow> 0),
             acc_unreliable := acc_unreliable a + (case e of RecordUnreliable n \<Rightarrow> n | _ \<Rightarrow> 0) \<rparr>)"

definition account_new :: "nat \<Rightarrow> bool \<Rightarrow> coord_account" where
  "account_new bulk dual =
     \<lparr> acc_coord = credit_coordinator_new bulk dual, acc_emitted = 0, acc_reliable = 0, acc_unreliable = 0 \<rparr>"

definition account_run :: "nat \<Rightarrow> bool \<Rightarrow> coord_event list \<Rightarrow> coord_account" where
  "account_run bulk dual es = foldl account_step (account_new bulk dual) es"

section \<open>The invariant\<close>

text \<open>
  What was sent is what the coordinator remembers; an open stream has drained at least as
  much as was sent; less than a batch is withheld; the counters never run ahead of what
  was drained, and are exact until they saturate.
\<close>

definition counter_of :: "u64 \<Rightarrow> nat \<Rightarrow> bool" where
  "counter_of w n \<longleftrightarrow> unat w \<le> n \<and> (n < 2 ^ 64 \<longrightarrow> unat w = n)"

definition open_bound :: "coord_state \<Rightarrow> bool" where
  "open_bound s \<longleftrightarrow>
     (has_reliable s \<and> \<not> reliable_closed s \<longrightarrow> last_emitted s \<le> reliable_drained s) \<and>
     (\<not> unreliable_closed s \<longrightarrow> last_emitted s \<le> unreliable_drained s)"

definition batch_bound :: "nat \<Rightarrow> coord_state \<Rightarrow> bool" where
  "batch_bound bulk s \<longleftrightarrow>
     (case effective_count s of None \<Rightarrow> True | Some e \<Rightarrow> unat e < unat (last_emitted s) + bulk)"

definition account_inv :: "coord_account \<Rightarrow> bool" where
  "account_inv a \<longleftrightarrow>
     (let s = cc_state (acc_coord a) in
      1 \<le> cc_bulk (acc_coord a) \<and> acc_emitted a = unat (last_emitted s) \<and>
      open_bound s \<and> batch_bound (cc_bulk (acc_coord a)) s \<and>
      last_emitted s \<le> max (reliable_drained s) (unreliable_drained s) \<and>
      (\<not> has_reliable s \<longrightarrow> last_emitted s \<le> unreliable_drained s) \<and>
      counter_of (reliable_drained s) (acc_reliable a) \<and>
      counter_of (unreliable_drained s) (acc_unreliable a))"

lemma counter_of_add: "counter_of w m \<Longrightarrow> counter_of (saturating_add64 w n) (m + n)"
  using unat_saturating_add64_le [of w n] unat_saturating_add64_exact [of w n]
  by (auto simp: counter_of_def)

lemma open_bound_effective:
  "open_bound s \<Longrightarrow> effective_count s = Some e \<Longrightarrow> last_emitted s \<le> e"
  by (auto simp: open_bound_def effective_count_def Let_def split: if_splits prod.splits bool.splits)

lemma effective_le_max:
  "effective_count s = Some e \<Longrightarrow>
     e \<le> max (reliable_drained s) (unreliable_drained s) \<and>
     (has_reliable s \<and> \<not> reliable_closed s \<longrightarrow> e \<le> reliable_drained s) \<and>
     (\<not> unreliable_closed s \<longrightarrow> e \<le> unreliable_drained s) \<and>
     (\<not> has_reliable s \<longrightarrow> e = unreliable_drained s)"
  by (auto simp: effective_count_def Let_def le_max_iff_disj split: bool.splits)

text \<open>Emitting keeps the bounds, and sends exactly the difference.\<close>

lemma effective_count_last: "effective_count (s\<lparr> last_emitted := x \<rparr>) = effective_count s"
  by (auto simp: effective_count_def Let_def split: bool.splits)

lemma maybe_emit_spec:
  assumes "open_bound s" and "maybe_emit bulk s force = (s', cmd)" and "1 \<le> bulk"
  shows "\<exists>x. s' = s\<lparr> last_emitted := x \<rparr> \<and> unat x = unat (last_emitted s) + credits_of cmd \<and>
     (x = last_emitted s \<or> effective_count s = Some x) \<and> batch_bound bulk s'"
proof (cases "effective_count s")
  case None
  then show ?thesis
    using assms by (intro exI [of _ "last_emitted s"]) (auto simp: maybe_emit_def batch_bound_def)
next
  case (Some e)
  then have le: "last_emitted s \<le> e" using assms(1) by (intro open_bound_effective)
  then have diff: "unat (e - last_emitted s) = unat e - unat (last_emitted s)" "unat (last_emitted s) \<le> unat e"
    by (simp_all add: unat_sub word_le_nat_alt)
  show ?thesis
  proof (cases "cmd = None")
    case True
    then have "s' = s" and "unat e < unat (last_emitted s) + bulk"
      using assms Some diff by (auto simp: maybe_emit_def Let_def word_le_nat_alt split: if_splits)
    with True Some show ?thesis
      by (intro exI [of _ "last_emitted s"]) (simp add: batch_bound_def)
  next
    case False
    then have "s' = s\<lparr> last_emitted := e \<rparr>" and "cmd = Some (unat (e - last_emitted s))"
      using assms Some by (auto simp: maybe_emit_def Let_def split: if_splits)
    with Some diff assms(3) show ?thesis
      by (intro exI [of _ e]) (simp add: batch_bound_def effective_count_last)
  qed
qed

text \<open>
  The invariant of an account, for a coordinator state in the middle of an operation: all
  of it but the bound on what is withheld, which the emission restores.
\<close>

definition counts_ok :: "coord_state \<Rightarrow> nat \<Rightarrow> nat \<Rightarrow> nat \<Rightarrow> bool" where
  "counts_ok s emitted rel unrel \<longleftrightarrow>
     emitted = unat (last_emitted s) \<and> open_bound s \<and>
     last_emitted s \<le> max (reliable_drained s) (unreliable_drained s) \<and>
     (\<not> has_reliable s \<longrightarrow> last_emitted s \<le> unreliable_drained s) \<and>
     counter_of (reliable_drained s) rel \<and> counter_of (unreliable_drained s) unrel"

lemma account_inv_counts:
  "account_inv a \<longleftrightarrow>
     1 \<le> cc_bulk (acc_coord a) \<and> batch_bound (cc_bulk (acc_coord a)) (cc_state (acc_coord a)) \<and>
     counts_ok (cc_state (acc_coord a)) (acc_emitted a) (acc_reliable a) (acc_unreliable a)"
  by (auto simp: account_inv_def counts_ok_def Let_def)

lemma maybe_emit_counts:
  assumes ok: "counts_ok s emitted rel unrel" and "maybe_emit bulk s force = (s', cmd)" and "1 \<le> bulk"
  shows "counts_ok s' (emitted + credits_of cmd) rel unrel \<and> batch_bound bulk s'"
proof -
  have "open_bound s" using ok by (simp add: counts_ok_def)
  then obtain x where s': "s' = s\<lparr> last_emitted := x \<rparr>"
    and sum: "unat x = unat (last_emitted s) + credits_of cmd"
    and x: "x = last_emitted s \<or> effective_count s = Some x" and batch: "batch_bound bulk s'"
    using maybe_emit_spec assms by blast
  have "counts_ok s' (emitted + credits_of cmd) rel unrel"
    using x
  proof
    assume "x = last_emitted s"
    then show ?thesis using ok s' sum by (simp add: counts_ok_def open_bound_def)
  next
    assume "effective_count s = Some x"
    from effective_le_max [OF this] show ?thesis
      using ok s' sum by (auto simp: counts_ok_def open_bound_def)
  qed
  with batch show ?thesis by simp
qed

lemma counts_ok_reliable:
  assumes "counts_ok s emitted rel unrel"
  shows "counts_ok (s\<lparr> reliable_drained := saturating_add64 (reliable_drained s) n \<rparr>) emitted (rel + n) unrel"
proof -
  have "reliable_drained s \<le> saturating_add64 (reliable_drained s) n" by (rule saturating_add64_mono)
  with assms show ?thesis
    by (auto simp: counts_ok_def open_bound_def counter_of_add le_max_iff_disj intro: order_trans)
qed

lemma counts_ok_unreliable:
  assumes "counts_ok s emitted rel unrel"
  shows "counts_ok (s\<lparr> unreliable_drained := saturating_add64 (unreliable_drained s) n \<rparr>) emitted rel (unrel + n)"
proof -
  have "unreliable_drained s \<le> saturating_add64 (unreliable_drained s) n" by (rule saturating_add64_mono)
  with assms show ?thesis
    by (auto simp: counts_ok_def open_bound_def counter_of_add le_max_iff_disj intro: order_trans)
qed

lemma counts_ok_close:
  assumes "counts_ok s emitted rel unrel"
  shows "counts_ok (s\<lparr> reliable_closed := True \<rparr>) emitted rel unrel"
    and "counts_ok (s\<lparr> unreliable_closed := True \<rparr>) emitted rel unrel"
  using assms by (auto simp: counts_ok_def open_bound_def)

text \<open>One operation, given what it did to the state before emitting.\<close>

lemma account_step_emit:
  assumes "coord_op (acc_coord a) e = emit_with (acc_coord a) s force"
    and "counts_ok s (acc_emitted a) (acc_reliable (account_step a e)) (acc_unreliable (account_step a e))"
    and "account_inv a"
  shows "account_inv (account_step a e)"
proof -
  obtain s' cmd where emit: "maybe_emit (cc_bulk (acc_coord a)) s force = (s', cmd)"
    by (cases "maybe_emit (cc_bulk (acc_coord a)) s force")
  have bulk: "1 \<le> cc_bulk (acc_coord a)" using assms(3) by (simp add: account_inv_counts)
  from maybe_emit_counts [OF assms(2) emit bulk] show ?thesis
    using assms(1) emit bulk by (simp add: account_inv_counts account_step_def emit_with_def)
qed

lemma account_step_inv: "account_inv a \<Longrightarrow> account_inv (account_step a e)"
proof -
  assume inv: "account_inv a"
  let ?s = "cc_state (acc_coord a)"
  have ok: "counts_ok ?s (acc_emitted a) (acc_reliable a) (acc_unreliable a)"
    using inv by (simp add: account_inv_counts)
  have totals: "acc_reliable (account_step a e) = acc_reliable a + (case e of RecordReliable n \<Rightarrow> n | _ \<Rightarrow> 0)"
      "acc_unreliable (account_step a e) = acc_unreliable a + (case e of RecordUnreliable n \<Rightarrow> n | _ \<Rightarrow> 0)"
    by (simp_all add: account_step_def split: prod.splits)
  have idle: "account_inv (account_step a e)"
    if "coord_op (acc_coord a) e = (acc_coord a, None)"
      "acc_reliable (account_step a e) = acc_reliable a" "acc_unreliable (account_step a e) = acc_unreliable a"
    using inv that by (simp add: account_inv_counts account_step_def)
  show ?thesis
  proof (cases e)
    case (RecordReliable n)
    then show ?thesis
      using idle account_step_emit [OF _ _ inv] counts_ok_reliable [OF ok, of n] totals
      by (cases "n = 0") (simp_all add: record_reliable_def)
  next
    case (RecordUnreliable n)
    then show ?thesis
      using idle account_step_emit [OF _ _ inv] counts_ok_unreliable [OF ok, of n] totals
      by (cases "n = 0") (simp_all add: record_unreliable_def)
  next
    case ReliableClosed
    then show ?thesis
      using idle account_step_emit [OF _ _ inv] counts_ok_close(1) [OF ok] totals
      by (cases "reliable_closed ?s") (simp_all add: mark_reliable_closed_def)
  next
    case UnreliableClosed
    then show ?thesis
      using idle account_step_emit [OF _ _ inv] counts_ok_close(2) [OF ok] totals
      by (cases "unreliable_closed ?s") (simp_all add: mark_unreliable_closed_def)
  qed
qed

lemma account_inv_new: "account_inv (account_new bulk dual)"
  by (auto simp: account_inv_def account_new_def credit_coordinator_new_def open_bound_def
      batch_bound_def effective_count_def counter_of_def Let_def split: bool.splits)

interpretation credit: growing_system account_step account_inv acc_emitted
proof unfold_locales
  show "account_inv a \<Longrightarrow> account_inv (account_step a e)" for a e
    by (rule account_step_inv)
  show "acc_emitted a \<le> acc_emitted (account_step a e)" for a e
    by (simp add: account_step_def split: prod.splits)
qed

lemma account_run_inv: "account_inv (account_run bulk dual es)"
  unfolding account_run_def by (intro credit.run_inv account_inv_new)

section \<open>What never changes, and when a stream is closed\<close>

lemma account_step_frame:
  "cc_bulk (acc_coord (account_step a e)) = cc_bulk (acc_coord a) \<and>
   has_reliable (cc_state (acc_coord (account_step a e))) = has_reliable (cc_state (acc_coord a)) \<and>
   (reliable_closed (cc_state (acc_coord (account_step a e))) \<longleftrightarrow>
      reliable_closed (cc_state (acc_coord a)) \<or> e = ReliableClosed) \<and>
   (unreliable_closed (cc_state (acc_coord (account_step a e))) \<longleftrightarrow>
      unreliable_closed (cc_state (acc_coord a)) \<or> e = UnreliableClosed)"
  by (cases e) (auto simp: account_step_def step_defs Let_def split: option.splits)

lemma account_run_frame:
  "cc_bulk (acc_coord (account_run bulk dual es)) = max bulk 1 \<and>
   has_reliable (cc_state (acc_coord (account_run bulk dual es))) = dual \<and>
   (reliable_closed (cc_state (acc_coord (account_run bulk dual es))) \<longleftrightarrow> ReliableClosed \<in> set es) \<and>
   (unreliable_closed (cc_state (acc_coord (account_run bulk dual es))) \<longleftrightarrow> UnreliableClosed \<in> set es)"
  unfolding account_run_def
  by (induction es rule: rev_induct)
    (auto simp: account_step_frame account_new_def credit_coordinator_new_def)

section \<open>Properties\<close>

lemma counter_of_exact: "counter_of w n \<Longrightarrow> n < 2 ^ 64 \<Longrightarrow> unat w = n"
  by (simp add: counter_of_def)

lemma drain_tracked:
  assumes "ReliableClosed \<notin> set es" and "UnreliableClosed \<notin> set es"
    and "a = account_run bulk dual es"
    and "acc_reliable a < 2 ^ 64" and "acc_unreliable a < 2 ^ 64"
    and "drained = (if dual then min (acc_reliable a) (acc_unreliable a) else acc_unreliable a)"
  shows "acc_emitted a \<le> drained \<and> drained < acc_emitted a + max bulk 1"
proof -
  let ?s = "cc_state (acc_coord a)"
  have ok: "counts_ok ?s (acc_emitted a) (acc_reliable a) (acc_unreliable a)"
    and batch: "batch_bound (cc_bulk (acc_coord a)) ?s"
    using account_run_inv [of bulk dual es] assms(3) by (simp_all add: account_inv_counts)
  have fr: "cc_bulk (acc_coord a) = max bulk 1" "has_reliable ?s = dual"
      "\<not> reliable_closed ?s" "\<not> unreliable_closed ?s"
    using account_run_frame [of bulk dual es] assms(1-3) by simp_all
  have "unat (reliable_drained ?s) = acc_reliable a" "unat (unreliable_drained ?s) = acc_unreliable a"
    using ok assms(4,5) by (simp_all add: counts_ok_def counter_of_exact)
  with ok batch fr show ?thesis
    by (auto simp: assms(6) counts_ok_def open_bound_def batch_bound_def effective_count_def Let_def
        word_le_nat_alt min_def split: if_splits)
qed

text \<open>C27: While both streams are open, the credits returned never exceed what the slower of
  the streams in use has drained (so a credit comes back only once both have surfaced the
  packet), and less than a batch is withheld.\<close>

theorem credits_track_drain:
  assumes "ReliableClosed \<notin> set es" and "UnreliableClosed \<notin> set es"
    and "a = account_run bulk dual es"
    and "acc_reliable a < 2 ^ 64" and "acc_unreliable a < 2 ^ 64"
    and "drained = (if dual then min (acc_reliable a) (acc_unreliable a) else acc_unreliable a)"
  shows "acc_emitted a \<le> drained \<and> drained < acc_emitted a + max bulk 1"
  using assms by (rule drain_tracked)

theorem credits_track_drain_witness:
  "acc_emitted (account_run 2 True [RecordReliable 5, RecordUnreliable 3]) \<le> 3 \<and>
   3 < acc_emitted (account_run 2 True [RecordReliable 5, RecordUnreliable 3]) + 2"
proof -
  let ?es = "[RecordReliable 5, RecordUnreliable 3]"
  have "acc_reliable (account_run 2 True ?es) = 5" and "acc_unreliable (account_run 2 True ?es) = 3"
    by (simp_all add: account_run_def account_new_def account_step_def split: prod.splits)
  then show ?thesis
    using credits_track_drain [of ?es "account_run 2 True ?es" 2 True 3] by simp
qed

lemma maybe_emit_force:
  assumes "maybe_emit bulk s True = (s', cmd)" and "effective_count s = Some e" and "last_emitted s \<le> e"
  shows "last_emitted s' = e"
  using assms by (auto simp: maybe_emit_def Let_def split: if_splits)

text \<open>Closing the reliable stream releases at once every credit it held back: afterwards
  exactly what the unreliable stream has drained has been returned.\<close>

lemma close_releases_credits:
  assumes "ReliableClosed \<notin> set es" and "UnreliableClosed \<notin> set es"
    and "acc_unreliable (account_run bulk dual es) < 2 ^ 64"
  shows "acc_emitted (account_run bulk dual (es @ [ReliableClosed])) = acc_unreliable (account_run bulk dual es)"
proof -
  let ?a = "account_run bulk dual es"
  let ?s = "(cc_state (acc_coord ?a))\<lparr> reliable_closed := True \<rparr>"
  have run: "account_run bulk dual (es @ [ReliableClosed]) = account_step ?a ReliableClosed"
    by (simp add: account_run_def)
  have ok: "counts_ok ?s (acc_emitted ?a) (acc_reliable ?a) (acc_unreliable ?a)"
    using account_run_inv [of bulk dual es] by (auto simp: account_inv_counts intro: counts_ok_close)
  have fr: "\<not> reliable_closed (cc_state (acc_coord ?a))" "\<not> unreliable_closed (cc_state (acc_coord ?a))"
    using account_run_frame [of bulk dual es] assms(1,2) by simp_all
  have eff: "effective_count ?s = Some (unreliable_drained ?s)"
    using fr by (simp add: effective_count_def Let_def)
  obtain s' cmd where emit: "maybe_emit (cc_bulk (acc_coord ?a)) ?s True = (s', cmd)"
    by (cases "maybe_emit (cc_bulk (acc_coord ?a)) ?s True")
  have le: "last_emitted ?s \<le> unreliable_drained ?s"
    using ok fr by (simp add: counts_ok_def open_bound_def)
  have "cc_state (acc_coord (account_step ?a ReliableClosed)) = s'"
    using emit fr by (simp add: account_step_def mark_reliable_closed_def emit_with_def)
  moreover have "account_inv (account_step ?a ReliableClosed)"
    by (intro account_step_inv account_run_inv)
  ultimately have "acc_emitted (account_step ?a ReliableClosed) = unat (last_emitted s')"
    by (simp add: account_inv_counts counts_ok_def)
  also have "\<dots> = unat (unreliable_drained ?s)"
    using maybe_emit_force [OF emit eff le] by simp
  also have "\<dots> = acc_unreliable ?a"
    using ok assms(3) by (simp add: counts_ok_def counter_of_exact)
  finally show ?thesis by (simp only: run)
qed

text \<open>The credits returned only grow, whatever the streams do, and never exceed what the
  faster of the two streams has drained.\<close>

lemma credits_monotone:
  "acc_emitted (account_run bulk dual es) \<le> acc_emitted (account_run bulk dual (es @ fs)) \<and>
   acc_emitted (account_run bulk dual es) \<le>
     max (acc_reliable (account_run bulk dual es)) (acc_unreliable (account_run bulk dual es))"
proof -
  have "acc_emitted (account_run bulk dual es) \<le> acc_emitted (account_run bulk dual (es @ fs))"
    unfolding account_run_def by (rule credit.run_prefix_grows [OF account_inv_new])
  moreover have "counts_ok (cc_state (acc_coord (account_run bulk dual es))) (acc_emitted (account_run bulk dual es))
      (acc_reliable (account_run bulk dual es)) (acc_unreliable (account_run bulk dual es))"
    using account_run_inv by (simp add: account_inv_counts)
  ultimately show ?thesis
    by (auto simp: counts_ok_def counter_of_def le_max_iff_disj word_le_nat_alt)
qed

end
