(* ===== verification/Recv_Stream.thy ===== *)
theory Recv_Stream
  imports Assembler Credit
begin

text \<open>
  The receive streams of \<^verbatim>\<open>src/src/mani/transfer/recv.rs\<close> (lines 16 to 31 and 146 to
  387): the reliable stream, which reorders packets, asks for missing ones and ends once
  everything up to the final sequence number has been delivered, and the unreliable one.
  Both report what the application drained to the shared credit coordinator.
\<close>

section \<open>Commands and effects\<close>

datatype recv_pipeline_command = PipelineEndTransfer sequence_number

datatype recv_sender_command =
    UpdateCredits nat
  | NackCommand "sequence_number list"

text \<open>What a receive stream does to the outside, in order: a command to the stream task, or
  the answer to the pending \<open>EndTransfer\<close>.\<close>

datatype recv_effect = ToTask recv_sender_command | EndReply

definition credit_effects :: "credit_coordinator \<times> nat option \<Rightarrow> credit_coordinator \<times> recv_effect list" where
  "credit_effects x =
     (case x of
        (c, None) \<Rightarrow> (c, [])
      | (c, Some n) \<Rightarrow> (c, [ToTask (UpdateCredits n)]))"

section \<open>The reliable stream\<close>

record reliable_recv =
  rr_id :: mani_stream_id
  rr_assembler :: assembler
  rr_pending_end :: "sequence_number option"
  rr_closed_signaled :: bool

definition reliable_recv_new :: "mani_stream_id \<Rightarrow> nat \<Rightarrow> reliable_recv" where
  "reliable_recv_new sid max_retransmission_buffer_size =
     \<lparr> rr_id = sid, rr_assembler = assembler_new max_retransmission_buffer_size,
       rr_pending_end = None, rr_closed_signaled = False \<rparr>"

definition reliable_signal_eof ::
  "reliable_recv \<Rightarrow> credit_coordinator \<Rightarrow> reliable_recv \<times> credit_coordinator \<times> recv_effect list" where
  "reliable_signal_eof r c =
     (if rr_closed_signaled r then (r, c, [])
      else (case credit_effects (mark_reliable_closed c) of
              (c, es) \<Rightarrow> (r\<lparr> rr_closed_signaled := True \<rparr>, c, es)))"

text \<open>
  What the \<open>select!\<close> of an iteration completes with.  A closed command channel disables
  its branch, so only received commands appear.
\<close>

datatype recv_event =
    EndNotified
  | PipelineCommand recv_pipeline_command
  | PacketReceived packet
  | PacketsClosed

text \<open>An iteration either goes on or returns from \<open>recv\<close>.\<close>

datatype recv_control = Continue | Return "chunk list option"

definition end_reached :: "reliable_recv \<Rightarrow> bool" where
  "end_reached r =
     (case rr_pending_end r of
        None \<Rightarrow> False
      | Some final_seq \<Rightarrow> final_seq < asm_cursor (rr_assembler r))"

text \<open>The branch of a received packet: push, ask for what is missing, read.\<close>

definition recv_packet ::
  "bool \<Rightarrow> reliable_recv \<Rightarrow> credit_coordinator \<Rightarrow> packet \<Rightarrow>
   (reliable_recv \<times> credit_coordinator \<times> recv_effect list \<times> recv_control) outcome" where
  "recv_packet oc r c p =
     bind_outcome (assembler_push oc (rr_assembler r) (pkt_sequence_number p) p) (\<lambda>(a, pushed).
     bind_outcome (assembler_missing_sequence_numbers oc a) (\<lambda>missings.
     let nack = (if missings \<noteq> [] then [ToTask (NackCommand missings)] else []) in
     bind_outcome (assembler_read_ordered oc a) (\<lambda>(a, packets).
     let r = r\<lparr> rr_assembler := a \<rparr> in
     if packets \<noteq> [] then
       (case credit_effects (record_reliable c (length packets)) of
          (c, es) \<Rightarrow> Done (r, c, nack @ es, Return (Some (map chunk_of_packet packets))))
     else Done (r, c, nack, Continue))))"

fun recv_select ::
  "bool \<Rightarrow> reliable_recv \<Rightarrow> credit_coordinator \<Rightarrow> recv_event \<Rightarrow>
   (reliable_recv \<times> credit_coordinator \<times> recv_effect list \<times> recv_control) outcome" where
  "recv_select oc r c EndNotified =
     (case reliable_signal_eof r c of (r, c, es) \<Rightarrow> Done (r, c, es, Return None))"
| "recv_select oc r c (PipelineCommand (PipelineEndTransfer final_seq)) =
     Done (r\<lparr> rr_pending_end := Some final_seq \<rparr>, c, [], Continue)"
| "recv_select oc r c (PacketReceived p) = recv_packet oc r c p"
| "recv_select oc r c PacketsClosed =
     (case reliable_signal_eof r c of (r, c, es) \<Rightarrow> Done (r, c, es, Return None))"

definition recv_at_end ::
  "reliable_recv \<Rightarrow> credit_coordinator \<Rightarrow> reliable_recv \<times> credit_coordinator \<times> recv_effect list" where
  "recv_at_end r c =
     (case reliable_signal_eof (r\<lparr> rr_pending_end := None \<rparr>) c of
        (r, c, es) \<Rightarrow> (r, c, EndReply # es))"

text \<open>
  \<open>recv\<close>: the loop over the events, up to its return.  The result is the new state, the
  effects, the value returned (\<open>None\<close> while it still waits for an event) and the events
  left for the next call.
\<close>

fun reliable_recv_call ::
  "bool \<Rightarrow> reliable_recv \<Rightarrow> credit_coordinator \<Rightarrow> recv_event list \<Rightarrow>
   (reliable_recv \<times> credit_coordinator \<times> recv_effect list \<times> chunk list option option \<times> recv_event list) outcome" where
  "reliable_recv_call oc r c [] =
     (if end_reached r then
        (case recv_at_end r c of (r, c, es) \<Rightarrow> Done (r, c, es, Some None, []))
      else Done (r, c, [], None, []))"
| "reliable_recv_call oc r c (e # events) =
     (if end_reached r then
        (case recv_at_end r c of (r, c, es) \<Rightarrow> Done (r, c, es, Some None, e # events))
      else
        bind_outcome (recv_select oc r c e) (\<lambda>(r, c, es, control).
          case control of
            Return value \<Rightarrow> Done (r, c, es, Some value, events)
          | Continue \<Rightarrow>
              bind_outcome (reliable_recv_call oc r c events) (\<lambda>(r, c, es', value, rest).
                Done (r, c, es @ es', value, rest))))"

text \<open>\<open>Drop\<close>: the channel is drained and the coordinator told, unless it was already.\<close>

definition reliable_drop :: "reliable_recv \<Rightarrow> credit_coordinator \<Rightarrow> credit_coordinator \<times> recv_effect list" where
  "reliable_drop r c =
     (if rr_closed_signaled r then (c, []) else credit_effects (mark_reliable_closed c))"

section \<open>The unreliable stream\<close>

record unreliable_recv =
  ur_id :: mani_stream_id
  ur_closed_signaled :: bool

definition unreliable_recv_new :: "mani_stream_id \<Rightarrow> unreliable_recv" where
  "unreliable_recv_new sid = \<lparr> ur_id = sid, ur_closed_signaled = False \<rparr>"

definition unreliable_signal_eof ::
  "unreliable_recv \<Rightarrow> credit_coordinator \<Rightarrow> unreliable_recv \<times> credit_coordinator \<times> recv_effect list" where
  "unreliable_signal_eof u c =
     (if ur_closed_signaled u then (u, c, [])
      else (case credit_effects (mark_unreliable_closed c) of
              (c, es) \<Rightarrow> (u\<lparr> ur_closed_signaled := True \<rparr>, c, es)))"

text \<open>
  One iteration reads the end flag and whether the channel is empty, then waits for an
  event; after a notification it reads them again.
\<close>

datatype unreliable_event =
    UnreliableNotified bool bool
  | UnreliablePacket packet
  | UnreliableChannelClosed

fun unreliable_recv_call ::
  "unreliable_recv \<Rightarrow> credit_coordinator \<Rightarrow> ((bool \<times> bool) \<times> unreliable_event) list \<Rightarrow>
   unreliable_recv \<times> credit_coordinator \<times> recv_effect list \<times> chunk option option" where
  "unreliable_recv_call u c [] = (u, c, [], None)"
| "unreliable_recv_call u c (((is_end, is_empty), e) # events) =
     (if is_end \<and> is_empty then
        (case unreliable_signal_eof u c of (u, c, es) \<Rightarrow> (u, c, es, Some None))
      else
        (case e of
           UnreliableNotified is_end is_empty \<Rightarrow>
             if is_end \<and> is_empty then
               (case unreliable_signal_eof u c of (u, c, es) \<Rightarrow> (u, c, es, Some None))
             else unreliable_recv_call u c events
         | UnreliablePacket p \<Rightarrow>
             (case credit_effects (record_unreliable c 1) of
                (c, es) \<Rightarrow> (u, c, es, Some (Some (chunk_of_packet p))))
         | UnreliableChannelClosed \<Rightarrow>
             (case unreliable_signal_eof u c of (u, c, es) \<Rightarrow> (u, c, es, Some None))))"

definition unreliable_drop :: "unreliable_recv \<Rightarrow> credit_coordinator \<Rightarrow> credit_coordinator \<times> recv_effect list" where
  "unreliable_drop u c =
     (if ur_closed_signaled u then (c, []) else credit_effects (mark_unreliable_closed c))"

definition create_stream_pair :: "mani_stream_id \<Rightarrow> nat \<Rightarrow> reliable_recv \<times> unreliable_recv" where
  "create_stream_pair sid max_retransmission_buffer_size =
     (reliable_recv_new sid max_retransmission_buffer_size, unreliable_recv_new sid)"

section \<open>Sessions\<close>

text \<open>A call that returns data has consumed an event.\<close>

lemma reliable_recv_call_consumes:
  "reliable_recv_call oc r c events = Done (r', c', es, Some (Some batch), rest) \<Longrightarrow>
   length rest < length events"
proof (induction events arbitrary: r c es)
  case Nil
  then show ?case by (auto split: if_splits prod.splits)
next
  case (Cons e events)
  from Cons.prems have ne: "\<not> end_reached r" by (auto split: prod.splits)
  with Cons.prems obtain r1 c1 es1 control where "recv_select oc r c e = Done (r1, c1, es1, control)"
    by auto
  with Cons ne show ?case
    by (cases control) (auto simp: less_SucI)
qed

text \<open>
  The application calls \<open>recv\<close> until it returns \<open>None\<close>: the batches it gets, and whether
  the end was reached or the last call still waits.
\<close>

function recv_session ::
  "bool \<Rightarrow> reliable_recv \<Rightarrow> credit_coordinator \<Rightarrow> recv_event list \<Rightarrow>
   (reliable_recv \<times> credit_coordinator \<times> recv_effect list \<times> chunk list list \<times> bool) outcome" where
  "recv_session oc r c events =
     bind_outcome (reliable_recv_call oc r c events) (\<lambda>(r, c, es, value, rest).
       case value of
         None \<Rightarrow> Done (r, c, es, [], False)
       | Some None \<Rightarrow> Done (r, c, es, [], True)
       | Some (Some batch) \<Rightarrow>
           bind_outcome (recv_session oc r c rest) (\<lambda>(r, c, es', batches, ended).
             Done (r, c, es @ es', batch # batches, ended)))"
  by pat_completeness auto

termination recv_session
  by (relation "measure (\<lambda>(oc, r, c, events). length events)")
    (auto dest: reliable_recv_call_consumes)

declare recv_session.simps [simp del]

text \<open>A session one event at a time.\<close>

lemma recv_session_Nil:
  "recv_session oc r c [] =
     (if end_reached r then (case recv_at_end r c of (r, c, es) \<Rightarrow> Done (r, c, es, [], True))
      else Done (r, c, [], [], False))"
  by (simp add: recv_session.simps [of oc r c "[]"] split: prod.splits)

lemma recv_session_Cons:
  assumes "\<not> end_reached r"
  shows "recv_session oc r c (e # events) =
     bind_outcome (recv_select oc r c e) (\<lambda>(r, c, es, control).
       case control of
         Return None \<Rightarrow> Done (r, c, es, [], True)
       | Return (Some batch) \<Rightarrow>
           bind_outcome (recv_session oc r c events) (\<lambda>(r, c, es', batches, ended).
             Done (r, c, es @ es', batch # batches, ended))
       | Continue \<Rightarrow>
           bind_outcome (recv_session oc r c events) (\<lambda>(r, c, es', batches, ended).
             Done (r, c, es @ es', batches, ended)))"
proof (cases "recv_select oc r c e")
  case Panic
  then show ?thesis using assms by (simp add: recv_session.simps [of oc r c "e # events"])
next
  case (Done x)
  obtain r1 c1 es1 control where x: "x = (r1, c1, es1, control)" by (cases x)
  show ?thesis
  proof (cases control)
    case Continue
    show ?thesis
    proof (cases "reliable_recv_call oc r1 c1 events")
      case Panic
      then show ?thesis
        using assms Done x Continue
        by (simp add: recv_session.simps [of oc r c "e # events"] recv_session.simps [of oc r1 c1 events])
    next
      case call: (Done y)
      obtain r2 c2 es2 v rest where y: "y = (r2, c2, es2, v, rest)" by (cases y)
      show ?thesis
        using assms Done x Continue call y
        by (cases "recv_session oc r2 c2 rest")
          (auto simp: recv_session.simps [of oc r c "e # events"] recv_session.simps [of oc r1 c1 events]
            split: option.splits)
    qed
  next
    case (Return v)
    then show ?thesis
      using assms Done x
      by (simp add: recv_session.simps [of oc r c "e # events"] split: option.splits)
  qed
qed

lemma recv_session_at_end:
  assumes "end_reached r"
  shows "recv_session oc r c events = (case recv_at_end r c of (r, c, es) \<Rightarrow> Done (r, c, es, [], True))"
  using assms by (cases events) (simp_all add: recv_session.simps [of oc r c] split: prod.splits)

section \<open>Sessions refine the reorder buffer\<close>

fun nacks_of :: "recv_effect list \<Rightarrow> sequence_number list list" where
  "nacks_of [] = []"
| "nacks_of (ToTask (NackCommand seqs) # es) = seqs # nacks_of es"
| "nacks_of (ToTask (UpdateCredits n) # es) = nacks_of es"
| "nacks_of (EndReply # es) = nacks_of es"

lemma nacks_of_append [simp]: "nacks_of (xs @ ys) = nacks_of xs @ nacks_of ys"
  by (induction xs rule: nacks_of.induct) auto

lemma credit_effects_Pair:
  "\<exists>c es. credit_effects x = (c, es) \<and> c = fst x \<and> nacks_of es = [] \<and> EndReply \<notin> set es"
  by (cases x; cases "snd x") (auto simp: credit_effects_def)

text \<open>The coordinator after the batches of a session have been recorded.\<close>

definition record_batches :: "credit_coordinator \<Rightarrow> nat list \<Rightarrow> credit_coordinator" where
  "record_batches c ns = foldl (\<lambda>c n. fst (coord_op c (RecordReliable n))) c ns"

text \<open>One packet, against one step of the reorder buffer.\<close>

lemma recv_packet_Done:
  assumes push: "assembler_push_state oc (rr_assembler r) (pkt_sequence_number p) p = Done a1"
    and gap: "assembler_missing_sequence_numbers oc a1 = Done gap"
    and read: "assembler_read_ordered oc a1 = Done (a2, out)"
  shows "\<exists>es. recv_packet oc r c p =
       Done (r\<lparr> rr_assembler := a2 \<rparr>, record_batches c (if out = [] then [] else [length out]), es,
             if out = [] then Continue else Return (Some (map chunk_of_packet out))) \<and>
     nacks_of es = (if gap = [] then [] else [gap]) \<and> EndReply \<notin> set es"
proof -
  obtain pushed where push': "assembler_push oc (rr_assembler r) (pkt_sequence_number p) p = Done (a1, pushed)"
    using push by (auto simp: assembler_push_state_def)
  obtain c1 es1 where ce: "credit_effects (record_reliable c (length out)) = (c1, es1)"
      "c1 = fst (record_reliable c (length out))" "nacks_of es1 = []" "EndReply \<notin> set es1"
    using credit_effects_Pair [of "record_reliable c (length out)"] by auto
  show ?thesis
    using push' gap read ce by (auto simp: recv_packet_def Let_def record_batches_def)
qed

lemma recv_packet_Panic:
  assumes "bind_outcome (assembler_push_state oc (rr_assembler r) (pkt_sequence_number p) p) (\<lambda>a.
     bind_outcome (assembler_missing_sequence_numbers oc a) (\<lambda>gap. assembler_read_ordered oc a)) = Panic"
  shows "recv_packet oc r c p = Panic"
proof (cases "assembler_push oc (rr_assembler r) (pkt_sequence_number p) p")
  case (Done x)
  then obtain a pushed where push: "assembler_push oc (rr_assembler r) (pkt_sequence_number p) p = Done (a, pushed)"
    by (cases x) auto
  then have "bind_outcome (assembler_missing_sequence_numbers oc a) (\<lambda>gap. assembler_read_ordered oc a) = Panic"
    using assms by (simp add: assembler_push_state_def)
  then show ?thesis
    using push by (auto simp: recv_packet_def bind_outcome_eq_Panic Let_def)
qed (simp add: recv_packet_def)

text \<open>
  Arrivals of packets: the batches a session returns are what the reorder buffer delivers,
  the NACKs it sends are the gaps the buffer notes, and the credits it records are the sizes
  of the batches.  What follows in the session starts from the buffer's state.
\<close>

lemma recv_session_packets:
  assumes "rr_pending_end r = None" and "assemble_all oc (rr_assembler r) ps = Done (a', gaps, out)"
  shows "\<exists>es batches. concat batches = map chunk_of_packet out \<and> [] \<notin> set batches \<and>
     nacks_of es = filter (\<lambda>g. g \<noteq> []) gaps \<and> EndReply \<notin> set es \<and>
     (\<forall>later. recv_session oc r c (map PacketReceived ps @ later) =
        bind_outcome (recv_session oc (r\<lparr> rr_assembler := a' \<rparr>) (record_batches c (map length batches)) later)
          (\<lambda>(r, c, es', bs, ended). Done (r, c, es @ es', batches @ bs, ended)))"
  using assms
proof (induction ps arbitrary: r c gaps out)
  case Nil
  then have eqs: "r\<lparr> rr_assembler := a' \<rparr> = r" "gaps = []" "out = []" by auto
  have "bind_outcome x (\<lambda>(r, c, es', bs, ended). Done (r, c, [] @ es', [] @ bs, ended)) = x"
    for x :: "(reliable_recv \<times> credit_coordinator \<times> recv_effect list \<times> chunk list list \<times> bool) outcome"
    by (cases x) auto
  then show ?case
    by (intro exI [of _ "[]"]) (simp add: record_batches_def eqs)
next
  case (Cons p ps)
  from Cons.prems(2) obtain a1 gap a2 out1 gaps2 out2 where
    step: "assembler_push_state oc (rr_assembler r) (pkt_sequence_number p) p = Done a1"
      "assembler_missing_sequence_numbers oc a1 = Done gap" "assembler_read_ordered oc a1 = Done (a2, out1)"
    and rest: "assemble_all oc a2 ps = Done (a', gaps2, out2)"
    and gaps: "gaps = gap # gaps2" and out: "out = out1 @ out2"
    by auto
  let ?c = "record_batches c (if out1 = [] then [] else [length out1])"
  obtain es1 where one: "recv_packet oc r c p =
       Done (r\<lparr> rr_assembler := a2 \<rparr>, ?c, es1,
             if out1 = [] then Continue else Return (Some (map chunk_of_packet out1)))"
    and es1: "nacks_of es1 = (if gap = [] then [] else [gap])" "EndReply \<notin> set es1"
    using recv_packet_Done [OF step] by blast
  obtain es2 bs2 where bs2: "concat bs2 = map chunk_of_packet out2" "[] \<notin> set bs2"
      "nacks_of es2 = filter (\<lambda>g. g \<noteq> []) gaps2" "EndReply \<notin> set es2"
    and tail: "\<And>later. recv_session oc (r\<lparr> rr_assembler := a2 \<rparr>) ?c (map PacketReceived ps @ later) =
        bind_outcome (recv_session oc (r\<lparr> rr_assembler := a' \<rparr>) (record_batches ?c (map length bs2)) later)
          (\<lambda>(r, c, es', bs, ended). Done (r, c, es2 @ es', bs2 @ bs, ended))"
    using Cons.IH [of "r\<lparr> rr_assembler := a2 \<rparr>" gaps2 out2 ?c] Cons.prems(1) rest by auto
  let ?bs = "(if out1 = [] then [] else [map chunk_of_packet out1]) @ bs2"
  have ne: "\<not> end_reached r" using Cons.prems(1) by (simp add: end_reached_def)
  have "recv_session oc r c (map PacketReceived (p # ps) @ later) =
      bind_outcome (recv_session oc (r\<lparr> rr_assembler := a' \<rparr>) (record_batches c (map length ?bs)) later)
        (\<lambda>(r, c, es', bs, ended). Done (r, c, (es1 @ es2) @ es', ?bs @ bs, ended))" for later
    using one tail [of later]
    by (cases "recv_session oc (r\<lparr> rr_assembler := a' \<rparr>) (record_batches ?c (map length bs2)) later")
      (auto simp: recv_session_Cons [OF ne] record_batches_def split: if_splits)
  moreover have "nacks_of (es1 @ es2) = filter (\<lambda>g. g \<noteq> []) gaps" using es1 bs2 gaps by simp
  moreover have "concat ?bs = map chunk_of_packet out" "[] \<notin> set ?bs" using bs2 out by auto
  moreover have "EndReply \<notin> set (es1 @ es2)" using es1 bs2 by simp
  ultimately show ?case by (intro exI [of _ "es1 @ es2"] exI [of _ ?bs]) blast
qed

lemma recv_session_packets_Panic:
  assumes "rr_pending_end r = None" and "assemble_all oc (rr_assembler r) ps = Panic"
  shows "recv_session oc r c (map PacketReceived ps @ later) = Panic"
  using assms
proof (induction ps arbitrary: r c)
  case (Cons p ps)
  have ne: "\<not> end_reached r" using Cons.prems(1) by (simp add: end_reached_def)
  show ?case
  proof (cases "bind_outcome (assembler_push_state oc (rr_assembler r) (pkt_sequence_number p) p) (\<lambda>a.
     bind_outcome (assembler_missing_sequence_numbers oc a) (\<lambda>gap. assembler_read_ordered oc a))")
    case Panic
    from recv_packet_Panic [OF this] show ?thesis by (simp add: recv_session_Cons [OF ne])
  next
    case (Done x)
    then obtain a1 gap a2 out1 where
      step: "assembler_push_state oc (rr_assembler r) (pkt_sequence_number p) p = Done a1"
        "assembler_missing_sequence_numbers oc a1 = Done gap" "assembler_read_ordered oc a1 = Done (a2, out1)"
      by (cases x) auto
    then have "assemble_all oc a2 ps = Panic"
      using Cons.prems(2) by (cases "assemble_all oc a2 ps") auto
    then have "recv_session oc (r\<lparr> rr_assembler := a2 \<rparr>) c1 (map PacketReceived ps @ later) = Panic" for c1
      using Cons.IH [of "r\<lparr> rr_assembler := a2 \<rparr>"] Cons.prems(1) by simp
    with recv_packet_Done [OF step, of c] show ?thesis
      by (auto simp: recv_session_Cons [OF ne])
  qed
qed simp

section \<open>The end of a transfer\<close>

lemma recv_at_end_eq:
  "\<exists>c' es. recv_at_end r c = (r\<lparr> rr_pending_end := None, rr_closed_signaled := True \<rparr>, c', EndReply # es)"
  using credit_effects_Pair [of "mark_reliable_closed c"]
  by (auto simp: recv_at_end_def reliable_signal_eof_def)

lemma recv_session_end_transfer:
  assumes "rr_pending_end r = None" and "\<not> rr_closed_signaled r"
  shows "\<exists>r' c' es. recv_session oc r c [PipelineCommand (PipelineEndTransfer f)] =
       Done (r', c', es, [], seq_nat f < asm_next (rr_assembler r)) \<and>
     (EndReply \<in> set es \<longleftrightarrow> seq_nat f < asm_next (rr_assembler r)) \<and>
     (rr_closed_signaled r' \<longleftrightarrow> seq_nat f < asm_next (rr_assembler r)) \<and> rr_assembler r' = rr_assembler r"
proof -
  let ?r = "r\<lparr> rr_pending_end := Some f \<rparr>"
  have reached: "end_reached ?r \<longleftrightarrow> seq_nat f < asm_next (rr_assembler r)"
    by (simp add: end_reached_def seq_less_nat asm_next_def)
  have "\<not> end_reached r" using assms(1) by (simp add: end_reached_def)
  then show ?thesis
    using recv_at_end_eq [of ?r c] assms(2)
    by (cases "end_reached ?r") (auto simp: recv_session_Cons recv_session_Nil reached)
qed

text \<open>With overflow checks, the cursor counts the packets delivered.\<close>

lemma read_ordered_loop_cursor:
  "read_ordered_loop True cursor ps = Done (payloads, cursor', ps') \<Longrightarrow>
   seq_nat cursor' = seq_nat cursor + length payloads"
proof (induction True cursor ps arbitrary: payloads rule: read_ordered_loop.induct)
  case (2 cursor p ps)
  then obtain c payloads' where c: "seq_add True cursor (SequenceNumber 1) = Done c"
    and loop: "read_ordered_loop True c ps = Done (payloads', cursor', ps')" and "payloads = p # payloads'"
    by auto
  have one: "seq_nat (SequenceNumber 1) = 1" by (simp add: seq_nat_def)
  have "unat (seq_val cursor) + unat (1 :: u32) < 2 ^ 32"
    using c by (simp add: seq_add_def split: if_splits)
  then have "seq_nat c = seq_nat cursor + 1"
    using seq_add_Done [of cursor "SequenceNumber 1" True] c one by (auto simp: seq_nat_def)
  with 2(1) [OF c loop] \<open>payloads = _\<close> show ?case by simp
qed auto

lemma recv_packet_count:
  assumes "recv_packet True r c p = Done (r', c', es, control)"
  shows "asm_next (rr_assembler r') = asm_next (rr_assembler r) +
       (case control of Return (Some batch) \<Rightarrow> length batch | _ \<Rightarrow> 0) \<and>
     rr_pending_end r' = rr_pending_end r \<and> control \<noteq> Return None"
proof -
  from assms obtain a1 pushed gap a2 out where
    push: "assembler_push True (rr_assembler r) (pkt_sequence_number p) p = Done (a1, pushed)"
    and "assembler_missing_sequence_numbers True a1 = Done gap"
    and read: "assembler_read_ordered True a1 = Done (a2, out)"
    by (auto simp: recv_packet_def Let_def)
  with assms have "r' = r\<lparr> rr_assembler := a2 \<rparr>"
    and "control = (if out = [] then Continue else Return (Some (map chunk_of_packet out)))"
    by (auto simp: recv_packet_def Let_def split: prod.splits if_splits)
  moreover have "asm_cursor a1 = asm_cursor (rr_assembler r)"
    using push by (auto simp: assembler_push_def split: if_splits option.splits)
  moreover have "asm_next a2 = asm_next a1 + length out"
    using read read_ordered_loop_cursor [of "asm_cursor a1" "asm_packets a1"]
    by (auto simp: assembler_read_ordered_def asm_next_def)
  ultimately show ?thesis by (simp add: asm_next_def)
qed

lemma recv_session_count:
  assumes "recv_session True r c events = Done (r', c', es, batches, ended)"
    and "EndNotified \<notin> set events" and "PacketsClosed \<notin> set events"
  shows "asm_next (rr_assembler r') = asm_next (rr_assembler r) + length (concat batches) \<and>
     (ended \<longrightarrow> (\<exists>f. (rr_pending_end r = Some f \<or> PipelineCommand (PipelineEndTransfer f) \<in> set events) \<and>
        seq_nat f < asm_next (rr_assembler r')))"
  using assms
proof (induction events arbitrary: r c es batches)
  case Nil
  show ?case
  proof (cases "end_reached r")
    case True
    with Nil.prems(1) recv_at_end_eq [of r c] show ?thesis
      by (auto simp: recv_session_Nil end_reached_def seq_less_nat asm_next_def split: option.splits)
  qed (use Nil in \<open>simp add: recv_session_Nil\<close>)
next
  case (Cons e events)
  show ?case
  proof (cases "end_reached r")
    case True
    with Cons.prems(1) recv_at_end_eq [of r c] show ?thesis
      by (auto simp: recv_session_at_end end_reached_def seq_less_nat asm_next_def split: option.splits)
  next
    case ne: False
    show ?thesis
    proof (cases e)
      case (PipelineCommand cmd)
      then obtain f where e: "e = PipelineCommand (PipelineEndTransfer f)" by (cases cmd) auto
      with Cons.prems(1) obtain es' where
        "recv_session True (r\<lparr> rr_pending_end := Some f \<rparr>) c events = Done (r', c', es', batches, ended)"
        by (auto simp: recv_session_Cons [OF ne])
      from Cons.IH [OF this] Cons.prems(2,3) e show ?thesis by auto
    next
      case (PacketReceived p)
      with Cons.prems(1) obtain r1 c1 es1 control where
        one: "recv_packet True r c p = Done (r1, c1, es1, control)"
        by (auto simp: recv_session_Cons [OF ne])
      note count = recv_packet_count [OF one]
      have IH: "asm_next (rr_assembler r') = asm_next (rr_assembler r1) + length (concat bs) \<and>
         (ended \<longrightarrow> (\<exists>f. (rr_pending_end r1 = Some f \<or> PipelineCommand (PipelineEndTransfer f) \<in> set events) \<and>
            seq_nat f < asm_next (rr_assembler r')))"
        if "recv_session True r1 c1 events = Done (r', c', es2, bs, ended)" for es2 bs
        by (rule Cons.IH [OF that]) (use Cons.prems(2,3) in auto)
      show ?thesis
      proof (cases control)
        case Continue
        with Cons.prems(1) one PacketReceived obtain es2 where
          "recv_session True r1 c1 events = Done (r', c', es2, batches, ended)"
          by (auto simp: recv_session_Cons [OF ne])
        from IH [OF this] count Continue show ?thesis by auto
      next
        case (Return v)
        then obtain batch where v: "v = Some batch" using count by (cases v) auto
        with Cons.prems(1) one PacketReceived Return obtain es2 bs where
          rest: "recv_session True r1 c1 events = Done (r', c', es2, bs, ended)" and "batches = batch # bs"
          by (auto simp: recv_session_Cons [OF ne])
        with conjunct1 [OF IH [OF rest]] conjunct2 [OF IH [OF rest]] count Return v show ?thesis by auto
      qed
    qed (use Cons.prems in auto)
  qed
qed

section \<open>Properties\<close>

text \<open>C24: While packets arrive, the reliable stream is the reorder buffer seen from the
  application: the concatenation of the batches it returns is what the buffer delivers, no
  batch is empty, it sends a NACK naming exactly the gap after every arrival that leaves one,
  it records the size of every batch with the coordinator, and it panics only where the
  buffer does.\<close>

theorem reliable_recv_refines_buffer:
  assumes "rr_pending_end r = None"
  shows "case assemble_all oc (rr_assembler r) ps of
       Panic \<Rightarrow> recv_session oc r c (map PacketReceived ps) = Panic
     | Done (a, gaps, out) \<Rightarrow>
         \<exists>es batches. recv_session oc r c (map PacketReceived ps) =
             Done (r\<lparr> rr_assembler := a \<rparr>, record_batches c (map length batches), es, batches, False) \<and>
           concat batches = map chunk_of_packet out \<and> [] \<notin> set batches \<and>
           nacks_of es = filter (\<lambda>gap. gap \<noteq> []) gaps"
proof (cases "assemble_all oc (rr_assembler r) ps")
  case Panic
  with recv_session_packets_Panic [OF assms this, of c "[]"] show ?thesis by simp
next
  case (Done x)
  obtain a gaps out where x: "x = (a, gaps, out)" by (cases x)
  have "\<not> end_reached (r\<lparr> rr_assembler := a \<rparr>)" using assms by (simp add: end_reached_def)
  then show ?thesis
    using recv_session_packets [OF assms Done [unfolded x], of c] Done x
    by (auto simp: recv_session_Nil dest: spec [of _ "[]"])
qed

theorem reliable_recv_refines_buffer_witness:
  "recv_session True ((reliable_recv_new (ManiStreamId 1) 4)\<lparr> rr_assembler := (assembler_new 4)\<lparr> asm_cursor := SequenceNumber 2 \<rparr> \<rparr>)
     (credit_coordinator_new 1 True) [PacketReceived (plain_packet 1)] = Panic"
proof -
  let ?a = "(assembler_new 4)\<lparr> asm_cursor := SequenceNumber 2 \<rparr>"
  have "assembler_push True ?a (SequenceNumber 1) (plain_packet 1) = Panic"
    by (rule assembler_push_below) (simp_all add: asm_full_def asm_next_def assembler_new_def seq_nat_def)
  then have "assemble_all True ?a [plain_packet 1] = Panic" by (simp add: assembler_push_state_def)
  then show ?thesis
    using reliable_recv_refines_buffer [where r = "(reliable_recv_new (ManiStreamId 1) 4)\<lparr> rr_assembler := ?a \<rparr>"
        and oc = True and ps = "[plain_packet 1]" and c = "credit_coordinator_new 1 True"]
    by (simp add: reliable_recv_new_def)
qed

text \<open>After the packets of a transfer, \<open>EndTransfer\<close> ends the stream at once if
  everything up to its final sequence number has been delivered, with the answer to the
  sender and the coordinator told; otherwise nothing is answered and the stream goes on
  waiting.\<close>

lemma reliable_recv_ends:
  assumes "assemble_all oc (assembler_new n) ps = Done (a, gaps, out)"
  shows "\<exists>r' c' es batches. recv_session oc (reliable_recv_new sid n) c
         (map PacketReceived ps @ [PipelineCommand (PipelineEndTransfer f)]) =
       Done (r', c', es, batches, seq_nat f < asm_next a) \<and>
     concat batches = map chunk_of_packet out \<and>
     (EndReply \<in> set es \<longleftrightarrow> seq_nat f < asm_next a) \<and> (rr_closed_signaled r' \<longleftrightarrow> seq_nat f < asm_next a)"
proof -
  let ?r = "reliable_recv_new sid n"
  have pend: "rr_pending_end ?r = None" and asm: "rr_assembler ?r = assembler_new n" and "\<not> rr_closed_signaled ?r"
    by (simp_all add: reliable_recv_new_def)
  obtain es batches where batches: "concat batches = map chunk_of_packet out" "EndReply \<notin> set es"
    and session: "\<And>later. recv_session oc ?r c (map PacketReceived ps @ later) =
        bind_outcome (recv_session oc (?r\<lparr> rr_assembler := a \<rparr>) (record_batches c (map length batches)) later)
          (\<lambda>(r, c, es', bs, ended). Done (r, c, es @ es', batches @ bs, ended))"
    using recv_session_packets [OF pend assms [folded asm], of c] by blast
  obtain r' c' es' where "recv_session oc (?r\<lparr> rr_assembler := a \<rparr>) (record_batches c (map length batches))
       [PipelineCommand (PipelineEndTransfer f)] = Done (r', c', es', [], seq_nat f < asm_next a)"
     "EndReply \<in> set es' \<longleftrightarrow> seq_nat f < asm_next a" "rr_closed_signaled r' \<longleftrightarrow> seq_nat f < asm_next a"
    using recv_session_end_transfer [of "?r\<lparr> rr_assembler := a \<rparr>" oc "record_batches c (map length batches)" f]
    by (auto simp: reliable_recv_new_def)
  with batches session show ?thesis by auto
qed



end
