(* ===== verification/Mani_Stream.thy ===== *)
theory Mani_Stream
  imports Mani_Codec Reassembly Recv_Stream
begin

text \<open>
  The task behind a Mani stream, \<^verbatim>\<open>src/src/mani/stream.rs\<close>: it owns the framed control
  stream, plays the role of a sender or a receiver, and connects the send and receive
  streams of a transfer with the peer's messages.  Every handler is one definition; the
  channels and the connection answer through an environment record, and what a handler does
  to the outside is a list of effects.
\<close>

section \<open>State\<close>

text \<open>
  A oneshot or channel end is known by a number where it is stored.  The retransmission
  buffer of the sender role is the one the send stream writes.
\<close>

datatype mani_stream_role =
    UnknownRole
  | SenderRole (retransmission_buffer: "sequence_number \<Rightarrow> packet list option")
      (transfer_end_ack_sender: "response_id option")
  | ReceiverRole (pipeline_command_sender: bool) (initial_sequence_number: "sequence_number option")

datatype mani_stream_command =
    StartTransfer transfer_mode compression_type sequence_number "u64 option" response_id
  | EndTransfer sequence_number response_id
  | SendPayload bytes response_id

datatype mani_stream_error = StreamClosed | ExpectedPayload | ExpectedTransfer

datatype mani_transfer_recv_streams =
    DualStreams reliable_recv unreliable_recv
  | UnreliableOnlyStreams unreliable_recv

datatype mani_recv_message = TransferMessage mani_transfer_recv_streams | PayloadMessage bytes

record 's stream_task =
  st_id :: mani_stream_id
  st_max_retransmission_buffer_size :: nat
  st_max_datagram_channel_size :: nat
  st_max_chunk_buffer_size :: nat
  st_credits_bulk_update_count :: nat
  st_max_datagram_size :: "nat option"
  st_role :: mani_stream_role
  st_is_ended :: bool
  st_backpressure_bank :: "'s backpressure_bank"
  st_pending_ack_count :: nat
  st_credits_request_interval :: "nat option"

section \<open>Environment and effects\<close>

text \<open>
  The answers a handler gets: the sink's to its \<open>i\<close>-th frame, whether the application's
  channel, the pipeline's channel and the datagram channel took a message, and the
  connection's datagram size.
\<close>

datatype try_send_result = TrySendOk | TrySendFull | TrySendClosed

record stream_env =
  env_tx :: "nat \<Rightarrow> bytes \<Rightarrow> string + unit"
  env_message_sent :: bool
  env_pipeline_sent :: bool
  env_retrans_try_send :: try_send_result
  env_quic_max_datagram_size :: "nat option"

text \<open>
  Effects: frames written, answers to requests, the task that waits for an acknowledgement
  and what it is told, the registration with the router, the receiver task of a transfer,
  messages for the application, commands for the pipeline and the task that waits for its
  reply, packets put on the datagram channel, and the end notification.
\<close>

datatype stream_effect =
    Wrote mani_message
  | RespondStart response_id "transfer_send_error + send_stream"
  | RespondEnd response_id "transfer_send_error + unit"
  | RespondPayload response_id "mani_stream_error + unit"
  | AwaitAck response_id
  | AckSignalled response_id
  | AckDropped response_id
  | RegisterStream mani_stream_id
  | SpawnReceiver packet_receiver credit_coordinator
  | ForwardMessage mani_recv_message
  | ToPipeline recv_pipeline_command
  | AwaitPipelineReply
  | RetransDelivered packet
  | NotifyEnd
  | WriterClosed

text \<open>A frame: the effect when the sink took it, and its answer.\<close>

definition write_effect ::
  "buf_ops \<Rightarrow> stream_env \<Rightarrow> nat \<Rightarrow> mani_message \<Rightarrow> stream_effect list \<times> (string + unit)" where
  "write_effect B env i message =
     (case write_frame B (env_tx env i) message of
        Inl err \<Rightarrow> ([], Inl err)
      | Inr u \<Rightarrow> ([Wrote message], Inr u))"

text \<open>A frame whose failure ends the task.\<close>

definition write_or_stop ::
  "buf_ops \<Rightarrow> stream_env \<Rightarrow> mani_message \<Rightarrow> stream_effect list \<times> bool" where
  "write_or_stop B env message =
     (case write_effect B env 0 message of (es, r) \<Rightarrow> (es, (case r of Inl _ \<Rightarrow> False | Inr _ \<Rightarrow> True)))"

section \<open>Commands from the streams of a transfer\<close>

definition handle_sender_command ::
  "buf_ops \<Rightarrow> stream_env \<Rightarrow> 's stream_task \<Rightarrow> recv_sender_command \<Rightarrow>
   's stream_task \<times> stream_effect list \<times> bool" where
  "handle_sender_command B env t command =
     (case command of
        UpdateCredits credits \<Rightarrow>
          (t, write_or_stop B env (TransferCreditsUpdate \<lparr> additional_credits = credits \<rparr>))
      | NackCommand seqs \<Rightarrow>
          (t, write_or_stop B env (Nack \<lparr> nack_sequence_numbers = seqs \<rparr>)))"

definition dropped_ack :: "mani_stream_role \<Rightarrow> stream_effect list" where
  "dropped_ack role =
     (case role of SenderRole _ (Some pending) \<Rightarrow> [AckDropped pending] | _ \<Rightarrow> [])"

text \<open>
  \<open>end_transfer_internal\<close>: a new acknowledgement channel replaces an older one, which is
  dropped; then \<open>TransferEnd\<close> and a last batch of credits are written.
\<close>

definition end_transfer_internal ::
  "buf_ops \<Rightarrow> stream_env \<Rightarrow> 's stream_task \<Rightarrow> sequence_number \<Rightarrow> response_id \<Rightarrow>
   's stream_task \<times> stream_effect list \<times> (transfer_send_error + response_id)" where
  "end_transfer_internal B env t final response =
     (case st_role t of
        SenderRole buffer ack \<Rightarrow>
          (let dropped = dropped_ack (st_role t);
               t = t\<lparr> st_role := SenderRole buffer (Some response) \<rparr>
           in case write_effect B env 0 (TransferEnd \<lparr> final_sequence_number = final \<rparr>) of
                (es, Inl err) \<Rightarrow> (t, dropped @ es, Inl (DatagramSendFailed err))
              | (es, Inr _) \<Rightarrow>
                  (case write_effect B env 1 (TransferCreditsUpdate
                          \<lparr> additional_credits = st_credits_bulk_update_count t \<rparr>) of
                     (es', Inl err) \<Rightarrow> (t, dropped @ es @ es', Inl (DatagramSendFailed err))
                   | (es', Inr _) \<Rightarrow> (t, dropped @ es @ es', Inr response)))
      | _ \<Rightarrow> (t, [], Inl (DatagramSendFailed ''Not in Sender role'')))"

text \<open>\<open>end\<close> of the task: the flag is set and the waiting streams are woken.\<close>

definition task_end :: "'s stream_task \<Rightarrow> 's stream_task" where
  "task_end t = t\<lparr> st_is_ended := True \<rparr>"

text \<open>A request to end the transfer, from the send stream or from the handle.\<close>

definition handle_end_transfer ::
  "buf_ops \<Rightarrow> stream_env \<Rightarrow> 's stream_task \<Rightarrow> sequence_number \<Rightarrow> response_id \<Rightarrow>
   's stream_task \<times> stream_effect list \<times> bool" where
  "handle_end_transfer B env t final response =
     (case end_transfer_internal B env t final response of
        (t, es, Inr ack) \<Rightarrow> (t, es @ [AwaitAck ack], True)
      | (t, es, Inl err) \<Rightarrow> (t, es @ [RespondEnd response (Inl err)], True))"

definition handle_transfer_send_command ::
  "buf_ops \<Rightarrow> stream_env \<Rightarrow> 's stream_task \<Rightarrow> transfer_send_command \<Rightarrow>
   's stream_task \<times> stream_effect list \<times> bool" where
  "handle_transfer_send_command B env t command =
     (case command of
        EndTransferCommand final response \<Rightarrow> handle_end_transfer B env t final response
      | SendTransferEndAck \<Rightarrow>
          (let t = task_end (t\<lparr> st_pending_ack_count := st_pending_ack_count t - 1 \<rparr>)
           in case write_or_stop B env TransferEndAck of
                (es, go) \<Rightarrow> (t, NotifyEnd # es, go)))"

text \<open>
  The task spawned by a request to end waits at most five seconds for the acknowledgement
  channel, which is signalled or dropped.
\<close>

datatype ack_outcome = AckArrived | AckChannelClosed | AckTimeout

fun await_ack_response :: "ack_outcome \<Rightarrow> transfer_send_error + unit" where
  "await_ack_response AckArrived = Inr ()"
| "await_ack_response AckChannelClosed = Inl (DatagramSendFailed ''TransferEndAck channel closed'')"
| "await_ack_response AckTimeout = Inl (DatagramSendFailed ''Timeout waiting for TransferEndAck'')"

section \<open>Commands from the handle\<close>

definition start_transfer_internal ::
  "buf_ops \<Rightarrow> compression_libs \<Rightarrow> stream_env \<Rightarrow> 's stream_task \<Rightarrow> transfer_mode \<Rightarrow> compression_type \<Rightarrow>
   sequence_number \<Rightarrow> u64 option \<Rightarrow> 's stream_task \<times> stream_effect list \<times> (transfer_send_error + send_stream)" where
  "start_transfer_internal B L env t mode ct initial data_size =
     (case to_boxed_compression L ct of
        None \<Rightarrow> (t, [], Inl CompressionFailed)
      | Some compression_impl \<Rightarrow>
          (case write_effect B env 0 (TransferStart
                  \<lparr> start_mode = mode, start_compression_type = ct,
                    start_initial_sequence_number = initial, start_data_size = data_size \<rparr>) of
             (es, Inl err) \<Rightarrow> (t, es, Inl (DatagramSendFailed err))
           | (es, Inr _) \<Rightarrow>
               (t\<lparr> st_role := SenderRole Map.empty None \<rparr>, es @ dropped_ack (st_role t),
                Inr (send_stream_new (st_id t) mode compression_impl initial
                       (st_max_retransmission_buffer_size t) Map.empty
                       (case st_max_datagram_size t of
                          Some m \<Rightarrow> Some m
                        | None \<Rightarrow> env_quic_max_datagram_size env)))))"

definition handle_command ::
  "buf_ops \<Rightarrow> compression_libs \<Rightarrow> stream_env \<Rightarrow> 's stream_task \<Rightarrow> mani_stream_command \<Rightarrow>
   's stream_task \<times> stream_effect list \<times> bool" where
  "handle_command B L env t command =
     (case command of
        StartTransfer mode ct initial data_size response \<Rightarrow>
          (case start_transfer_internal B L env t mode ct initial data_size of
             (t, es, r) \<Rightarrow> (t, es @ [RespondStart response r], True))
      | EndTransfer final response \<Rightarrow> handle_end_transfer B env t final response
      | SendPayload pl response \<Rightarrow>
          (case write_effect B env 0 (Payload \<lparr> payload_bytes = pl \<rparr>) of
             (es, r) \<Rightarrow> (t, es @ [RespondPayload response (map_err (\<lambda>_. StreamClosed) r)], True)))"

section \<open>Messages from the peer\<close>

text \<open>
  \<open>TransferStart\<close> sets up the receiving side.  Creating a channel of capacity 0 panics.
\<close>

definition handle_transfer_start ::
  "buf_ops \<Rightarrow> compression_libs \<Rightarrow> stream_env \<Rightarrow> 's stream_task \<Rightarrow> transfer_start \<Rightarrow>
   ('s stream_task \<times> stream_effect list \<times> bool) outcome" where
  "handle_transfer_start B L env t start =
     (case to_boxed_compression L (start_compression_type start) of
        Some cmp \<Rightarrow>
          if st_max_datagram_channel_size t = 0 then Panic
          else
            (let is_dual = (start_mode start = Dual);
                 coord = credit_coordinator_new (st_credits_bulk_update_count t) is_dual;
                 receiver = packet_receiver_new (if is_dual then 2 else 1) cmp (st_max_chunk_buffer_size t);
                 streams =
                   (if is_dual
                    then (case create_stream_pair (st_id t) (st_max_retransmission_buffer_size t) of
                            (rel, unrel) \<Rightarrow> DualStreams rel unrel)
                    else UnreliableOnlyStreams (unreliable_recv_new (st_id t)));
                 dropped = dropped_ack (st_role t);
                 t = t\<lparr> st_role := ReceiverRole is_dual (Some (start_initial_sequence_number start)) \<rparr>;
                 es = RegisterStream (st_id t) # SpawnReceiver receiver coord # dropped
             in if env_message_sent env
                then Done (t, es @ [ForwardMessage (TransferMessage streams)], True)
                else Done (t, es, False))
      | None \<Rightarrow>
          (case write_effect B env 0 (TransferError \<lparr> error_code = UnsupportedCompression \<rparr>) of
             (es, _) \<Rightarrow> Done (t, es, True)))"

definition handle_payload ::
  "stream_env \<Rightarrow> 's stream_task \<Rightarrow> mani_payload \<Rightarrow> 's stream_task \<times> stream_effect list \<times> bool" where
  "handle_payload env t pl =
     (if env_message_sent env then (t, [ForwardMessage (PayloadMessage (payload_bytes pl))], True)
      else (t, [], False))"

text \<open>One message per stored packet of every sequence number that is in the buffer.\<close>

definition retrans_of :: "sequence_number \<Rightarrow> packet \<Rightarrow> mani_retrans" where
  "retrans_of seq_num packet =
     \<lparr> retrans_sequence_number = seq_num, retrans_timestamp = pkt_timestamp packet,
       retrans_payload = pkt_content packet \<rparr>"

fun retrans_messages ::
  "(sequence_number \<Rightarrow> packet list option) \<Rightarrow> sequence_number list \<Rightarrow> mani_retrans list" where
  "retrans_messages buffer [] = []"
| "retrans_messages buffer (seq_num # seqs) =
     (case buffer seq_num of
        Some packets \<Rightarrow> map (retrans_of seq_num) packets
      | None \<Rightarrow> []) @ retrans_messages buffer seqs"

fun write_retrans ::
  "buf_ops \<Rightarrow> stream_env \<Rightarrow> nat \<Rightarrow> mani_retrans list \<Rightarrow> stream_effect list \<times> bool" where
  "write_retrans B env i [] = ([], True)"
| "write_retrans B env i (m # ms) =
     (case write_effect B env i (Retrans m) of
        (es, Inl err) \<Rightarrow> (es, False)
      | (es, Inr _) \<Rightarrow> (case write_retrans B env (Suc i) ms of (es', go) \<Rightarrow> (es @ es', go)))"

definition handle_nack ::
  "buf_ops \<Rightarrow> stream_env \<Rightarrow> 's stream_task \<Rightarrow> mani_nack \<Rightarrow> 's stream_task \<times> stream_effect list \<times> bool" where
  "handle_nack B env t nack =
     (case st_role t of
        SenderRole buffer ack \<Rightarrow>
          (t, write_retrans B env 0 (retrans_messages buffer (nack_sequence_numbers nack)))
      | _ \<Rightarrow> (t, [], True))"

definition handle_retrans ::
  "stream_env \<Rightarrow> 's stream_task \<Rightarrow> mani_retrans \<Rightarrow> 's stream_task \<times> stream_effect list \<times> bool" where
  "handle_retrans env t retrans =
     (case st_role t of
        ReceiverRole pipeline initial \<Rightarrow>
          (let packet = \<lparr> pkt_stream_id = st_id t, pkt_sequence_number = retrans_sequence_number retrans,
                          pkt_timestamp = retrans_timestamp retrans, pkt_content = retrans_payload retrans \<rparr>
           in case env_retrans_try_send env of
                TrySendOk \<Rightarrow> (t, [RetransDelivered packet], True)
              | TrySendFull \<Rightarrow> (t, [], True)
              | TrySendClosed \<Rightarrow> (t, [], False))
      | _ \<Rightarrow> (t, [], True))"

text \<open>An acknowledgement written at once.\<close>

definition acknowledge_end ::
  "buf_ops \<Rightarrow> stream_env \<Rightarrow> 's stream_task \<Rightarrow> 's stream_task \<times> stream_effect list \<times> bool" where
  "acknowledge_end B env t =
     (case write_or_stop B env TransferEndAck of (es, go) \<Rightarrow> (task_end t, NotifyEnd # es, go))"

definition is_empty_transfer :: "sequence_number option \<Rightarrow> sequence_number \<Rightarrow> bool" where
  "is_empty_transfer initial final =
     (case initial of
        None \<Rightarrow> False
      | Some initial \<Rightarrow> seq_val final + 1 = seq_val initial)"

definition handle_transfer_end ::
  "buf_ops \<Rightarrow> stream_env \<Rightarrow> 's stream_task \<Rightarrow> transfer_end \<Rightarrow> 's stream_task \<times> stream_effect list \<times> bool" where
  "handle_transfer_end B env t te =
     (case st_role t of
        ReceiverRole pipeline initial \<Rightarrow>
          if is_empty_transfer initial (final_sequence_number te) then acknowledge_end B env t
          else if pipeline then
            (if env_pipeline_sent env
             then (t\<lparr> st_pending_ack_count := st_pending_ack_count t + 1 \<rparr>,
                   [ToPipeline (PipelineEndTransfer (final_sequence_number te)), AwaitPipelineReply], True)
             else (t, [], False))
          else acknowledge_end B env t
      | _ \<Rightarrow> (t, [], True))"

definition handle_transfer_end_ack :: "'s stream_task \<Rightarrow> 's stream_task \<times> stream_effect list \<times> bool" where
  "handle_transfer_end_ack t =
     (case st_role t of
        SenderRole buffer (Some ack) \<Rightarrow> (t\<lparr> st_role := SenderRole buffer None \<rparr>, [AckSignalled ack], True)
      | _ \<Rightarrow> (t, [], True))"

definition handle_transfer_error ::
  "'s stream_task \<Rightarrow> transfer_error \<Rightarrow> 's stream_task \<times> stream_effect list \<times> bool" where
  "handle_transfer_error t err = (t, [], True)"

declare handle_transfer_error_def [simp]

definition handle_message ::
  "buf_ops \<Rightarrow> compression_libs \<Rightarrow> 's semaphore_ops \<Rightarrow> stream_env \<Rightarrow> 's stream_task \<Rightarrow> mani_message option \<Rightarrow>
   ('s stream_task \<times> stream_effect list \<times> bool) outcome" where
  "handle_message B L S env t message =
     (case message of
        None \<Rightarrow> Done (t, [], False)
      | Some (TransferStart start) \<Rightarrow> handle_transfer_start B L env t start
      | Some (Payload pl) \<Rightarrow> Done (handle_payload env t pl)
      | Some (Nack nack) \<Rightarrow> Done (handle_nack B env t nack)
      | Some (Retrans retrans) \<Rightarrow> Done (handle_retrans env t retrans)
      | Some (TransferEnd te) \<Rightarrow> Done (handle_transfer_end B env t te)
      | Some TransferEndAck \<Rightarrow> Done (handle_transfer_end_ack t)
      | Some (TransferError err) \<Rightarrow> Done (handle_transfer_error t err)
      | Some (TransferCreditsUpdate upd) \<Rightarrow>
          bind_outcome (increase_credits S (st_backpressure_bank t) (additional_credits upd)) (\<lambda>bank.
            Done (t\<lparr> st_backpressure_bank := bank \<rparr>, [], True))
      | Some TransferCreditsRequest \<Rightarrow>
          Done (t, write_or_stop B env (TransferCreditsUpdate
                   \<lparr> additional_credits = st_credits_bulk_update_count t \<rparr>))
      | Some (Hello hello) \<Rightarrow> Done (t, [], True)
      | Some EndOfStream \<Rightarrow> Done (t, [], True))"

section \<open>The task\<close>

text \<open>What the \<open>select!\<close> of an iteration completes with.\<close>

datatype task_event =
    CommandReceived mani_stream_command
  | CommandsClosed
  | SendCommandReceived transfer_send_command
  | SendCommandsClosed
  | SenderCommandReceived recv_sender_command
  | MessageRead "(string + bytes) option"
  | CreditsTick

text \<open>
  One event, with the flag that the handle has been dropped; the result says whether the
  loop goes on.  Events of branches that an iteration does not have are ignored: without
  the handle there are no commands and no ticks, and with it a closed channel only disables
  its branch.
\<close>

definition task_event_step ::
  "buf_ops \<Rightarrow> compression_libs \<Rightarrow> 's semaphore_ops \<Rightarrow> stream_env \<Rightarrow> bool \<Rightarrow> 's stream_task \<Rightarrow> task_event \<Rightarrow>
   (bool \<times> 's stream_task \<times> stream_effect list \<times> bool) outcome" where
  "task_event_step B L S env closed t e =
     (case e of
        SendCommandReceived cmd \<Rightarrow> Done (closed, handle_transfer_send_command B env t cmd)
      | SenderCommandReceived cmd \<Rightarrow> Done (closed, handle_sender_command B env t cmd)
      | MessageRead item \<Rightarrow>
          bind_outcome (handle_message B L S env t (read_frame B item)) (\<lambda>r. Done (closed, r))
      | SendCommandsClosed \<Rightarrow>
          Done (closed, t, if closed then [WriterClosed] else [], \<not> closed)
      | CommandReceived cmd \<Rightarrow>
          Done (closed, if closed then (t, [], True) else handle_command B L env t cmd)
      | CommandsClosed \<Rightarrow> Done (True, t, [], True)
      | CreditsTick \<Rightarrow>
          Done (closed, t, if closed \<or> st_credits_request_interval t = None then ([], True)
                           else write_or_stop B env TransferCreditsRequest))"

text \<open>Whether the task, its handle dropped, has nothing left to do.\<close>

definition may_close :: "'s stream_task \<Rightarrow> bool" where
  "may_close t \<longleftrightarrow>
     st_pending_ack_count t = 0 \<and>
     \<not> ((case st_role t of ReceiverRole _ _ \<Rightarrow> True | _ \<Rightarrow> False) \<and> \<not> st_is_ended t)"

text \<open>
  \<open>run\<close>: the loop over the events, each with the answers its handler gets; leaving the
  loop shuts the bank down.  The result says whether the loop was left.
\<close>

definition task_exit :: "'s semaphore_ops \<Rightarrow> 's stream_task \<Rightarrow> 's stream_task" where
  "task_exit S t = t\<lparr> st_backpressure_bank := signal_shutdown S (st_backpressure_bank t) \<rparr>"

fun task_run ::
  "buf_ops \<Rightarrow> compression_libs \<Rightarrow> 's semaphore_ops \<Rightarrow> bool \<Rightarrow> 's stream_task \<Rightarrow> (stream_env \<times> task_event) list \<Rightarrow>
   ('s stream_task \<times> stream_effect list \<times> bool) outcome" where
  "task_run B L S closed t [] =
     (if closed \<and> may_close t then Done (task_exit S t, [WriterClosed], True)
      else Done (t, [], False))"
| "task_run B L S closed t ((env, e) # events) =
     (if closed \<and> may_close t then Done (task_exit S t, [WriterClosed], True)
      else
        bind_outcome (task_event_step B L S env closed t e) (\<lambda>(closed, t, es, go).
          if \<not> go then Done (task_exit S t, es, True)
          else bind_outcome (task_run B L S closed t events) (\<lambda>(t, es', left).
                 Done (t, es @ es', left))))"

section \<open>The handle\<close>

definition stream_pair ::
  "'s semaphore_ops \<Rightarrow> mani_stream_id \<Rightarrow> nat \<Rightarrow> nat \<Rightarrow> nat \<Rightarrow> nat \<Rightarrow> nat \<Rightarrow> nat \<Rightarrow> nat option \<Rightarrow> nat option \<Rightarrow>
   's stream_task outcome" where
  "stream_pair S sid max_retransmission max_nack_channel max_datagram_channel max_chunk_buffer
     initial_credits bulk max_datagram_size request_interval =
     (if max_nack_channel = 0 \<or> request_interval = Some 0 then Panic
      else
        bind_outcome (bank_new S initial_credits) (\<lambda>bank. Done
          \<lparr> st_id = sid, st_max_retransmission_buffer_size = max_retransmission,
            st_max_datagram_channel_size = max_datagram_channel,
            st_max_chunk_buffer_size = max_chunk_buffer, st_credits_bulk_update_count = bulk,
            st_max_datagram_size = max_datagram_size, st_role = UnknownRole, st_is_ended = False,
            st_backpressure_bank = bank, st_pending_ack_count = 0,
            st_credits_request_interval = request_interval \<rparr>))"

text \<open>The receiving methods of the handle, over what the message channel yields.\<close>

fun recv_payload :: "mani_recv_message option \<Rightarrow> mani_stream_error + bytes" where
  "recv_payload (Some (PayloadMessage bs)) = Inr bs"
| "recv_payload (Some (TransferMessage streams)) = Inl ExpectedPayload"
| "recv_payload None = Inl StreamClosed"

fun accept_transfer :: "mani_recv_message option \<Rightarrow> mani_stream_error + mani_transfer_recv_streams" where
  "accept_transfer (Some (TransferMessage streams)) = Inr streams"
| "accept_transfer (Some (PayloadMessage bs)) = Inl ExpectedTransfer"
| "accept_transfer None = Inl StreamClosed"

text \<open>
  The requesting methods send a command and wait for its response: \<open>sent\<close> is whether the
  channel took the command, \<open>reply\<close> what the oneshot delivered.
\<close>

definition handle_start_transfer ::
  "bool \<Rightarrow> (transfer_send_error + send_stream) option \<Rightarrow> transfer_send_error + send_stream" where
  "handle_start_transfer sent reply =
     (if \<not> sent then Inl (DatagramSendFailed ''Failed to send start transfer command'')
      else (case reply of
              None \<Rightarrow> Inl (DatagramSendFailed ''Failed to receive start transfer response'')
            | Some r \<Rightarrow> r))"

definition stream_end_transfer ::
  "bool \<Rightarrow> (transfer_send_error + unit) option \<Rightarrow> transfer_send_error + unit" where
  "stream_end_transfer sent reply =
     (if \<not> sent then Inl (DatagramSendFailed ''Failed to send end transfer command'')
      else (case reply of
              None \<Rightarrow> Inl (DatagramSendFailed ''Failed to receive end transfer response'')
            | Some r \<Rightarrow> r))"

definition send_payload ::
  "bool \<Rightarrow> (mani_stream_error + unit) option \<Rightarrow> mani_stream_error + unit" where
  "send_payload sent reply =
     (if \<not> sent then Inl StreamClosed
      else (case reply of None \<Rightarrow> Inl StreamClosed | Some r \<Rightarrow> r))"

section \<open>Frames that the sink takes\<close>

text \<open>A frame as the framed reader yields it.\<close>

abbreviation received :: "bytes \<Rightarrow> (string + bytes) option" where
  "received frame \<equiv> Some (Inr frame)"

lemma write_effect_ok: "env_tx env i = (\<lambda>_. Inr ()) \<Longrightarrow> write_effect B env i m = ([Wrote m], Inr ())"
  by (simp add: write_effect_def write_frame_def)

lemma write_effect_cases:
  obtains (taken) "write_effect B env i m = ([Wrote m], Inr ())"
  | (refused) err where "write_effect B env i m = ([], Inl err)"
  by (cases "env_tx env i (serialize_mani_message B m)") (auto simp: write_effect_def write_frame_def)

lemma write_or_stop_cases:
  obtains (taken) "write_or_stop B env m = ([Wrote m], True)"
  | (refused) "write_or_stop B env m = ([], False)"
  by (rule write_effect_cases [of B env 0 m]) (auto simp: write_or_stop_def)

lemma write_retrans_ok:
  "(\<And>i. env_tx env i = (\<lambda>_. Inr ())) \<Longrightarrow>
   write_retrans B env i ms = (map (\<lambda>m. Wrote (Retrans m)) ms, True)"
  by (induction ms arbitrary: i) (simp_all add: write_effect_ok)

section \<open>Acknowledgements owed\<close>

text \<open>The ends handed to the pipeline and the acknowledgements written, in a list of effects.\<close>

definition pipeline_ends :: "stream_effect list \<Rightarrow> nat" where
  "pipeline_ends es = length (filter (\<lambda>e. case e of ToPipeline c \<Rightarrow> True | _ \<Rightarrow> False) es)"

definition end_acks :: "stream_effect list \<Rightarrow> nat" where
  "end_acks es = length (filter (\<lambda>e. e = Wrote TransferEndAck) es)"

lemma effect_counts [simp]:
  "pipeline_ends [] = 0" "end_acks [] = 0"
  "pipeline_ends (e # es) = (case e of ToPipeline c \<Rightarrow> 1 | _ \<Rightarrow> 0) + pipeline_ends es"
  "end_acks (e # es) = (if e = Wrote TransferEndAck then 1 else 0) + end_acks es"
  "pipeline_ends (es @ fs) = pipeline_ends es + pipeline_ends fs"
  "end_acks (es @ fs) = end_acks es + end_acks fs"
  by (simp_all add: pipeline_ends_def end_acks_def split: stream_effect.split)

text \<open>
  What a handler that goes on keeps: it closes nothing, and what it hands to the pipeline
  is owed afterwards.
\<close>

definition keeps_owed :: "'s stream_task \<Rightarrow> 's stream_task \<times> stream_effect list \<times> bool \<Rightarrow> bool" where
  "keeps_owed t r =
     (case r of (t', es, go) \<Rightarrow>
        WriterClosed \<notin> set es \<and>
        (go \<longrightarrow> pipeline_ends es + st_pending_ack_count t \<le> st_pending_ack_count t' + end_acks es))"

lemma keeps_owed_write:
  "keeps_owed t (t, write_or_stop B env m)"
  by (rule write_or_stop_cases [of B env m]) (auto simp: keeps_owed_def)

lemma keeps_owed_dropped:
  "WriterClosed \<notin> set (dropped_ack role)" "pipeline_ends (dropped_ack role) = 0" "end_acks (dropped_ack role) = 0"
  by (auto simp: dropped_ack_def split: mani_stream_role.split option.split)

lemma keeps_owed_end_transfer: "keeps_owed t (handle_end_transfer B env t final response)"
proof (cases "st_role t")
  case (SenderRole buffer ack)
  show ?thesis
    by (rule write_effect_cases [of B env 0 "TransferEnd \<lparr> final_sequence_number = final \<rparr>"];
        rule write_effect_cases [of B env 1 "TransferCreditsUpdate \<lparr> additional_credits = st_credits_bulk_update_count t \<rparr>"])
      (simp_all add: handle_end_transfer_def end_transfer_internal_def SenderRole Let_def keeps_owed_def
        keeps_owed_dropped)
qed (simp_all add: handle_end_transfer_def end_transfer_internal_def keeps_owed_def)

lemma keeps_owed_send_command: "keeps_owed t (handle_transfer_send_command B env t cmd)"
proof (cases cmd)
  case SendTransferEndAck
  then show ?thesis
    by (cases rule: write_or_stop_cases [of B env TransferEndAck])
      (auto simp: handle_transfer_send_command_def keeps_owed_def task_end_def)
qed (simp add: handle_transfer_send_command_def keeps_owed_end_transfer)

lemma keeps_owed_sender_command: "keeps_owed t (handle_sender_command B env t cmd)"
  by (cases cmd) (simp_all add: handle_sender_command_def keeps_owed_write)

lemma keeps_owed_command: "keeps_owed t (handle_command B L env t cmd)"
proof (cases cmd)
  case (StartTransfer mode ct initial data_size response)
  obtain c where "to_boxed_compression L ct = Some c" using to_boxed_compression_total by blast
  then show ?thesis
    by (cases rule: write_effect_cases [of B env 0 "TransferStart
                  \<lparr> start_mode = mode, start_compression_type = ct,
                    start_initial_sequence_number = initial, start_data_size = data_size \<rparr>"])
      (auto simp: handle_command_def start_transfer_internal_def StartTransfer keeps_owed_def keeps_owed_dropped)
next
  case (EndTransfer final response)
  then show ?thesis by (simp add: handle_command_def keeps_owed_end_transfer)
next
  case (SendPayload pl response)
  then show ?thesis
    by (cases rule: write_effect_cases [of B env 0 "Payload \<lparr> payload_bytes = pl \<rparr>"])
      (auto simp: handle_command_def keeps_owed_def)
qed

lemma keeps_owed_acknowledge: "keeps_owed t (acknowledge_end B env t)"
  by (cases rule: write_or_stop_cases [of B env TransferEndAck])
    (auto simp: acknowledge_end_def keeps_owed_def task_end_def)

lemma keeps_owed_transfer_end: "keeps_owed t (handle_transfer_end B env t te)"
  using keeps_owed_acknowledge [of t B env]
  by (cases "st_role t") (auto simp: handle_transfer_end_def keeps_owed_def)

lemma keeps_owed_retrans:
  "write_retrans B env i ms = (es, go) \<Longrightarrow> WriterClosed \<notin> set es \<and> pipeline_ends es = 0"
proof (induction ms arbitrary: i es)
  case (Cons m ms)
  then show ?case
    by (cases rule: write_effect_cases [of B env i "Retrans m"]) (auto split: prod.splits)
qed simp

lemma keeps_owed_nack: "keeps_owed t (handle_nack B env t nack)"
  by (cases "st_role t")
    (auto simp: handle_nack_def keeps_owed_def split: prod.split dest: keeps_owed_retrans)

lemma keeps_owed_message:
  assumes "handle_message B L S env t message = Done r"
  shows "keeps_owed t r"
proof (cases message)
  case None
  then show ?thesis using assms by (auto simp: handle_message_def keeps_owed_def)
next
  case (Some m)
  show ?thesis
  proof (cases m)
    case (TransferStart start)
    obtain c where "to_boxed_compression L (start_compression_type start) = Some c"
      using to_boxed_compression_total by blast
    then show ?thesis
      using assms Some TransferStart
      by (auto simp: handle_message_def handle_transfer_start_def Let_def keeps_owed_def keeps_owed_dropped
          split: if_splits)
  next
    case (Payload pl)
    then show ?thesis
      using assms Some by (auto simp: handle_message_def handle_payload_def keeps_owed_def split: if_splits)
  next
    case (Retrans m)
    then show ?thesis
      using assms Some
      by (cases "st_role t"; cases "env_retrans_try_send env")
        (auto simp: handle_message_def handle_retrans_def keeps_owed_def)
  next
    case TransferEndAck
    then show ?thesis
      using assms Some
      by (cases "st_role t"; cases "transfer_end_ack_sender (st_role t)")
        (auto simp: handle_message_def handle_transfer_end_ack_def keeps_owed_def)
  next
    case (Nack nack)
    then show ?thesis using assms Some keeps_owed_nack by (auto simp: handle_message_def)
  next
    case (TransferEnd te)
    then show ?thesis using assms Some keeps_owed_transfer_end by (auto simp: handle_message_def)
  next
    case TransferCreditsRequest
    then show ?thesis using assms Some keeps_owed_write by (auto simp: handle_message_def)
  qed (use assms Some in \<open>auto simp: handle_message_def keeps_owed_def\<close>)
qed

lemma task_event_step_owed:
  assumes "task_event_step B L S env closed t e = Done (closed', r)" and "e \<noteq> SendCommandsClosed"
  shows "keeps_owed t r"
proof (cases e)
  case (MessageRead item)
  then show ?thesis
    using assms keeps_owed_message by (auto simp: task_event_step_def)
next
  case (CommandReceived cmd)
  then show ?thesis
    using assms keeps_owed_command [of t B L env cmd]
    by (auto simp: task_event_step_def keeps_owed_def split: if_splits)
next
  case CreditsTick
  then show ?thesis
    using assms keeps_owed_write [of t B env TransferCreditsRequest]
    by (auto simp: task_event_step_def keeps_owed_def split: if_splits)
next
  case (SendCommandReceived cmd)
  then show ?thesis
    using assms keeps_owed_send_command [of t B env cmd] by (simp add: task_event_step_def)
next
  case (SenderCommandReceived cmd)
  then show ?thesis
    using assms keeps_owed_sender_command [of t B env cmd] by (simp add: task_event_step_def)
qed (use assms in \<open>auto simp: task_event_step_def keeps_owed_def\<close>)

lemma may_close_exit: "may_close (task_exit S t) = may_close t"
  by (simp add: may_close_def task_exit_def)

lemma task_run_owed:
  assumes "task_run B L S closed t events = Done (t', es, left)"
    and "SendCommandsClosed \<notin> snd ` set events" and "WriterClosed \<in> set es"
  shows "pipeline_ends es + st_pending_ack_count t \<le> end_acks es \<and> may_close t'"
  using assms
proof (induction events arbitrary: closed t es)
  case Nil
  then have "may_close t" "t' = task_exit S t" "es = [WriterClosed]" by (auto split: if_splits)
  then show ?case by (simp add: may_close_exit) (simp add: may_close_def)
next
  case (Cons x events)
  obtain env e where x: "x = (env, e)" by (cases x)
  show ?case
  proof (cases "closed \<and> may_close t")
    case True
    with Cons.prems(1) x have "t' = task_exit S t" "es = [WriterClosed]" by auto
    with True show ?thesis by (simp add: may_close_exit) (simp add: may_close_def)
  next
    case False
    with Cons.prems(1) x obtain closed1 t1 es1 go where
      one: "task_event_step B L S env closed t e = Done (closed1, t1, es1, go)"
      by (auto split: if_splits)
    have "e \<noteq> SendCommandsClosed" using Cons.prems(2) x by force
    from task_event_step_owed [OF one this]
    have owed: "WriterClosed \<notin> set es1"
      "go \<Longrightarrow> pipeline_ends es1 + st_pending_ack_count t \<le> st_pending_ack_count t1 + end_acks es1"
      by (simp_all add: keeps_owed_def)
    have go: go using Cons.prems(1,3) x False one owed(1) by (auto split: if_splits)
    with Cons.prems(1) x False one obtain es2 where
      rest: "task_run B L S closed1 t1 events = Done (t', es2, left)" and es: "es = es1 @ es2"
      by (auto split: if_splits)
    have "WriterClosed \<in> set es2" using Cons.prems(3) es owed(1) by simp
    moreover have "SendCommandsClosed \<notin> snd ` set events" using Cons.prems(2) by simp
    ultimately have "pipeline_ends es2 + st_pending_ack_count t1 \<le> end_acks es2 \<and> may_close t'"
      using Cons.IH [OF rest] by blast
    with owed(2) [OF go] es show ?thesis by simp
  qed
qed

lemma task_run_left:
  "task_run B L S closed t events = Done (t', es, True) \<Longrightarrow> \<exists>t0. t' = task_exit S t0"
proof (induction events arbitrary: closed t es)
  case Nil
  then show ?case by (auto split: if_splits)
next
  case (Cons x events)
  obtain env e where x: "x = (env, e)" by (cases x)
  show ?case
  proof (cases "closed \<and> may_close t")
    case True
    with Cons.prems x show ?thesis by auto
  next
    case False
    with Cons.prems x obtain closed1 t1 es1 go where
      one: "task_event_step B L S env closed t e = Done (closed1, t1, es1, go)"
      by (auto split: if_splits)
    show ?thesis
    proof (cases go)
      case True
      with Cons.prems x False one obtain es2 where "task_run B L S closed1 t1 events = Done (t', es2, True)"
        by (auto split: if_splits)
      then show ?thesis by (rule Cons.IH)
    next
      case go: False
      with Cons.prems x False one show ?thesis by (auto split: if_splits)
    qed
  qed
qed

section \<open>The end flag\<close>

text \<open>The flag that a transfer has ended is never taken back.\<close>

lemma end_transfer_ended: "st_is_ended (fst (handle_end_transfer B env t final response)) = st_is_ended t"
  by (auto simp: handle_end_transfer_def end_transfer_internal_def Let_def
      split: mani_stream_role.splits prod.splits sum.splits)

lemma handlers_ended:
  assumes "st_is_ended t"
  shows "st_is_ended (fst (handle_transfer_send_command B env t send_cmd))"
    and "st_is_ended (fst (handle_sender_command B env t sender_cmd))"
    and "st_is_ended (fst (handle_command B L env t cmd))"
    and "st_is_ended (fst (handle_payload env t pl))"
    and "st_is_ended (fst (handle_nack B env t nack))"
    and "st_is_ended (fst (handle_retrans env t retrans))"
    and "st_is_ended (fst (handle_transfer_end B env t te))"
    and "st_is_ended (fst (handle_transfer_end_ack t))"
  using assms
  by (auto simp: handle_transfer_send_command_def handle_sender_command_def handle_command_def
      start_transfer_internal_def handle_payload_def handle_nack_def handle_retrans_def handle_transfer_end_def
      handle_transfer_end_ack_def acknowledge_end_def task_end_def end_transfer_ended
      split: transfer_send_command.split recv_sender_command.split mani_stream_command.split mani_stream_role.split
        option.split prod.split sum.split try_send_result.split)

lemma handle_transfer_start_ended:
  "st_is_ended t \<Longrightarrow> handle_transfer_start B L env t start = Done (t', es, go) \<Longrightarrow> st_is_ended t'"
  by (auto simp: handle_transfer_start_def Let_def split: option.splits if_splits prod.splits)

lemma handle_message_ended:
  assumes "st_is_ended t" and "handle_message B L S env t m = Done (t', es, go)"
  shows "st_is_ended t'"
proof (cases m)
  case None
  with assms show ?thesis by (simp add: handle_message_def)
next
  case (Some msg)
  note ended = handlers_ended [OF assms(1)]
  show ?thesis
  proof (cases msg)
    case (TransferStart start)
    with assms Some show ?thesis
      using handle_transfer_start_ended [of t B L env start t' es go] by (simp add: handle_message_def)
  next
    case (Payload pl)
    with assms Some show ?thesis using ended(4) [where env = env and pl = pl] by (simp add: handle_message_def)
  next
    case (Nack nack)
    with assms Some show ?thesis using ended(5) [where B = B and env = env and nack = nack] by (simp add: handle_message_def)
  next
    case (Retrans retrans)
    with assms Some show ?thesis using ended(6) [where env = env and retrans = retrans] by (simp add: handle_message_def)
  next
    case (TransferEnd te)
    with assms Some show ?thesis using ended(7) [where B = B and env = env and te = te] by (simp add: handle_message_def)
  next
    case TransferEndAck
    with assms Some show ?thesis using ended(8) by (simp add: handle_message_def)
  next
    case (TransferCreditsUpdate upd)
    with assms Some show ?thesis
      by (cases "increase_credits S (st_backpressure_bank t) (additional_credits upd)") (auto simp: handle_message_def)
  qed (use assms Some in \<open>auto simp: handle_message_def handle_transfer_error_def\<close>)
qed

lemma task_event_step_ended:
  assumes "st_is_ended t" and "task_event_step B L S env closed t e = Done (closed', t', es, go)"
  shows "st_is_ended t'"
proof (cases e)
  case (MessageRead item)
  with assms handle_message_ended [OF assms(1)] show ?thesis by (auto simp: task_event_step_def)
next
  case (CommandReceived cmd)
  with assms handlers_ended(3) [OF assms(1), of B L env cmd] show ?thesis
    by (auto simp: task_event_step_def split: if_splits)
next
  case (SendCommandReceived cmd)
  with assms handlers_ended(1) [OF assms(1), of B env cmd] show ?thesis by (simp add: task_event_step_def)
next
  case (SenderCommandReceived cmd)
  with assms handlers_ended(2) [OF assms(1), of B env cmd] show ?thesis by (simp add: task_event_step_def)
qed (use assms in \<open>auto simp: task_event_step_def\<close>)

lemma task_exit_ended [simp]: "st_is_ended (task_exit S t) = st_is_ended t"
  by (simp add: task_exit_def)

lemma task_run_ended:
  "st_is_ended t \<Longrightarrow> task_run B L S closed t events = Done (t', es, left) \<Longrightarrow> st_is_ended t'"
proof (induction events arbitrary: closed t es)
  case Nil
  then show ?case by (auto split: if_splits)
next
  case (Cons x events)
  obtain env e where x: "x = (env, e)" by (cases x)
  show ?case
  proof (cases "closed \<and> may_close t")
    case True
    with Cons.prems x show ?thesis by auto
  next
    case False
    with Cons.prems(2) x obtain closed1 t1 es1 go where
      one: "task_event_step B L S env closed t e = Done (closed1, t1, es1, go)"
      by (auto split: if_splits)
    from task_event_step_ended [OF Cons.prems(1) one] have "st_is_ended t1" .
    with Cons.IH Cons.prems(2) x False one show ?thesis by (auto split: if_splits)
  qed
qed

section \<open>Retransmission\<close>

lemma retrans_messages_stored:
  assumes "length pss = length seqs"
    and "\<And>i. i < length seqs \<Longrightarrow> buffer (seqs ! i) = Some (pss ! i)"
    and "\<And>i p. i < length seqs \<Longrightarrow> p \<in> set (pss ! i) \<Longrightarrow> pkt_sequence_number p = seqs ! i"
  shows "retrans_messages buffer seqs = map (\<lambda>p. retrans_of (pkt_sequence_number p) p) (concat pss)"
  using assms
proof (induction seqs arbitrary: pss)
  case Nil
  then show ?case by simp
next
  case (Cons seq_num seqs)
  then obtain ps pss' where pss: "pss = ps # pss'" by (cases pss) auto
  have "buffer seq_num = Some ps" using Cons.prems(2) [of 0] pss by simp
  moreover have "\<forall>p \<in> set ps. pkt_sequence_number p = seq_num" using Cons.prems(3) [of 0] pss by simp
  moreover have "retrans_messages buffer seqs = map (\<lambda>p. retrans_of (pkt_sequence_number p) p) (concat pss')"
    using Cons.prems pss by (intro Cons.IH) (fastforce dest: spec [of _ "Suc _"])+
  ultimately show ?case using pss by (simp cong: map_cong)
qed

lemma handle_retrans_message:
  assumes B: "byte_buf B" and "st_role u = ReceiverRole pipeline initial" and "env_retrans_try_send env = TrySendOk"
    and "pkt_stream_id p = st_id u"
  shows "handle_message B L S env u (read_frame B (received (serialize_mani_message B
       (Retrans (retrans_of (pkt_sequence_number p) p))))) = Done (u, [RetransDelivered p], True)"
proof -
  have "parse_mani_message B (serialize_mani_message B (Retrans (retrans_of (pkt_sequence_number p) p))) =
      Inr (Retrans (retrans_of (pkt_sequence_number p) p))"
    by (rule byte_buf.parse_serialize [OF B]) simp
  with assms show ?thesis
    by (cases p) (simp add: read_frame_def handle_message_def handle_retrans_def retrans_of_def)
qed

text \<open>What a NACK for recent sends brings back.\<close>

lemma nack_answered:
  assumes B: "byte_buf B"
    and run: "send_run B Sem (send_stream_new sid Dual cmp initial n Map.empty mtu) hist s" "0 < n" "n < 2 ^ 32"
    and sender: "st_role t = SenderRole (ss_retransmission_buffer s) ack" "\<And>i. env_tx env i = (\<lambda>_. Inr ())"
    and receiver: "st_role u = ReceiverRole pipeline init" "st_id u = sid" "env_retrans_try_send env' = TrySendOk"
    and recent: "set js \<subseteq> {j. j < length hist \<and> length hist \<le> j + n}"
  shows "\<exists>packets. map (serialize_packet B) packets = concat (map (\<lambda>j. snd (hist ! j)) js) \<and>
     handle_nack B env t \<lparr> nack_sequence_numbers = map (\<lambda>j. fst (hist ! j)) js \<rparr> =
       (t, map (\<lambda>p. Wrote (Retrans (retrans_of (pkt_sequence_number p) p))) packets, True) \<and>
     map (\<lambda>p. handle_message B L S env' u (read_frame B (received (serialize_mani_message B
         (Retrans (retrans_of (pkt_sequence_number p) p)))))) packets =
       map (\<lambda>p. Done (u, [RetransDelivered p], True)) packets"
proof -
  let ?s0 = "send_stream_new sid Dual cmp initial n Map.empty mtu" and ?buf = "ss_retransmission_buffer s"
  have s0: "ss_mode ?s0 = Dual" "ss_retransmission_buffer ?s0 = Map.empty"
      "ss_max_retransmission_buffer_size ?s0 = n" "ss_id ?s0 = sid"
    by (simp_all add: send_stream_new_def)
  note frame = send_run_frame [OF run(1)]
  have win: "rtx_window s (min (length hist) n)" and holds: "holds_recent B hist s"
    using send_run_window [OF run(1)] s0 frame run(2,3) by auto
  have "\<forall>j \<in> set js. \<exists>ps. ?buf (fst (hist ! j)) = Some ps \<and> map (serialize_packet B) ps = snd (hist ! j)"
    using holds recent frame s0 by (fastforce simp: holds_recent_def)
  then obtain g where g: "\<And>j. j \<in> set js \<Longrightarrow> ?buf (fst (hist ! j)) = Some (g j) \<and>
      map (serialize_packet B) (g j) = snd (hist ! j)"
    by metis
  let ?packets = "concat (map g js)"
  have numbered: "pkt_sequence_number p = fst (hist ! j) \<and> pkt_stream_id p = sid" if "j \<in> set js" "p \<in> set (g j)" for j p
    using win g [OF that(1)] that(2) frame s0 by (auto simp: rtx_window_def)
  have "map (serialize_packet B) ?packets = concat (map (\<lambda>j. snd (hist ! j)) js)"
    using g by (simp add: map_concat o_def cong: map_cong)
  moreover have "retrans_messages ?buf (map (\<lambda>j. fst (hist ! j)) js) =
      map (\<lambda>p. retrans_of (pkt_sequence_number p) p) ?packets"
    by (rule retrans_messages_stored) (use g numbered in \<open>auto dest: nth_mem\<close>)
  then have "handle_nack B env t \<lparr> nack_sequence_numbers = map (\<lambda>j. fst (hist ! j)) js \<rparr> =
       (t, map (\<lambda>p. Wrote (Retrans (retrans_of (pkt_sequence_number p) p))) ?packets, True)"
    using sender by (simp add: handle_nack_def write_retrans_ok)
  moreover have "handle_message B L S env' u (read_frame B (received (serialize_mani_message B
         (Retrans (retrans_of (pkt_sequence_number p) p))))) = Done (u, [RetransDelivered p], True)"
    if "p \<in> set ?packets" for p
    by (rule handle_retrans_message [OF B receiver(1,3)]) (use that numbered receiver(2) in auto)
  ultimately show ?thesis by (intro exI [of _ ?packets]) (simp cong: map_cong)
qed

text \<open>The final number of a sender, as the receiver takes it.\<close>

lemma transfer_end_answer:
  assumes "send_run B Sem (send_stream_new sid mode cmp initial n buf mtu) hist s" and "length hist < 2 ^ 32"
    and "st_role u = ReceiverRole True (Some initial)" and "\<And>i. env_tx env i = (\<lambda>_. Inr ())" and "env_pipeline_sent env"
  shows "handle_transfer_end B env u \<lparr> final_sequence_number = stream_final_sequence_number s \<rparr> =
     (if hist = [] then (u\<lparr> st_is_ended := True \<rparr>, [NotifyEnd, Wrote TransferEndAck], True)
      else (u\<lparr> st_pending_ack_count := st_pending_ack_count u + 1 \<rparr>,
            [ToPipeline (PipelineEndTransfer (stream_final_sequence_number s)), AwaitPipelineReply], True))"
proof -
  have "seq_val (stream_final_sequence_number s) + 1 = seq_val initial + of_nat (length hist)"
    using send_run_final [OF assms(1)] by (simp add: nth_seq_def)
  moreover have "seq_val initial + of_nat (length hist) = seq_val initial \<longleftrightarrow> hist = []"
    using of_nat_u32_inj [of "length hist" 0] assms(2) by auto
  ultimately have "is_empty_transfer (Some initial) (stream_final_sequence_number s) \<longleftrightarrow> hist = []"
    by (simp add: is_empty_transfer_def)
  then show ?thesis
    using assms(3-5)
    by (simp add: handle_transfer_end_def acknowledge_end_def write_or_stop_def write_effect_ok task_end_def)
qed

section \<open>Properties\<close>

text \<open>A task and an environment in which everything is taken, for the concrete instances below.\<close>

definition plain_task :: "mani_stream_role \<Rightarrow> (nat \<times> bool) stream_task" where
  "plain_task role = \<lparr> st_id = ManiStreamId 7, st_max_retransmission_buffer_size = 4,
     st_max_datagram_channel_size = 10, st_max_chunk_buffer_size = 8, st_credits_bulk_update_count = 5,
     st_max_datagram_size = None, st_role = role, st_is_ended = False,
     st_backpressure_bank = \<lparr> bank_sem = (5, False) \<rparr>, st_pending_ack_count = 0,
     st_credits_request_interval = None \<rparr>"

definition open_env :: stream_env where
  "open_env = \<lparr> env_tx = (\<lambda>i bs. Inr ()), env_message_sent = True, env_pipeline_sent = True,
     env_retrans_try_send = TrySendOk, env_quic_max_datagram_size = None \<rparr>"

lemma plain_task_sel [simp]:
  "st_id (plain_task role) = ManiStreamId 7" "st_role (plain_task role) = role"
  "st_max_datagram_channel_size (plain_task role) = 10" "st_max_retransmission_buffer_size (plain_task role) = 4"
  "st_pending_ack_count (plain_task role) = 0"
  by (simp_all add: plain_task_def)

lemma open_env_sel [simp]:
  "env_tx open_env i = (\<lambda>bs. Inr ())" "env_message_sent open_env" "env_pipeline_sent open_env"
  "env_retrans_try_send open_env = TrySendOk"
  by (simp_all add: open_env_def)

lemma plain_run_closes:
  "task_run be_ops stored_libs counting_ops False (plain_task UnknownRole) [(open_env, CommandsClosed)] =
     Done (task_exit counting_ops (plain_task UnknownRole), [WriterClosed], True)"
  by (simp add: task_event_step_def may_close_def plain_task_def)

text \<open>C25: A transfer set up by one side is set up to match on the other: when the sender's
  \<open>TransferStart\<close> reaches a task that accepts it, that task registers the stream with the
  router, takes the receiver role with the sender's initial number, and starts a receiver
  with an empty fragment table and one channel per receive stream, whose decompression
  inverts the compression of the send stream.\<close>

theorem transfer_setup:
  assumes B: "byte_buf B" and L: "lossless_libs L"
    and start: "start_transfer_internal B L env t mode ct initial data_size = (t', es, Inr s)"
    and u: "0 < st_max_datagram_channel_size u" "env_message_sent env'"
  shows "\<exists>start receiver streams.
     es = Wrote (TransferStart start) # dropped_ack (st_role t) \<and>
     st_role t' = SenderRole (ss_retransmission_buffer s) None \<and> ss_mode s = mode \<and> ss_id s = st_id t \<and>
     handle_message B L S env' u (read_frame B (received (serialize_mani_message B (TransferStart start)))) =
       Done (u\<lparr> st_role := ReceiverRole (mode = Dual) (Some (ss_sequence_counter s)) \<rparr>,
             [RegisterStream (st_id u),
              SpawnReceiver receiver (credit_coordinator_new (st_credits_bulk_update_count u) (mode = Dual))]
             @ dropped_ack (st_role u) @ [ForwardMessage (TransferMessage streams)], True) \<and>
     lossless (compress (ss_compression s)) (decompress (pr_compression receiver)) \<and>
     pr_fragment_buffers receiver = Map.empty \<and> pr_senders receiver = (if mode = Dual then 2 else 1) \<and>
     streams = (if mode = Dual
       then DualStreams (reliable_recv_new (st_id u) (st_max_retransmission_buffer_size u)) (unreliable_recv_new (st_id u))
       else UnreliableOnlyStreams (unreliable_recv_new (st_id u)))"
proof -
  let ?start = "\<lparr> start_mode = mode, start_compression_type = ct,
                  start_initial_sequence_number = initial, start_data_size = data_size \<rparr>"
  obtain c where c: "to_boxed_compression L ct = Some c" using to_boxed_compression_total by blast
  then have sides: "es = Wrote (TransferStart ?start) # dropped_ack (st_role t)"
      "t' = t\<lparr> st_role := SenderRole Map.empty None \<rparr>"
      "s = send_stream_new (st_id t) mode c initial (st_max_retransmission_buffer_size t) Map.empty
             (case st_max_datagram_size t of Some m \<Rightarrow> Some m | None \<Rightarrow> env_quic_max_datagram_size env)"
    using start
    by (cases rule: write_effect_cases [of B env 0 "TransferStart ?start"];
        auto simp: start_transfer_internal_def)+
  have "parse_mani_message B (serialize_mani_message B (TransferStart ?start)) = Inr (TransferStart ?start)"
    by (rule byte_buf.parse_serialize [OF B]) simp
  moreover have "lossless (compress c) (decompress c)"
    using lossless_libs.boxed_lossless [OF L c] .
  ultimately show ?thesis
    using c u sides
    by (intro exI [of _ ?start])
      (auto simp: send_stream_new_def read_frame_def handle_message_def handle_transfer_start_def Let_def
        packet_receiver_new_def create_stream_pair_def)
qed

theorem transfer_setup_witness:
  "\<exists>t' es s (receiver :: packet_receiver).
     start_transfer_internal be_ops stored_libs open_env (plain_task UnknownRole) Dual Gzip (SequenceNumber 0) None =
       (t', es, Inr s) \<and>
     lossless (compress (ss_compression s)) (decompress (pr_compression receiver)) \<and> pr_senders receiver = 2"
proof -
  obtain t' es s where start: "start_transfer_internal be_ops stored_libs open_env (plain_task UnknownRole) Dual Gzip
      (SequenceNumber 0) None = (t', es, Inr s)"
    by (simp add: start_transfer_internal_def write_effect_ok)
  obtain receiver :: packet_receiver where "lossless (compress (ss_compression s)) (decompress (pr_compression receiver))"
    and "pr_senders receiver = 2"
    using transfer_setup [OF byte_buf_be_ops stored.lossless_libs_axioms start, of "plain_task UnknownRole" open_env counting_ops]
    by auto
  with start show ?thesis by blast
qed

text \<open>C7: However its events interleave, a task that started without debts closes the writer
  only when every end of transfer it handed to the reliable stream has been acknowledged on
  the wire, and, in the receiver role, only after the transfer has ended.\<close>

theorem writer_closed_after_acks:
  assumes "task_run B L S False t events = Done (t', es, left)" and "st_pending_ack_count t = 0"
    and "SendCommandsClosed \<notin> snd ` set events" and "WriterClosed \<in> set es"
  shows "pipeline_ends es \<le> end_acks es \<and> st_pending_ack_count t' = 0 \<and>
     (\<nexists>pipeline initial. st_role t' = ReceiverRole pipeline initial \<and> \<not> st_is_ended t')"
  using task_run_owed [OF assms(1,3,4)] assms(2) by (auto simp: may_close_def)

theorem writer_closed_after_acks_witness:
  "\<exists>t' es. task_run be_ops stored_libs counting_ops False (plain_task UnknownRole) [(open_env, CommandsClosed)] =
       Done (t', es, True) \<and> pipeline_ends es \<le> end_acks es \<and> st_pending_ack_count t' = 0"
proof -
  have "pipeline_ends [WriterClosed] \<le> end_acks [WriterClosed] \<and>
      st_pending_ack_count (task_exit counting_ops (plain_task UnknownRole)) = 0"
    using writer_closed_after_acks [OF plain_run_closes] by simp
  with plain_run_closes show ?thesis by blast
qed

text \<open>A task that leaves its loop, for whatever reason, shuts the credit bank, so that a
  sender waiting for credits is told instead of waiting for ever.\<close>

lemma exit_releases_senders:
  assumes sem: "semaphore S avail is_closed max_permits"
    and "task_run B L S closed t events = Done (t', es, True)"
  shows "wait_for_credit S (st_backpressure_bank t') = Some (False, st_backpressure_bank t')"
proof -
  obtain t0 where "t' = task_exit S t0" using task_run_left [OF assms(2)] by blast
  then show ?thesis
    using semaphore.wait_for_credit_shut [OF sem semaphore.signal_shutdown_shuts [OF sem]]
    by (simp add: task_exit_def)
qed

text \<open>C15: A second transfer on a stream is over before it starts: the flag that a transfer has
  ended is shared by all transfers and never taken back, so whatever happens on the stream after
  the first end, the unreliable stream of a later transfer reports the end as soon as its channel
  is empty, and without its handle the task closes the writer although the later transfer is
  running.\<close>

theorem second_transfer_is_over:
  assumes ended: "st_is_ended t"
    and run: "task_run B L S False t events = Done (t1, es1, False)"
    and start: "handle_message B L S env t1 (Some (TransferStart start)) = Done (t2, es2, True)"
    and settled: "st_pending_ack_count t1 = 0"
  shows "st_role t2 = ReceiverRole (start_mode start = Dual) (Some (start_initial_sequence_number start)) \<and>
     (\<exists>u' c' es. unreliable_recv_call u c (((st_is_ended t2, True), e) # calls) = (u', c', es, Some None)) \<and>
     task_run B L S True t2 later = Done (task_exit S t2, [WriterClosed], True)"
proof -
  have t2: "st_is_ended t2"
    using handle_message_ended [OF task_run_ended [OF ended run] start] .
  obtain cmp where "to_boxed_compression L (start_compression_type start) = Some cmp"
    using to_boxed_compression_total by blast
  then have role: "st_role t2 = ReceiverRole (start_mode start = Dual) (Some (start_initial_sequence_number start))"
    and "st_pending_ack_count t2 = 0"
    using start settled
    by (auto simp: handle_message_def handle_transfer_start_def Let_def split: if_splits prod.splits)
  then have "may_close t2" using t2 by (simp add: may_close_def)
  then have "task_run B L S True t2 later = Done (task_exit S t2, [WriterClosed], True)"
    by (cases later) auto
  moreover have "\<exists>u' c' es. unreliable_recv_call u c (((st_is_ended t2, True), e) # calls) = (u', c', es, Some None)"
    using t2 by (cases "unreliable_signal_eof u c") auto
  ultimately show ?thesis using role by blast
qed

theorem second_transfer_is_over_witness:
  "\<exists>t2 es2. handle_message be_ops stored_libs counting_ops open_env ((plain_task UnknownRole)\<lparr> st_is_ended := True \<rparr>)
       (Some (TransferStart \<lparr> start_mode = UnreliableOnly, start_compression_type = Zstd,
         start_initial_sequence_number = SequenceNumber 0, start_data_size = None \<rparr>)) = Done (t2, es2, True) \<and>
     task_run be_ops stored_libs counting_ops True t2 [] = Done (task_exit counting_ops t2, [WriterClosed], True)"
proof -
  let ?t = "(plain_task UnknownRole)\<lparr> st_is_ended := True \<rparr>"
  let ?start = "\<lparr> start_mode = UnreliableOnly, start_compression_type = Zstd,
         start_initial_sequence_number = SequenceNumber 0, start_data_size = None \<rparr>"
  have run: "task_run be_ops stored_libs counting_ops False ?t [] = Done (?t, [], False)" by simp
  obtain t2 es2 where start: "handle_message be_ops stored_libs counting_ops open_env ?t (Some (TransferStart ?start)) =
      Done (t2, es2, True)"
    by (simp add: handle_message_def handle_transfer_start_def Let_def)
  have "st_is_ended ?t" "st_pending_ack_count ?t = 0" by simp_all
  from second_transfer_is_over [OF this(1) run start this(2), where later = "[]"] start show ?thesis by blast
qed

text \<open>A message that does not fit the role changes nothing, writes nothing and stops nothing.\<close>

lemma role_mismatch_ignored:
  assumes "(\<nexists>buffer ack. st_role t = SenderRole buffer ack) \<and> m \<in> {Nack nack, TransferEndAck} \<or>
     (\<nexists>pipeline initial. st_role t = ReceiverRole pipeline initial) \<and> m \<in> {Retrans retrans, TransferEnd te}"
  shows "handle_message B L S env t (Some m) = Done (t, [], True)"
  using assms
  by (cases "st_role t")
    (auto simp: handle_message_def handle_nack_def handle_transfer_end_ack_def handle_retrans_def
      handle_transfer_end_def)

end
