(* ===== verification/End_To_End.thy ===== *)
theory End_To_End
  imports Router Mani_Stream
begin

text \<open>
  A whole transfer across the components: the send stream, the wire format, the sender's and
  the receiver's datagrams, the router, the reassembly, the reorder buffer and the receive
  stream of the application.
\<close>

section \<open>Transfers\<close>

text \<open>
  A run of successful calls of \<open>send\<close>.  The history holds the timestamp and content of every
  call and its datagrams as they arrive: in any order, some of them more than once, up to the
  last one that is missing.
\<close>

inductive transfer_run ::
  "buf_ops \<Rightarrow> 's semaphore_ops \<Rightarrow> send_stream \<Rightarrow> (timestamp \<times> bytes \<times> bytes list) list \<Rightarrow> send_stream \<Rightarrow> bool"
  for B S s0 where
  no_sends: "transfer_run B S s0 [] s0"
| one_more: "transfer_run B S s0 hist s \<Longrightarrow>
    send B S tx s bank ts content = Done (Returned s' bank' sent (Inr ())) \<Longrightarrow> length sent < 2 ^ 16 \<Longrightarrow>
    set (early @ [final]) = set sent \<Longrightarrow> final \<notin> set early \<Longrightarrow>
    transfer_run B S s0 (hist @ [(ts, content, early @ [final])]) s'"

inductive_cases transfer_run_NilE: "transfer_run B S s0 [] s"

definition arrivals_of :: "(timestamp \<times> bytes \<times> bytes list) list \<Rightarrow> bytes list" where
  "arrivals_of hist = concat (map (\<lambda>(ts, content, ds). ds) hist)"

definition chunks_of :: "(timestamp \<times> bytes \<times> bytes list) list \<Rightarrow> chunk list" where
  "chunks_of hist = map (\<lambda>(ts, content, ds). \<lparr> chunk_timestamp = ts, chunk_content = content \<rparr>) hist"

text \<open>The packets one channel of the receiver task is given.\<close>

definition on_channel :: "nat \<Rightarrow> (nat \<times> packet) list \<Rightarrow> packet list" where
  "on_channel i deliveries = map snd (filter (\<lambda>(j, p). j = i) deliveries)"

lemma on_channel_append [simp]: "on_channel i (xs @ ys) = on_channel i xs @ on_channel i ys"
  by (simp add: on_channel_def)

section \<open>Through the router\<close>

lemma router_run_delivers:
  assumes B: "byte_buf B" and "dr_senders r sid = Some c" and "\<forall>p \<in> set ps. pkt_stream_id p = sid"
  shows "router_run B r (map (\<lambda>p. DatagramRead now True (serialize_packet B p)) ps) =
     Done (r, map (\<lambda>p. (c, p)) ps)"
  using assms(3)
  by (induction ps)
    (simp_all add: router_datagram_def byte_buf.parse_serialize_packet [OF B] router_route_def assms(2))

section \<open>Through the receiver task\<close>

lemma transfer_run_frame:
  "transfer_run B S s0 hist s \<Longrightarrow>
     ss_compression s = ss_compression s0 \<and> ss_id s = ss_id s0 \<and>
     ss_initial_sequence_number s = ss_initial_sequence_number s0 \<and> ss_command_sender s = ss_command_sender s0 \<and>
     ss_sequence_counter s = nth_seq (ss_sequence_counter s0) (length hist)"
proof (induction rule: transfer_run.induct)
  case no_sends
  show ?case by (simp add: nth_seq_def)
next
  case (one_more hist s tx bank ts content s' bank' sent early final)
  from one_more.hyps(2) one_more.IH show ?case
    by (cases rule: send_ReturnedE) (auto simp: nth_seq_Suc)
qed

lemma list_in_image: "set ys \<subseteq> f ` A \<Longrightarrow> \<exists>xs. ys = map f xs \<and> set xs \<subseteq> A"
proof (induction ys)
  case (Cons y ys)
  then obtain x xs where "y = f x" "x \<in> A" "ys = map f xs" "set xs \<subseteq> A" by auto
  then show ?case by (intro exI [of _ "x # xs"]) simp
qed simp

lemma serialize_packet_inj: "byte_buf B \<Longrightarrow> inj (serialize_packet B)"
  by (metis byte_buf.parse_serialize_packet injI outcome.inject sum.inject(2))

text \<open>The packets in the datagrams, and what the receiver task makes of them.\<close>

lemma transfer_run_received:
  assumes run: "transfer_run B S s0 hist s" and B: "byte_buf B"
    and lossless: "lossless (compress (ss_compression s0)) (decompress (pr_compression r))"
    and table: "pr_fragment_buffers r = Map.empty" "0 < pr_max_fragment_groups r" "0 < pr_senders r"
  shows "\<exists>ps deliveries. arrivals_of hist = map (serialize_packet B) ps \<and> (\<forall>p \<in> set ps. pkt_stream_id p = ss_id s0) \<and>
     receive_all B r (map (\<lambda>p. (\<lambda>_. True, p)) ps) = Done (r, deliveries, False) \<and>
     on_channel 0 deliveries = map (\<lambda>(i, ts, content, ds).
       \<lparr> pkt_stream_id = ss_id s0, pkt_sequence_number = nth_seq (ss_sequence_counter s0) i,
         pkt_timestamp = ts, pkt_content = content \<rparr>) (enumerate 0 hist)"
  using run
proof (induction rule: transfer_run.induct)
  case no_sends
  show ?case by (intro exI [of _ "[]"]) (simp add: arrivals_of_def on_channel_def)
next
  case (one_more hist s tx bank ts content s' bank' sent early final)
  note frame = transfer_run_frame [OF one_more.hyps(1)]
  from one_more.IH obtain ps deliveries where
    ps: "arrivals_of hist = map (serialize_packet B) ps" "\<forall>p \<in> set ps. pkt_stream_id p = ss_id s0"
    and received: "receive_all B r (map (\<lambda>p. (\<lambda>_. True, p)) ps) = Done (r, deliveries, False)"
    and channel: "on_channel 0 deliveries = map (\<lambda>(i, ts, content, ds).
       \<lparr> pkt_stream_id = ss_id s0, pkt_sequence_number = nth_seq (ss_sequence_counter s0) i,
         pkt_timestamp = ts, pkt_content = content \<rparr>) (enumerate 0 hist)"
    by blast
  from one_more.hyps(2) obtain packets where
    build: "build_packets B s ts (compress (ss_compression s) content) = Done packets"
    and sent: "sent = map (serialize_packet B) packets"
    by (cases rule: send_ReturnedE) auto
  obtain earlier p where split: "early = map (serialize_packet B) earlier" "final = serialize_packet B p"
    and packets: "set (earlier @ [p]) \<subseteq> set packets"
  proof -
    have "set (early @ [final]) \<subseteq> serialize_packet B ` set packets" using one_more.hyps(4) sent by simp
    then have "\<exists>qs. early @ [final] = map (serialize_packet B) qs \<and> set qs \<subseteq> set packets"
      by (rule list_in_image)
    then show thesis using that by (auto simp: append_eq_map_conv map_eq_Cons_conv)
  qed
  have all: "set (earlier @ [p]) = set packets"
  proof -
    have "serialize_packet B ` set (earlier @ [p]) = serialize_packet B ` set packets"
      using one_more.hyps(4) by (simp add: split sent)
    then show ?thesis by (simp only: inj_image_eq_iff [OF serialize_packet_inj [OF B]])
  qed
  have new: "p \<notin> set earlier" using one_more.hyps(5) by (auto simp: split)
  let ?out = "\<lparr> pkt_stream_id = ss_id s0, pkt_sequence_number = nth_seq (ss_sequence_counter s0) (length hist),
         pkt_timestamp = ts, pkt_content = content \<rparr>"
  have "receive_all B r (map (\<lambda>p. (\<lambda>_. True, p)) earlier @ [(\<lambda>_. True, p)]) =
      Done (r, route_decompressed r (\<lambda>_. True) (ss_id s) (ss_sequence_counter s) ts
         (decompress (pr_compression r) (compress (ss_compression s) content)))"
    using table all new one_more.hyps(3)
    by (intro deliver_built_packets [OF B build]) (auto simp: image_image sent map_len_def)
  then have step: "receive_all B r (map (\<lambda>p. (\<lambda>_. True, p)) (earlier @ [p])) =
      Done (r, map (\<lambda>i. (i, ?out)) [0 ..< pr_senders r], False)"
    using frame table(3) lossless.decomp_comp [OF lossless] by (auto simp: route_decompressed_eq)
  have "receive_all B r (map (\<lambda>p. (\<lambda>_. True, p)) (ps @ earlier @ [p])) =
      Done (r, deliveries @ map (\<lambda>i. (i, ?out)) [0 ..< pr_senders r], False)"
    using receive_all_append [OF received] step by simp
  moreover have "on_channel 0 (map (\<lambda>i. (i, ?out)) [0 ..< pr_senders r]) = [?out]"
    using table(3) by (simp add: on_channel_def filter_map comp_def upt_conv_Cons)
  moreover have "arrivals_of (hist @ [(ts, content, early @ [final])]) = map (serialize_packet B) (ps @ earlier @ [p])"
    using ps(1) by (simp add: arrivals_of_def split)
  moreover have "\<forall>q \<in> set (ps @ earlier @ [p]). pkt_stream_id q = ss_id s0"
    using ps(2) all build_packets_header [OF build] frame by auto
  moreover have "enumerate 0 (hist @ [(ts, content, early @ [final])]) =
      enumerate 0 hist @ [(length hist, ts, content, early @ [final])]"
    by (simp add: enumerate_append_eq)
  ultimately show ?case
    by (intro exI [of _ "ps @ earlier @ [p]"] exI [of _ "deliveries @ map (\<lambda>i. (i, ?out)) [0 ..< pr_senders r]"])
      (simp only: on_channel_append channel map_append list.map prod.case simp_thms)
qed

section \<open>Through the receive stream\<close>

lemma seqs_of_sent:
  assumes "length hist < 2 ^ 32"
    and "ps = map (\<lambda>(i, ts, content, ds).
       \<lparr> pkt_stream_id = sid, pkt_sequence_number = nth_seq (SequenceNumber 0) i,
         pkt_timestamp = ts, pkt_content = content \<rparr>) (enumerate 0 hist)"
  shows "seqs_of ps = [0 ..< length hist]" and "map chunk_of_packet ps = chunks_of hist"
proof -
  have "seq_nat (nth_seq (SequenceNumber 0) i) = i" if "i < length hist" for i
    using that assms(1) by (simp add: nth_seq_def seq_nat_of_nat)
  then show "seqs_of ps = [0 ..< length hist]"
    by (intro nth_equalityI) (simp_all add: assms(2) nth_enumerate_eq split: prod.split)
  show "map chunk_of_packet ps = chunks_of hist"
    by (intro nth_equalityI)
      (simp_all add: assms(2) nth_enumerate_eq chunks_of_def chunk_of_packet_def split: prod.split)
qed

lemma in_order_session:
  assumes "seqs_of ps = [0 ..< length ps]" and "length ps < 2 ^ 32" and "0 < n"
    and "seq_nat f < length ps"
  shows "\<exists>r' c' es batches. recv_session oc (reliable_recv_new sid n) c
       (map PacketReceived ps @ [PipelineCommand (PipelineEndTransfer f)]) = Done (r', c', es, batches, True) \<and>
     concat batches = map chunk_of_packet ps \<and> EndReply \<in> set es"
proof -
  let ?r = "reliable_recv_new sid n"
  have new: "rr_pending_end ?r = None" "rr_assembler ?r = assembler_new n" "\<not> rr_closed_signaled ?r"
    by (simp_all add: reliable_recv_new_def)
  have "asm_in_range (assembler_new n)" "asm_end (assembler_new n) = asm_next (assembler_new n)"
    "asm_next (assembler_new n) = 0" "asm_max_retransmission_buffer_size (assembler_new n) = n"
    by (simp_all add: asm_in_range_def asm_end_def asm_next_def assembler_new_def seq_nat_def)
  then obtain a where
    delivered: "assemble_all oc (assembler_new n) ps = Done (a, replicate (length ps) [], ps)"
    and cursor: "asm_next a = length ps"
    using asm.deliver_in_order [of "assembler_new n" ps oc] assms(1-3) by auto
  obtain es batches where batches: "concat batches = map chunk_of_packet ps"
    and session: "\<And>later. recv_session oc ?r c (map PacketReceived ps @ later) =
        bind_outcome (recv_session oc (?r\<lparr> rr_assembler := a \<rparr>) (record_batches c (map length batches)) later)
          (\<lambda>(r, c, es', bs, ended). Done (r, c, es @ es', batches @ bs, ended))"
    using recv_session_packets [OF new(1) delivered [folded new(2)], of c] by blast
  obtain r' c' es' where "recv_session oc (?r\<lparr> rr_assembler := a \<rparr>) (record_batches c (map length batches))
       [PipelineCommand (PipelineEndTransfer f)] = Done (r', c', es', [], True)" "EndReply \<in> set es'"
    using recv_session_end_transfer [of "?r\<lparr> rr_assembler := a \<rparr>" oc "record_batches c (map length batches)" f]
      new cursor assms(4) by auto
  with batches session show ?thesis by auto
qed

end
