(* ===== verification/Loss_Recovery.thy ===== *)
theory Loss_Recovery
  imports End_To_End
begin

text \<open>
  Recovery from loss across the components: the reorder buffer's NACK, the answer of the
  sender's task from the retransmission buffer, the receiver's task that puts the packets
  back on the datagram channel, and the reassembly and reordering after it.
\<close>

section \<open>Runs with their contents\<close>

text \<open>The history holds timestamp, content and datagrams of every successful call of \<open>send\<close>.\<close>

inductive content_run ::
  "buf_ops \<Rightarrow> 's semaphore_ops \<Rightarrow> send_stream \<Rightarrow> (timestamp \<times> bytes \<times> bytes list) list \<Rightarrow> send_stream \<Rightarrow> bool"
  for B S s0 where
  no_content: "content_run B S s0 [] s0"
| more_content: "content_run B S s0 hist s \<Longrightarrow>
    send B S tx s bank ts content = Done (Returned s' bank' sent (Inr ())) \<Longrightarrow> length sent < 2 ^ 16 \<Longrightarrow>
    content_run B S s0 (hist @ [(ts, content, sent)]) s'"

definition numbered :: "sequence_number \<Rightarrow> (timestamp \<times> bytes \<times> bytes list) list \<Rightarrow> (sequence_number \<times> bytes list) list" where
  "numbered seq hist = map (\<lambda>i. (nth_seq seq i, snd (snd (hist ! i)))) [0 ..< length hist]"

lemma numbered_snoc:
  "numbered seq (hist @ [h]) = numbered seq hist @ [(nth_seq seq (length hist), snd (snd h))]"
  by (simp add: numbered_def nth_append)

lemma content_run_send_run:
  "content_run B S s0 hist s \<Longrightarrow> send_run B S s0 (numbered (ss_sequence_counter s0) hist) s"
proof (induction rule: content_run.induct)
  case no_content
  show ?case by (simp add: numbered_def send_run.start)
next
  case (more_content hist s tx bank ts content s' bank' sent)
  have "ss_sequence_counter s = nth_seq (ss_sequence_counter s0) (length hist)"
    using send_run_frame [OF more_content.IH] by (simp add: numbered_def)
  with send_run.sent [OF more_content.IH more_content.hyps(2)] show ?case by (simp add: numbered_snoc)
qed

lemma content_run_compression: "content_run B S s0 hist s \<Longrightarrow> ss_compression s = ss_compression s0"
proof (induction rule: content_run.induct)
  case (more_content hist s tx bank ts content s' bank' sent)
  from more_content.hyps(2) more_content.IH show ?case by (cases rule: send_ReturnedE) auto
qed simp

section \<open>One send, received\<close>

lemma build_packets_distinct:
  assumes B: "byte_buf B" and build: "build_packets B s ts data = Done packets" and count: "length packets < 2 ^ 16"
  shows "distinct packets"
proof (cases "needs_fragment (ss_max_datagram_size s) data")
  case False
  then show ?thesis using build by (auto simp: build_packets_single)
next
  case True
  then obtain m where m: "ss_max_datagram_size s = Some m" "needs_fragment (Some m) data"
    by (cases "ss_max_datagram_size s") (auto simp: needs_fragment_def)
  then have big: "25 < m" using build build_packets_panics [OF m] by (cases "m \<le> 25") auto
  have packets: "packets = map (fragment_packet B (ss_id s) (ss_sequence_counter s) ts (chunks (m - 25) data))
      [0 ..< length (chunks (m - 25) data)]"
    using build_packets_fragment_packets [OF m big, of B ts] build by simp
  with count have "length (chunks (m - 25) data) < 2 ^ 16" by simp
  from fragment_packet_inj [OF B this] show ?thesis
    unfolding packets by (auto simp: distinct_map inj_on_def)
qed

text \<open>The delivery of send \<open>j\<close> of a history.\<close>

definition delivery_of :: "mani_stream_id \<Rightarrow> sequence_number \<Rightarrow> (timestamp \<times> bytes \<times> bytes list) list \<Rightarrow> nat \<Rightarrow> packet" where
  "delivery_of sid seq hist j =
     \<lparr> pkt_stream_id = sid, pkt_sequence_number = nth_seq seq j,
       pkt_timestamp = fst (hist ! j), pkt_content = fst (snd (hist ! j)) \<rparr>"

abbreviation all_alive :: "packet list \<Rightarrow> ((nat \<Rightarrow> bool) \<times> packet) list" where
  "all_alive ps \<equiv> map (\<lambda>p. (\<lambda>_. True, p)) ps"

lemma content_run_received:
  assumes run: "content_run B S s0 hist s" and j: "j < length hist" and B: "byte_buf B"
    and lossless: "lossless (compress (ss_compression s0)) (decompress (pr_compression r))"
    and table: "pr_fragment_buffers r = Map.empty" "0 < pr_max_fragment_groups r" "0 < pr_senders r"
  shows "\<exists>ps. snd (snd (hist ! j)) = map (serialize_packet B) ps \<and> (\<forall>p \<in> set ps. pkt_stream_id p = ss_id s0) \<and>
     receive_all B r (all_alive ps) =
       Done (r, map (\<lambda>i. (i, delivery_of (ss_id s0) (ss_sequence_counter s0) hist j)) [0 ..< pr_senders r], False)"
  using run j
proof (induction rule: content_run.induct)
  case no_content
  then show ?case by simp
next
  case (more_content hist s tx bank ts content s' bank' sent)
  let ?hist = "hist @ [(ts, content, sent)]"
  note frame = send_run_frame [OF content_run_send_run [OF more_content.hyps(1)]]
  show ?case
  proof (cases "j < length hist")
    case True
    then have "delivery_of sid seq ?hist j = delivery_of sid seq hist j" for sid seq
      by (simp add: delivery_of_def nth_append)
    with more_content.IH [OF True] True show ?thesis by (simp add: nth_append)
  next
    case False
    with more_content.prems have j: "j = length hist" by simp
    from more_content.hyps(2) obtain packets where
      build: "build_packets B s ts (compress (ss_compression s) content) = Done packets"
      and sent: "sent = map (serialize_packet B) packets"
      by (cases rule: send_ReturnedE) auto
    have count: "length packets < 2 ^ 16" using more_content.hyps(3) sent by simp
    have "packets \<noteq> []" using build_packets_nonempty build by blast
    then obtain early p where split: "packets = early @ [p]" by (cases packets rule: rev_cases) auto
    have new: "p \<notin> set early" using build_packets_distinct [OF B build count] by (simp add: split)
    have "receive_all B r (all_alive early @ [(\<lambda>_. True, p)]) =
        Done (r, route_decompressed r (\<lambda>_. True) (ss_id s) (ss_sequence_counter s) ts
           (decompress (pr_compression r) (compress (ss_compression s) content)))"
      by (rule deliver_built_packets [OF B build count])
        (use new in \<open>simp_all add: table split image_image\<close>)
    moreover have "all_alive packets = all_alive early @ [(\<lambda>_. True, p)]" by (simp add: split)
    moreover have "decompress (pr_compression r) (compress (ss_compression s) content) = content"
      using lossless.decomp_comp [OF lossless] content_run_compression [OF more_content.hyps(1)] by simp
    moreover have "ss_sequence_counter s = nth_seq (ss_sequence_counter s0) (length hist)" "ss_id s = ss_id s0"
      using frame by (simp_all add: numbered_def)
    ultimately have "receive_all B r (all_alive packets) =
       Done (r, map (\<lambda>i. (i, delivery_of (ss_id s0) (ss_sequence_counter s0) ?hist j)) [0 ..< pr_senders r], False)"
      using table(3) by (auto simp: route_decompressed_eq delivery_of_def j)
    moreover have "\<forall>p \<in> set packets. pkt_stream_id p = ss_id s0"
      using build_packets_header [OF build] frame by simp
    ultimately show ?thesis using sent j by auto
  qed
qed

text \<open>Several sends, received one after the other.\<close>

lemma receive_groups:
  assumes "\<And>j. j \<in> set js \<Longrightarrow> receive_all B r (all_alive (g j)) = Done (r, d j, False)"
  shows "receive_all B r (all_alive (concat (map g js))) = Done (r, concat (map d js), False)"
  using assms
proof (induction js)
  case (Cons j js)
  then have "receive_all B r (all_alive (g j)) = Done (r, d j, False)" by simp
  from receive_all_append [OF this, of "all_alive (concat (map g js))"] Cons show ?case by simp
qed simp

lemma on_channel_copies_at:
  assumes "k < n"
  shows "on_channel k (concat (map (\<lambda>j. map (\<lambda>i. (i, e j)) [0 ..< n]) js)) = map e js"
proof -
  have "[0 ..< n] = [0 ..< k] @ k # [Suc k ..< n]"
    using assms by (metis le0 less_imp_le upt_add_eq_append upt_conv_Cons le_add_diff_inverse)
  then have "filter (\<lambda>i. i = k) [0 ..< n] = [k]" by (simp add: filter_empty_conv)
  then show ?thesis by (induction js) (simp_all add: on_channel_def filter_map comp_def)
qed

lemmas on_channel_copies = on_channel_copies_at [of 0]

section \<open>The receive stream with a gap\<close>

lemma recv_session_only_packets:
  assumes "rr_pending_end r = None" and "assemble_all oc (rr_assembler r) ps = Done (a, gaps, out)"
  shows "\<exists>c' es batches. recv_session oc r c (map PacketReceived ps) = Done (r\<lparr> rr_assembler := a \<rparr>, c', es, batches, False) \<and>
     concat batches = map chunk_of_packet out \<and> nacks_of es = filter (\<lambda>g. g \<noteq> []) gaps"
proof -
  obtain es batches where facts: "concat batches = map chunk_of_packet out" "nacks_of es = filter (\<lambda>g. g \<noteq> []) gaps"
    and session: "\<And>later. recv_session oc r c (map PacketReceived ps @ later) =
        bind_outcome (recv_session oc (r\<lparr> rr_assembler := a \<rparr>) (record_batches c (map length batches)) later)
          (\<lambda>(r, c, es', bs, ended). Done (r, c, es @ es', batches @ bs, ended))"
    using recv_session_packets [OF assms, of c] by blast
  have "\<not> end_reached (r\<lparr> rr_assembler := a \<rparr>)" using assms(1) by (simp add: end_reached_def)
  then show ?thesis using session [of "[]"] facts by (simp add: recv_session_Nil)
qed

text \<open>
  A receive stream between two gaps: nothing is buffered and the end is not announced; it has
  delivered everything before number \<open>d\<close>.
\<close>

definition caught_up :: "reliable_recv \<Rightarrow> nat \<Rightarrow> nat \<Rightarrow> bool" where
  "caught_up r n d \<longleftrightarrow> rr_pending_end r = None \<and> asm_packets (rr_assembler r) = [] \<and>
     asm_next (rr_assembler r) = d \<and> asm_max_retransmission_buffer_size (rr_assembler r) = n"

lemma caught_up_new: "caught_up (reliable_recv_new sid n) n 0"
  by (simp add: caught_up_def reliable_recv_new_def assembler_new_def asm_next_def seq_nat_def)

lemma recovering_sessions:
  assumes r: "caught_up r n d"
    and p: "seq_nat (pkt_sequence_number p) = m" and ps: "seqs_of ps = [d ..< m]"
    and m: "d < m" "Suc m - d < n" "Suc m < 2 ^ 32"
  shows "\<exists>r1 c1 es1 b1 r2 c2 es2 b2 gap out.
     recv_session oc r c [PacketReceived p] = Done (r1, c1, es1, b1, False) \<and>
     nacks_of es1 = [gap] \<and> map seq_nat gap = [d ..< m] \<and>
     recv_session oc r1 c1 (map PacketReceived ps) = Done (r2, c2, es2, b2, False) \<and> caught_up r2 n (Suc m) \<and>
     concat (b1 @ b2) = map chunk_of_packet out \<and> seqs_of out = [d ..< Suc m] \<and> set out \<subseteq> set (p # ps)"
proof -
  let ?a = "rr_assembler r"
  have a: "asm_in_range ?a" "asm_end ?a = asm_next ?a" "asm_contents ?a = Map.empty"
    using r m by (simp_all add: caught_up_def asm_in_range_def asm_end_def asm_contents_empty)
  obtain a' gap gaps out where
    all: "assemble_all oc ?a (p # ps) = Done (a', gap # gaps, out)"
    and gap: "map seq_nat gap = [d ..< m]" and out: "seqs_of out = [d ..< Suc m]" "set out \<subseteq> set (p # ps)"
    and a': "asm_next a' = Suc m" "asm_end a' = asm_next a'" "asm_max_retransmission_buffer_size a' = n"
    using asm.deliver_ahead [of ?a p ps oc] a r p ps m by (auto simp: caught_up_def)
  then obtain a1 gap1 out1 out2 where
    first: "assemble_all oc ?a [p] = Done (a1, [gap], out1)"
    and rest: "assemble_all oc a1 ps = Done (a', gaps, out2)" and "out = out1 @ out2"
    by auto
  have pending: "rr_pending_end r = None" "rr_pending_end (r\<lparr> rr_assembler := a1 \<rparr>) = None"
    using r by (simp_all add: caught_up_def)
  obtain c1 es1 b1 where
    one: "recv_session oc r c (map PacketReceived [p]) = Done (r\<lparr> rr_assembler := a1 \<rparr>, c1, es1, b1, False)"
    and b1: "concat b1 = map chunk_of_packet out1" "nacks_of es1 = filter (\<lambda>g. g \<noteq> []) [gap]"
    using recv_session_only_packets [OF pending(1) first, of c] by blast
  have "assemble_all oc (rr_assembler (r\<lparr> rr_assembler := a1 \<rparr>)) ps = Done (a', gaps, out2)"
    using rest by simp
  from recv_session_only_packets [OF pending(2) this, of c1] obtain c2 es2 b2 where
    two: "recv_session oc (r\<lparr> rr_assembler := a1 \<rparr>) c1 (map PacketReceived ps) =
       Done (r\<lparr> rr_assembler := a1, rr_assembler := a' \<rparr>, c2, es2, b2, False)"
    and b2: "concat b2 = map chunk_of_packet out2"
    by blast
  have "caught_up (r\<lparr> rr_assembler := a1, rr_assembler := a' \<rparr>) n (Suc m)"
    using r a' by (simp add: caught_up_def flip: asm_empty_iff)
  moreover have "gap \<noteq> []" using arg_cong [OF gap, of length] m(1) by auto
  then have "nacks_of es1 = [gap]" using b1(2) by simp
  moreover have "concat (b1 @ b2) = map chunk_of_packet out" using b1(1) b2 \<open>out = out1 @ out2\<close> by simp
  ultimately show ?thesis using one two gap out by auto
qed

text \<open>Packets of a history that are numbered in order are its deliveries.\<close>

lemma deliveries_in_order:
  assumes "seqs_of out = [d ..< length hist]" and "length hist < 2 ^ 32"
    and "set out \<subseteq> delivery_of sid (SequenceNumber 0) hist ` {..<length hist}"
  shows "map chunk_of_packet out = drop d (chunks_of hist)"
proof (rule nth_equalityI)
  have len: "length out = length hist - d" using arg_cong [OF assms(1), of length] by simp
  then show "length (map chunk_of_packet out) = length (drop d (chunks_of hist))" by (simp add: chunks_of_def)
  fix i assume "i < length (map chunk_of_packet out)"
  then have i: "i < length out" "d + i < length hist" using len by simp_all
  then have "out ! i \<in> set out" by simp
  with assms(3) obtain j where j: "j < length hist" "out ! i = delivery_of sid (SequenceNumber 0) hist j" by auto
  have "seq_nat (pkt_sequence_number (out ! i)) = d + i"
    using arg_cong [OF assms(1), of "\<lambda>xs. xs ! i"] i by simp
  moreover have "seq_nat (pkt_sequence_number (out ! i)) = j"
    using j assms(2) by (simp add: delivery_of_def nth_seq_def seq_nat_of_nat)
  ultimately have "out ! i = delivery_of sid (SequenceNumber 0) hist (d + i)" using j by simp
  then show "map chunk_of_packet out ! i = drop d (chunks_of hist) ! i"
    using i by (simp add: chunks_of_def delivery_of_def chunk_of_packet_def split: prod.split)
qed

section \<open>The legs of a recovery\<close>

lemma sends_received:
  assumes run: "content_run B Sem (send_stream_new sid Dual cmp seq k Map.empty mtu) hist s"
    and B: "byte_buf B" and lossless: "lossless (compress cmp) (decompress cmp)" and groups: "0 < groups"
  shows "\<exists>g. \<forall>j < length hist. snd (snd (hist ! j)) = map (serialize_packet B) (g j) \<and>
     (\<forall>p \<in> set (g j). pkt_stream_id p = sid) \<and>
     receive_all B (packet_receiver_new 2 cmp groups) (all_alive (g j)) =
       Done (packet_receiver_new 2 cmp groups, map (\<lambda>i. (i, delivery_of sid seq hist j)) [0 ..< 2], False)"
proof -
  let ?s0 = "send_stream_new sid Dual cmp seq k Map.empty mtu" and ?r = "packet_receiver_new 2 cmp groups"
  have s0: "ss_compression ?s0 = cmp" "ss_id ?s0 = sid" "ss_sequence_counter ?s0 = seq"
    by (simp_all add: send_stream_new_def)
  have r: "pr_fragment_buffers ?r = Map.empty" "0 < pr_max_fragment_groups ?r" "0 < pr_senders ?r" "pr_senders ?r = 2"
    "lossless (compress (ss_compression ?s0)) (decompress (pr_compression ?r))"
    using lossless groups by (simp_all add: packet_receiver_new_def s0)
  have "\<forall>j \<in> {..<length hist}. \<exists>ps. snd (snd (hist ! j)) = map (serialize_packet B) ps \<and> (\<forall>p \<in> set ps. pkt_stream_id p = sid) \<and>
      receive_all B ?r (all_alive ps) = Done (?r, map (\<lambda>i. (i, delivery_of sid seq hist j)) [0 ..< 2], False)"
    using content_run_received [OF run _ B r(5,1,2,3)] unfolding r(4) s0 by (intro ballI) simp
  from bchoice [OF this] show ?thesis by auto
qed

lemma last_send_arrives:
  assumes B: "byte_buf B" and registered: "dr_senders router sid = Some channel"
    and sent: "snd (snd (hist ! m)) = map (serialize_packet B) ps" "\<forall>p \<in> set ps. pkt_stream_id p = sid"
    and last: "length hist = Suc m"
  shows "router_run B router (map (DatagramRead now True) (snd (snd (last hist)))) =
    Done (router, map (\<lambda>p. (channel, p)) ps)"
proof -
  have "last hist = hist ! m" using last by (metis diff_Suc_1 last_conv_nth length_0_conv nat.distinct(1))
  with router_run_delivers [OF B registered sent(2)] sent(1) show ?thesis by (simp add: comp_def)
qed

lemma nack_brings_back:
  assumes B: "byte_buf B" and lossless: "lossless (compress cmp) (decompress cmp)"
    and run: "content_run B Sem (send_stream_new sid Dual cmp seq k Map.empty mtu) hist s"
    and hist: "m \<le> length hist" "length hist \<le> d + k" "0 < k" "k < 2 ^ 32" and groups: "0 < groups"
    and sender: "st_role t = SenderRole (ss_retransmission_buffer s) ack" "\<And>i. env_tx env i = (\<lambda>_. Inr ())"
    and receiver: "st_role u = ReceiverRole pipeline init" "st_id u = sid" "env_retrans_try_send env' = TrySendOk"
  shows "\<exists>packets deliveries.
     handle_nack B env t \<lparr> nack_sequence_numbers = map (nth_seq seq) [d ..< m] \<rparr> =
       (t, map (\<lambda>p. Wrote (Retrans (retrans_of (pkt_sequence_number p) p))) packets, True) \<and>
     map (\<lambda>p. handle_message B L Sem env' u (read_frame B (received (serialize_mani_message B
         (Retrans (retrans_of (pkt_sequence_number p) p)))))) packets =
       map (\<lambda>p. Done (u, [RetransDelivered p], True)) packets \<and>
     receive_all B (packet_receiver_new 2 cmp groups) (all_alive packets) =
       Done (packet_receiver_new 2 cmp groups, deliveries, False) \<and>
     on_channel 0 deliveries = map (delivery_of sid seq hist) [d ..< m]"
proof -
  from sends_received [OF run B lossless groups] obtain g where
    g: "\<And>j. j < length hist \<Longrightarrow> snd (snd (hist ! j)) = map (serialize_packet B) (g j)"
    "\<And>j. j < length hist \<Longrightarrow> receive_all B (packet_receiver_new 2 cmp groups) (all_alive (g j)) =
       Done (packet_receiver_new 2 cmp groups, map (\<lambda>i. (i, delivery_of sid seq hist j)) [0 ..< 2], False)"
    by blast
  have "ss_sequence_counter (send_stream_new sid Dual cmp seq k Map.empty mtu) = seq" by (simp add: send_stream_new_def)
  note send_run = content_run_send_run [OF run, unfolded this]
  let ?hist = "numbered seq hist"
  have "set [d ..< m] \<subseteq> {j. j < length ?hist \<and> length ?hist \<le> j + k}" using hist by (auto simp: numbered_def)
  from nack_answered [OF B send_run hist(3,4) sender receiver this] obtain packets where
    packets: "map (serialize_packet B) packets = concat (map (\<lambda>j. snd (?hist ! j)) [d ..< m])"
    and nack: "handle_nack B env t \<lparr> nack_sequence_numbers = map (\<lambda>j. fst (?hist ! j)) [d ..< m] \<rparr> =
       (t, map (\<lambda>p. Wrote (Retrans (retrans_of (pkt_sequence_number p) p))) packets, True)"
    and retrans: "map (\<lambda>p. handle_message B L Sem env' u (read_frame B (received (serialize_mani_message B
         (Retrans (retrans_of (pkt_sequence_number p) p)))))) packets =
       map (\<lambda>p. Done (u, [RetransDelivered p], True)) packets"
    by blast
  have sent: "map (\<lambda>j. snd (?hist ! j)) [d ..< m] = map (\<lambda>j. map (serialize_packet B) (g j)) [d ..< m]"
    and named: "map (\<lambda>j. fst (?hist ! j)) [d ..< m] = map (nth_seq seq) [d ..< m]"
    using g(1) hist(1) by (simp_all add: numbered_def)
  have "map (serialize_packet B) packets = map (serialize_packet B) (concat (map g [d ..< m]))"
    unfolding packets sent by (simp add: map_concat comp_def)
  then have "packets = concat (map g [d ..< m])"
    by (rule map_injective [OF _ serialize_packet_inj [OF B]])
  moreover have "receive_all B (packet_receiver_new 2 cmp groups) (all_alive (concat (map g [d ..< m]))) =
      Done (packet_receiver_new 2 cmp groups,
        concat (map (\<lambda>j. map (\<lambda>i. (i, delivery_of sid seq hist j)) [0 ..< 2]) [d ..< m]), False)"
    using hist(1) by (intro receive_groups g(2)) simp
  ultimately have "receive_all B (packet_receiver_new 2 cmp groups) (all_alive packets) =
      Done (packet_receiver_new 2 cmp groups,
        concat (map (\<lambda>j. map (\<lambda>i. (i, delivery_of sid seq hist j)) [0 ..< 2]) [d ..< m]), False)"
    by (simp only:)
  moreover have "on_channel 0 (concat (map (\<lambda>j. map (\<lambda>i. (i, delivery_of sid seq hist j)) [0 ..< 2]) [d ..< m])) =
      map (delivery_of sid seq hist) [d ..< m]"
    by (rule on_channel_copies) simp
  ultimately show ?thesis using nack [unfolded named] retrans by blast
qed

lemma gap_named:
  assumes "map seq_nat gap = [d ..< m]" and "m < 2 ^ 32"
  shows "gap = map (nth_seq (SequenceNumber 0)) [d ..< m]"
proof (rule map_injective [of seq_nat])
  show "map seq_nat gap = map seq_nat (map (nth_seq (SequenceNumber 0)) [d ..< m])"
    unfolding assms(1) using assms(2)
    by (intro nth_equalityI) (simp_all add: nth_seq_def seq_nat_of_nat flip: of_nat_add)
  show "inj seq_nat" by (simp add: inj_def seq_nat_inject)
qed

text \<open>The sessions of the application, over the deliveries of a history.\<close>

lemma history_recovered:
  assumes "caught_up r n d" and "length hist = Suc m" and "d < m" and "Suc m - d < n" and "Suc m < 2 ^ 32"
  shows "\<exists>r1 c1 es1 b1 r2 c2 es2 b2.
     recv_session oc r c [PacketReceived (delivery_of sid (SequenceNumber 0) hist m)] =
       Done (r1, c1, es1, b1, False) \<and>
     nacks_of es1 = [map (nth_seq (SequenceNumber 0)) [d ..< m]] \<and>
     recv_session oc r1 c1 (map PacketReceived (map (delivery_of sid (SequenceNumber 0) hist) [d ..< m])) =
       Done (r2, c2, es2, b2, False) \<and> caught_up r2 n (Suc m) \<and>
     concat (b1 @ b2) = drop d (chunks_of hist)"
proof -
  let ?e = "delivery_of sid (SequenceNumber 0) hist"
  have seq: "seq_nat (pkt_sequence_number (?e j)) = j" if "j \<le> m" for j
    using that assms(5) by (simp add: delivery_of_def nth_seq_def seq_nat_of_nat)
  then have "seqs_of (map ?e [d ..< m]) = [d ..< m]" by (intro nth_equalityI) simp_all
  from recovering_sessions [OF assms(1) seq [OF order_refl] this assms(3-5), of oc c] obtain r1 c1 es1 b1 r2 c2 es2 b2 gap out where
    sessions: "recv_session oc r c [PacketReceived (?e m)] = Done (r1, c1, es1, b1, False)"
      "recv_session oc r1 c1 (map PacketReceived (map ?e [d ..< m])) = Done (r2, c2, es2, b2, False)"
    and caught: "caught_up r2 n (Suc m)"
    and gap: "nacks_of es1 = [gap]" "map seq_nat gap = [d ..< m]"
    and out: "concat (b1 @ b2) = map chunk_of_packet out" "seqs_of out = [d ..< Suc m]"
      "set out \<subseteq> set (?e m # map ?e [d ..< m])"
    by blast
  have "set out \<subseteq> ?e ` {..<length hist}" using out(3) assms(2) by auto
  then have "map chunk_of_packet out = drop d (chunks_of hist)"
    using deliveries_in_order [of out d hist sid] out(2) assms(2,5) by simp
  moreover have "gap = map (nth_seq (SequenceNumber 0)) [d ..< m]" using gap_named [OF gap(2)] assms(5) by simp
  ultimately show ?thesis using sessions gap(1) out(1) caught by metis
qed

text \<open>Runs exist, for the concrete instances.\<close>

lemma plain_content_run:
  "\<exists>hist s. content_run be_ops counting_ops (plain_stream None) hist s \<and>
     map (\<lambda>(ts, content, sent). (ts, content)) hist = cs \<and> ss_max_datagram_size s = None"
proof (induction cs rule: rev_induct)
  case Nil
  have "ss_max_datagram_size (plain_stream None) = None" by (simp add: plain_stream_def send_stream_new_def)
  with content_run.no_content show ?case by fastforce
next
  case (snoc c cs)
  obtain ts content where c: "c = (ts, content)" by (cases c)
  from snoc obtain hist s where run: "content_run be_ops counting_ops (plain_stream None) hist s"
    and hist: "map (\<lambda>(ts, content, sent). (ts, content)) hist = cs" and mtu: "ss_max_datagram_size s = None"
    by blast
  let ?packets = "[\<lparr> pkt_stream_id = ss_id s, pkt_sequence_number = ss_sequence_counter s,
             pkt_timestamp = ts, pkt_content = encode_single_content (compress (ss_compression s) content) \<rparr>]"
  have build: "build_packets be_ops s ts (compress (ss_compression s) content) = Done ?packets"
    by (rule build_packets_single) (simp add: needs_fragment_def mtu)
  obtain s' bank' where send: "send be_ops counting_ops (\<lambda>_ _. Inr ()) s \<lparr> bank_sem = (5, False) \<rparr> ts content =
      Done (Returned s' bank' (map (serialize_packet be_ops) ?packets) (Inr ()))"
    using counting.send_succeeds [OF build, of "\<lparr> bank_sem = (5, False) \<rparr>" "\<lambda>_ _. Inr ()"]
    by (auto simp: counting.shut_def counting.credits_def)
  then have "ss_max_datagram_size s' = None" using mtu by (cases rule: send_ReturnedE) auto
  with content_run.more_content [OF run send] hist c show ?case by fastforce
qed

end
