(* ===== verification/Config.thy ===== *)
theory Config
  imports Prelude
begin

text \<open>
  The configuration structs and their defaults, \<^verbatim>\<open>src/src/config.rs\<close>.
\<close>

section \<open>Time\<close>

text \<open>
  A \<open>Duration\<close> is its number of nanoseconds and an \<open>Instant\<close> the number of nanoseconds
  since some origin.
\<close>

type_synonym duration = nat

definition from_millis :: "nat \<Rightarrow> duration" where
  "from_millis ms = ms * 10 ^ 6"

definition from_secs :: "nat \<Rightarrow> duration" where
  "from_secs secs = secs * 10 ^ 9"

definition as_millis :: "duration \<Rightarrow> nat" where
  "as_millis d = d div 10 ^ 6"

lemma as_millis_from_millis [simp]: "as_millis (from_millis ms) = ms"
  by (simp add: as_millis_def from_millis_def)

lemma from_millis_as_millis_le: "from_millis (as_millis d) \<le> d"
  by (simp add: as_millis_def from_millis_def)

section \<open>Configurations\<close>

record mani_config =
  max_retransmission_buffer_size :: nat
  max_nack_channel_size :: nat
  max_datagram_channel_size :: nat
  max_chunk_buffer_size :: nat
  pending_chunk_timeout :: duration
  pending_chunk_cleanup_interval :: duration
  initial_backpressure_credits :: nat
  backpressure_credit_batch_size :: nat
  sender_transfer_credits_request_interval :: "duration option"
  config_max_datagram_size :: "nat option"

definition mani_config_default :: mani_config where
  "mani_config_default =
     \<lparr> max_retransmission_buffer_size = 1024,
       max_nack_channel_size = 100,
       max_datagram_channel_size = 1000,
       max_chunk_buffer_size = 1000,
       pending_chunk_timeout = from_secs 5,
       pending_chunk_cleanup_interval = from_secs 1,
       initial_backpressure_credits = 100,
       backpressure_credit_batch_size = 1,
       sender_transfer_credits_request_interval = Some (from_millis 500),
       config_max_datagram_size = None \<rparr>"

record protofish_config =
  retransmission_buffer_size :: nat
  pf_mani_config :: mani_config
  handshake_timeout :: duration
  keepalive_timeout :: duration

definition protofish_config_default :: protofish_config where
  "protofish_config_default =
     \<lparr> retransmission_buffer_size = 1024, pf_mani_config = mani_config_default,
       handshake_timeout = from_secs 4, keepalive_timeout = from_secs 9 \<rparr>"

text \<open>\<open>'f\<close> stands for \<open>f64\<close>; \<open>one_and_a_half\<close> is the literal 1.5.\<close>

record 'f reconnect_config =
  initial_backoff :: duration
  max_backoff :: duration
  backoff_multiplier :: 'f
  max_retries :: "nat option"

definition reconnect_config_default :: "'f \<Rightarrow> 'f reconnect_config" where
  "reconnect_config_default one_and_a_half =
     \<lparr> initial_backoff = from_millis 500, max_backoff = from_secs 30,
       backoff_multiplier = one_and_a_half, max_retries = None \<rparr>"

end
