(* ===== verification/Conn_Codec.thy ===== *)
theory Conn_Codec
  imports Compression "HOL-Library.List_Lexorder"
begin

text \<open>
  The control stream of a connection: its messages, \<^verbatim>\<open>src/src/connection/message.rs\<close>, and
  their wire format, \<^verbatim>\<open>src/src/connection/codec.rs\<close>.
\<close>

section \<open>Messages\<close>

text \<open>
  A Rust \<open>String\<close> is its UTF-8 bytes; a \<open>HashMap<String, Bytes>\<close> is a finite map.
\<close>

type_synonym rust_string = bytes
type_synonym headers = "rust_string \<Rightarrow> bytes option"

datatype connection_message_type =
    ClientHello_type
  | ServerHello_type
  | Keepalive_type
  | KeepaliveAck_type
  | Error_type
  | Close_type

fun connection_message_type_as_u8 :: "connection_message_type \<Rightarrow> u8" where
  "connection_message_type_as_u8 ClientHello_type = 0x01"
| "connection_message_type_as_u8 ServerHello_type = 0x02"
| "connection_message_type_as_u8 Keepalive_type = 0x03"
| "connection_message_type_as_u8 KeepaliveAck_type = 0x04"
| "connection_message_type_as_u8 Error_type = 0x05"
| "connection_message_type_as_u8 Close_type = 0x06"

definition connection_message_type_from_u8 :: "u8 \<Rightarrow> connection_message_type option" where
  "connection_message_type_from_u8 v =
     (if v = 0x01 then Some ClientHello_type
      else if v = 0x02 then Some ServerHello_type
      else if v = 0x03 then Some Keepalive_type
      else if v = 0x04 then Some KeepaliveAck_type
      else if v = 0x05 then Some Error_type
      else if v = 0x06 then Some Close_type
      else None)"

record client_hello =
  ch_version :: u16
  ch_host :: rust_string
  ch_headers :: headers
  ch_available_compression_types :: "compression_type list"
  ch_keepalive_min_ms :: u32
  ch_keepalive_max_ms :: u32

record server_hello =
  sh_version :: u16
  sh_headers :: headers
  sh_compression_type :: compression_type
  sh_keepalive_interval_ms :: u32

record connection_error_msg =
  ce_code :: u16
  ce_message :: rust_string
  ce_close :: bool

datatype connection_message =
    ClientHello client_hello
  | ServerHello server_hello
  | Keepalive
  | KeepaliveAck
  | ConnectionErrorMessage connection_error_msg
  | Close

section \<open>UTF-8\<close>

text \<open>
  \<open>String::from_utf8\<close> accepts the well-formed byte sequences of the Unicode standard:
  shortest forms only, no surrogates, nothing above U+10FFFF.
\<close>

definition utf8_cont :: "u8 \<Rightarrow> bool" where
  "utf8_cont b \<longleftrightarrow> 0x80 \<le> b \<and> b \<le> 0xBF"

definition utf8_lead3 :: "u8 \<Rightarrow> u8 \<Rightarrow> bool" where
  "utf8_lead3 a b \<longleftrightarrow>
     a = 0xE0 \<and> 0xA0 \<le> b \<and> b \<le> 0xBF \<or>
     (0xE1 \<le> a \<and> a \<le> 0xEC \<or> 0xEE \<le> a \<and> a \<le> 0xEF) \<and> utf8_cont b \<or>
     a = 0xED \<and> 0x80 \<le> b \<and> b \<le> 0x9F"

definition utf8_lead4 :: "u8 \<Rightarrow> u8 \<Rightarrow> bool" where
  "utf8_lead4 a b \<longleftrightarrow>
     a = 0xF0 \<and> 0x90 \<le> b \<and> b \<le> 0xBF \<or>
     0xF1 \<le> a \<and> a \<le> 0xF3 \<and> utf8_cont b \<or>
     a = 0xF4 \<and> 0x80 \<le> b \<and> b \<le> 0x8F"

fun utf8_valid :: "bytes \<Rightarrow> bool" where
  "utf8_valid [] = True"
| "utf8_valid (a # bs) =
     (if a < 0x80 then utf8_valid bs
      else
        (case bs of
           [] \<Rightarrow> False
         | b # bs \<Rightarrow>
             if 0xC2 \<le> a \<and> a \<le> 0xDF then utf8_cont b \<and> utf8_valid bs
             else
               (case bs of
                  [] \<Rightarrow> False
                | c # bs \<Rightarrow>
                    if utf8_lead3 a b then utf8_cont c \<and> utf8_valid bs
                    else
                      (case bs of
                         [] \<Rightarrow> False
                       | d # bs \<Rightarrow> utf8_lead4 a b \<and> utf8_cont c \<and> utf8_cont d \<and> utf8_valid bs))))"

section \<open>Parser\<close>

datatype connection_message_parse_error =
    InvalidConnectionMessageType u8
  | InvalidConnectionMessageFormat
  | StringDecodeError
  | UnexpectedEndOfConnectionMessage try_get_error

abbreviation conn_read ::
  "try_get_error + 'a \<Rightarrow> ('a \<Rightarrow> connection_message_parse_error + 'b) \<Rightarrow> connection_message_parse_error + 'b" where
  "conn_read r \<equiv> and_then (map_err UnexpectedEndOfConnectionMessage r)"

text \<open>The test of \<open>remaining\<close> and the \<open>copy_to_bytes\<close> after it.\<close>

definition try_copy :: "nat \<Rightarrow> bytes \<Rightarrow> try_get_error + bytes \<times> bytes" where
  "try_copy n cur =
     (if length cur < n then Inl (TryGetError n (length cur))
      else Inr (take n cur, drop n cur))"

definition try_get_string ::
  "buf_ops \<Rightarrow> bytes \<Rightarrow> connection_message_parse_error + rust_string \<times> bytes" where
  "try_get_string B cur =
     conn_read (try_get_u16 B cur) (\<lambda>(len, cur).
     conn_read (try_copy (unat len) cur) (\<lambda>(string_bytes, cur).
       if utf8_valid string_bytes then Inr (string_bytes, cur) else Inl StringDecodeError))"

fun get_header_entries ::
  "buf_ops \<Rightarrow> nat \<Rightarrow> headers \<Rightarrow> bytes \<Rightarrow> connection_message_parse_error + headers \<times> bytes" where
  "get_header_entries B 0 m cur = Inr (m, cur)"
| "get_header_entries B (Suc count) m cur =
     and_then (try_get_string B cur) (\<lambda>(key, cur).
     conn_read (try_get_u16 B cur) (\<lambda>(val_len, cur).
     conn_read (try_copy (unat val_len) cur) (\<lambda>(val, cur).
       get_header_entries B count (m(key \<mapsto> val)) cur)))"

definition try_get_headers ::
  "buf_ops \<Rightarrow> bytes \<Rightarrow> connection_message_parse_error + headers \<times> bytes" where
  "try_get_headers B cur =
     conn_read (try_get_u16 B cur) (\<lambda>(count, cur). get_header_entries B (unat count) Map.empty cur)"

fun get_compression_types ::
  "nat \<Rightarrow> bytes \<Rightarrow> connection_message_parse_error + compression_type list \<times> bytes" where
  "get_compression_types 0 cur = Inr ([], cur)"
| "get_compression_types (Suc count) cur =
     conn_read (try_get_u8 cur) (\<lambda>(ct, cur).
     and_then (ok_or InvalidConnectionMessageFormat (compression_type_from_u8 ct)) (\<lambda>ct.
     and_then (get_compression_types count cur) (\<lambda>(cts, cur). Inr (ct # cts, cur))))"

definition parse_client_hello :: "buf_ops \<Rightarrow> bytes \<Rightarrow> connection_message_parse_error + connection_message" where
  "parse_client_hello B cur =
     conn_read (try_get_u16 B cur) (\<lambda>(version, cur).
     and_then (try_get_string B cur) (\<lambda>(host, cur).
     and_then (try_get_headers B cur) (\<lambda>(hs, cur).
     conn_read (try_get_u8 cur) (\<lambda>(compressions_count, cur).
     and_then (get_compression_types (unat compressions_count) cur) (\<lambda>(cts, cur).
     conn_read (try_get_u32 B cur) (\<lambda>(keepalive_min_ms, cur).
     conn_read (try_get_u32 B cur) (\<lambda>(keepalive_max_ms, cur).
       Inr (ClientHello
             \<lparr> ch_version = version, ch_host = host, ch_headers = hs,
               ch_available_compression_types = cts,
               ch_keepalive_min_ms = keepalive_min_ms, ch_keepalive_max_ms = keepalive_max_ms \<rparr>))))))))"

definition parse_server_hello :: "buf_ops \<Rightarrow> bytes \<Rightarrow> connection_message_parse_error + connection_message" where
  "parse_server_hello B cur =
     conn_read (try_get_u16 B cur) (\<lambda>(version, cur).
     and_then (try_get_headers B cur) (\<lambda>(hs, cur).
     conn_read (try_get_u8 cur) (\<lambda>(ct, cur).
     and_then (ok_or InvalidConnectionMessageFormat (compression_type_from_u8 ct)) (\<lambda>ct.
     conn_read (try_get_u32 B cur) (\<lambda>(keepalive_interval_ms, cur).
       Inr (ServerHello
             \<lparr> sh_version = version, sh_headers = hs, sh_compression_type = ct,
               sh_keepalive_interval_ms = keepalive_interval_ms \<rparr>))))))"

definition parse_error_message :: "buf_ops \<Rightarrow> bytes \<Rightarrow> connection_message_parse_error + connection_message" where
  "parse_error_message B cur =
     conn_read (try_get_u16 B cur) (\<lambda>(code, cur).
     and_then (try_get_string B cur) (\<lambda>(message, cur).
     conn_read (try_get_u8 cur) (\<lambda>(close, cur).
       Inr (ConnectionErrorMessage \<lparr> ce_code = code, ce_message = message, ce_close = (close \<noteq> 0) \<rparr>))))"

definition parse_connection_message ::
  "buf_ops \<Rightarrow> bytes \<Rightarrow> connection_message_parse_error + connection_message" where
  "parse_connection_message B cur =
     conn_read (try_get_u8 cur) (\<lambda>(message_type, cur).
     and_then (ok_or (InvalidConnectionMessageType message_type) (connection_message_type_from_u8 message_type))
       (\<lambda>t. case t of
          ClientHello_type \<Rightarrow> parse_client_hello B cur
        | ServerHello_type \<Rightarrow> parse_server_hello B cur
        | Keepalive_type \<Rightarrow> Inr Keepalive
        | KeepaliveAck_type \<Rightarrow> Inr KeepaliveAck
        | Error_type \<Rightarrow> parse_error_message B cur
        | Close_type \<Rightarrow> Inr Close))"

section \<open>Serialiser\<close>

text \<open>
  Lengths are cast to their fields.  A hash map is iterated in an unspecified order: \<open>ord\<close>
  gives the keys of a map in that order.
\<close>

definition put_string :: "buf_ops \<Rightarrow> rust_string \<Rightarrow> bytes" where
  "put_string B s = put_u16 B (of_nat (length s)) @ s"

definition put_header_entry :: "buf_ops \<Rightarrow> rust_string \<times> bytes \<Rightarrow> bytes" where
  "put_header_entry B e =
     (case e of (k, v) \<Rightarrow> put_string B k @ put_u16 B (of_nat (length v)) @ v)"

definition header_entries :: "(headers \<Rightarrow> rust_string list) \<Rightarrow> headers \<Rightarrow> (rust_string \<times> bytes) list" where
  "header_entries ord hs = map (\<lambda>k. (k, the (hs k))) (ord hs)"

definition put_headers :: "buf_ops \<Rightarrow> (headers \<Rightarrow> rust_string list) \<Rightarrow> headers \<Rightarrow> bytes" where
  "put_headers B ord hs =
     put_u16 B (of_nat (map_len hs)) @ concat (map (put_header_entry B) (header_entries ord hs))"

fun serialize_connection_message ::
  "buf_ops \<Rightarrow> (headers \<Rightarrow> rust_string list) \<Rightarrow> connection_message \<Rightarrow> bytes" where
  "serialize_connection_message B ord (ClientHello hello) =
     connection_message_type_as_u8 ClientHello_type #
     put_u16 B (ch_version hello) @
     put_string B (ch_host hello) @
     put_headers B ord (ch_headers hello) @
     of_nat (length (ch_available_compression_types hello)) #
     map compression_type_as_u8 (ch_available_compression_types hello) @
     put_u32 B (ch_keepalive_min_ms hello) @
     put_u32 B (ch_keepalive_max_ms hello)"
| "serialize_connection_message B ord (ServerHello hello) =
     connection_message_type_as_u8 ServerHello_type #
     put_u16 B (sh_version hello) @
     put_headers B ord (sh_headers hello) @
     compression_type_as_u8 (sh_compression_type hello) #
     put_u32 B (sh_keepalive_interval_ms hello)"
| "serialize_connection_message B ord Keepalive = [connection_message_type_as_u8 Keepalive_type]"
| "serialize_connection_message B ord KeepaliveAck = [connection_message_type_as_u8 KeepaliveAck_type]"
| "serialize_connection_message B ord (ConnectionErrorMessage err) =
     connection_message_type_as_u8 Error_type #
     put_u16 B (ce_code err) @
     put_string B (ce_message err) @
     [if ce_close err then 1 else 0]"
| "serialize_connection_message B ord Close = [connection_message_type_as_u8 Close_type]"

text \<open>
  The control stream's codec around the length-delimited one: \<open>inner\<close> is what that codec
  decoded, an error, or nothing yet.
\<close>

datatype control_error = InnerIo string | InvalidData connection_message_parse_error

definition control_decode ::
  "buf_ops \<Rightarrow> string + bytes option \<Rightarrow> control_error + connection_message option" where
  "control_decode B inner =
     and_then (map_err InnerIo inner) (\<lambda>item.
       case item of
         None \<Rightarrow> Inr None
       | Some frame \<Rightarrow>
           and_then (map_err InvalidData (parse_connection_message B frame)) (\<lambda>msg. Inr (Some msg)))"

definition control_encode ::
  "buf_ops \<Rightarrow> (headers \<Rightarrow> rust_string list) \<Rightarrow> (bytes \<Rightarrow> string + unit) \<Rightarrow> connection_message \<Rightarrow> string + unit" where
  "control_encode B ord inner item = inner (serialize_connection_message B ord item)"

declare try_copy_def [codec_simps] try_get_string_def [codec_simps] try_get_headers_def [codec_simps]
  parse_client_hello_def [codec_simps] parse_server_hello_def [codec_simps] parse_error_message_def [codec_simps]
  put_string_def [codec_simps] put_header_entry_def [codec_simps] put_headers_def [codec_simps]

section \<open>Hash maps\<close>

text \<open>Iterating over a hash map visits every key once.\<close>

locale map_iteration =
  fixes ord :: "headers \<Rightarrow> rust_string list"
  assumes ord_distinct: "finite (dom m) \<Longrightarrow> distinct (ord m)"
    and ord_keys: "finite (dom m) \<Longrightarrow> set (ord m) = dom m"
begin

lemma length_ord: "finite (dom m) \<Longrightarrow> length (ord m) = map_len m"
  using ord_distinct [of m] ord_keys [of m] by (simp add: map_len_def distinct_card [symmetric])

lemma length_header_entries: "finite (dom m) \<Longrightarrow> length (header_entries ord m) = map_len m"
  by (simp add: header_entries_def length_ord)

lemma header_entries_in:
  "finite (dom m) \<Longrightarrow> (k, v) \<in> set (header_entries ord m) \<Longrightarrow> m k = Some v"
  by (auto simp: header_entries_def ord_keys)

text \<open>Inserting the entries one by one, in whatever order, rebuilds the map.\<close>

lemma insert_entries: "foldl (\<lambda>m (k, v). m(k \<mapsto> v)) m0 es = m0 ++ map_of (rev es)"
  by (induction es arbitrary: m0) auto

lemma insert_header_entries:
  assumes "finite (dom m)"
  shows "foldl (\<lambda>m (k, v). m(k \<mapsto> v)) Map.empty (header_entries ord m) = m"
proof -
  have "map_of (rev (header_entries ord m)) = (Some \<circ> (\<lambda>k. the (m k))) |` dom m"
    using ord_keys [OF assms] by (simp add: header_entries_def rev_map map_of_map_restrict)
  also have "\<dots> = m"
  proof
    fix x
    show "((Some \<circ> (\<lambda>k. the (m k))) |` dom m) x = m x"
      by (cases "m x") (simp_all add: restrict_map_def domIff)
  qed
  finally show ?thesis by (simp add: insert_entries)
qed

end

text \<open>Iteration in sorted order is one of the orders.\<close>

definition sorted_keys :: "headers \<Rightarrow> rust_string list" where
  "sorted_keys m = sorted_list_of_set (dom m)"

interpretation sorted_iteration: map_iteration sorted_keys
  by unfold_locales (simp_all add: sorted_keys_def)

section \<open>Round trips\<close>

text \<open>The messages whose lengths fit their fields and whose strings are strings.\<close>

definition string_ok :: "rust_string \<Rightarrow> bool" where
  "string_ok s \<longleftrightarrow> utf8_valid s \<and> length s < 2 ^ 16"

definition entry_ok :: "rust_string \<times> bytes \<Rightarrow> bool" where
  "entry_ok e \<longleftrightarrow> string_ok (fst e) \<and> length (snd e) < 2 ^ 16"

definition headers_ok :: "headers \<Rightarrow> bool" where
  "headers_ok hs \<longleftrightarrow>
     finite (dom hs) \<and> map_len hs < 2 ^ 16 \<and> (\<forall>k v. hs k = Some v \<longrightarrow> entry_ok (k, v))"

fun conn_encodable :: "connection_message \<Rightarrow> bool" where
  "conn_encodable (ClientHello hello) =
     (string_ok (ch_host hello) \<and> headers_ok (ch_headers hello) \<and>
      length (ch_available_compression_types hello) < 2 ^ 8)"
| "conn_encodable (ServerHello hello) = headers_ok (sh_headers hello)"
| "conn_encodable (ConnectionErrorMessage err) = string_ok (ce_message err)"
| "conn_encodable _ = True"

lemma connection_message_type_from_as [simp]:
  "connection_message_type_from_u8 (connection_message_type_as_u8 t) = Some t"
  by (cases t) (simp_all add: connection_message_type_from_u8_def)

lemma connection_message_type_from_Some:
  "connection_message_type_from_u8 v = Some t \<longleftrightarrow> v = connection_message_type_as_u8 t"
  by (cases t) (auto simp: connection_message_type_from_u8_def split: if_splits)

declare connection_message_type_as_u8.simps [simp del]

lemma parse_connection_message_Cons:
  "parse_connection_message B (connection_message_type_as_u8 t # cur) =
     (case t of
          ClientHello_type \<Rightarrow> parse_client_hello B cur
        | ServerHello_type \<Rightarrow> parse_server_hello B cur
        | Keepalive_type \<Rightarrow> Inr Keepalive
        | KeepaliveAck_type \<Rightarrow> Inr KeepaliveAck
        | Error_type \<Rightarrow> parse_error_message B cur
        | Close_type \<Rightarrow> Inr Close)"
  by (simp add: parse_connection_message_def)

lemma get_compression_types_map:
  "get_compression_types (length cts) (map compression_type_as_u8 cts @ rest) = Inr (cts, rest)"
  by (induction cts) simp_all

lemma try_copy_append: "n = length bs \<Longrightarrow> try_copy n (bs @ rest) = Inr (bs, rest)"
  by (simp add: try_copy_def)

context byte_buf
begin

lemma get_put_string: "string_ok s \<Longrightarrow> try_get_string B (put_string B s @ rest) = Inr (s, rest)"
  by (simp add: try_get_string_def put_string_def string_ok_def get_put unat_of_nat_u16 try_copy_append)

lemma put_header_entry_pair:
  "put_header_entry B (k, v) = put_string B k @ put_u16 B (of_nat (length v)) @ v"
  by (simp add: put_header_entry_def)

lemma get_put_entries:
  assumes "\<forall>e \<in> set es. entry_ok e"
  shows "get_header_entries B (length es) m (concat (map (put_header_entry B) es) @ rest) =
     Inr (foldl (\<lambda>m (k, v). m(k \<mapsto> v)) m es, rest)"
  using assms
proof (induction es arbitrary: m)
  case (Cons e es)
  obtain k v where e: "e = (k, v)" by (cases e)
  with Cons.prems have ok: "string_ok k" "length v < 2 ^ 16" by (simp_all add: entry_ok_def)
  then have "unat (of_nat (length v) :: u16) = length v" by (intro unat_of_nat_u16)
  moreover have "get_header_entries B (length es) (m(k \<mapsto> v))
      (concat (map (put_header_entry B) es) @ rest) =
      Inr (foldl (\<lambda>m (k, v). m(k \<mapsto> v)) (m(k \<mapsto> v)) es, rest)"
    using Cons.prems by (intro Cons.IH) simp
  ultimately show ?case
    using ok by (simp add: e put_header_entry_pair get_put_string get_put try_copy_append del: fun_upd_apply)
qed simp

end

text \<open>Both libraries together.\<close>

locale control_codec = byte_buf B + map_iteration ord for B :: buf_ops and ord :: "headers \<Rightarrow> rust_string list"
begin

lemma get_put_headers:
  assumes "headers_ok hs"
  shows "try_get_headers B (put_headers B ord hs @ rest) = Inr (hs, rest)"
proof -
  have fin: "finite (dom hs)" and "map_len hs < 2 ^ 16" using assms by (simp_all add: headers_ok_def)
  then have "unat (of_nat (map_len hs) :: u16) = length (header_entries ord hs)"
    by (simp add: unat_of_nat_u16 length_header_entries)
  moreover have "\<forall>e \<in> set (header_entries ord hs). entry_ok e"
    using assms header_entries_in [OF fin] by (auto simp: headers_ok_def)
  ultimately show ?thesis
    using get_put_entries [of "header_entries ord hs" Map.empty rest] insert_header_entries [OF fin]
    by (simp add: try_get_headers_def put_headers_def get_put)
qed

lemma conn_parse_serialize:
  assumes "conn_encodable m"
  shows "parse_connection_message B (serialize_connection_message B ord m @ rest) = Inr m"
proof (cases m)
  case (ClientHello hello)
  have "unat (of_nat (length (ch_available_compression_types hello)) :: u8) =
      length (ch_available_compression_types hello)"
    using assms ClientHello by (simp add: unat_of_nat)
  then show ?thesis
    using assms ClientHello
    by (simp add: parse_connection_message_Cons parse_client_hello_def get_put get_put_string
        get_put_headers get_compression_types_map)
next
  case (ServerHello hello)
  then show ?thesis
    using assms
    by (simp add: parse_connection_message_Cons parse_server_hello_def get_put get_put_headers)
next
  case (ConnectionErrorMessage err)
  then show ?thesis
    using assms
    by (simp add: parse_connection_message_Cons parse_error_message_def get_put get_put_string)
qed (simp_all add: parse_connection_message_Cons)

end

sublocale control_codec \<subseteq> conn:
  codec "serialize_connection_message B ord" "parse_connection_message B" Inr conn_encodable
  using conn_parse_serialize [where rest = "[]"] by unfold_locales auto

interpretation control: control_codec be_ops sorted_keys
  by (simp add: control_codec_def be.byte_buf_axioms sorted_iteration.map_iteration_axioms)

section \<open>What the parser accepts\<close>

lemma unat_u16_less: "unat (w :: u16) < 2 ^ 16"
  using unsigned_less [of w] by simp

lemma try_get_string_ok: "try_get_string B cur = Inr (s, rest) \<Longrightarrow> string_ok s"
  using unat_u16_less by (auto simp: try_get_string_def try_copy_def string_ok_def split: if_splits)

lemma get_header_entries_ok:
  assumes "get_header_entries B n m cur = Inr (m', rest)"
    and "finite (dom m)" and "\<forall>k v. m k = Some v \<longrightarrow> entry_ok (k, v)"
  shows "finite (dom m') \<and> map_len m' \<le> map_len m + n \<and> (\<forall>k v. m' k = Some v \<longrightarrow> entry_ok (k, v))"
  using assms
proof (induction n arbitrary: m cur)
  case 0
  then show ?case by simp
next
  case (Suc n)
  from Suc.prems(1) obtain key cur1 len cur2 val cur3 where
    key: "try_get_string B cur = Inr (key, cur1)" and len: "try_get_u16 B cur1 = Inr (len, cur2)"
    and val: "try_copy (unat len) cur2 = Inr (val, cur3)"
    and rest: "get_header_entries B n (m(key \<mapsto> val)) cur3 = Inr (m', rest)"
    by auto
  have "length val < 2 ^ 16" using val unat_u16_less [of len] by (auto simp: try_copy_def split: if_splits)
  then have entries: "\<forall>k v. (m(key \<mapsto> val)) k = Some v \<longrightarrow> entry_ok (k, v)"
    using Suc.prems(3) try_get_string_ok [OF key] by (auto simp: entry_ok_def)
  have "map_len (m(key \<mapsto> val)) \<le> Suc (map_len m)" "finite (dom (m(key \<mapsto> val)))"
    using Suc.prems(2) by (simp_all add: map_len_upd)
  with Suc.IH [OF rest this(2) entries] show ?case
    by (elim conjE, intro conjI) (assumption | linarith)+
qed

lemma try_get_headers_ok:
  assumes "try_get_headers B cur = Inr (hs, rest)"
  shows "headers_ok hs"
proof -
  from assms obtain count cur1 where "get_header_entries B (unat (count :: u16)) Map.empty cur1 = Inr (hs, rest)"
    by (auto simp: try_get_headers_def)
  from get_header_entries_ok [OF this] unat_u16_less [of count] show ?thesis
    by (auto simp: headers_ok_def)
qed

lemma get_compression_types_length:
  "get_compression_types n cur = Inr (cts, rest) \<Longrightarrow> length cts = n"
  by (induction n arbitrary: cur cts) auto

lemma parse_client_hello_ok:
  assumes "parse_client_hello B cur = Inr m"
  shows "conn_encodable m"
proof -
  from assms obtain version cur1 host cur2 hs cur3 n cur4 cts cur5 lo cur6 hi cur7 where
    "try_get_string B cur1 = Inr (host, cur2)" "try_get_headers B cur2 = Inr (hs, cur3)"
    and cts: "get_compression_types (unat (n :: u8)) cur4 = Inr (cts, cur5)"
    and m: "m = ClientHello \<lparr> ch_version = version, ch_host = host, ch_headers = hs,
         ch_available_compression_types = cts, ch_keepalive_min_ms = lo, ch_keepalive_max_ms = hi \<rparr>"
    by (auto simp: parse_client_hello_def)
  then show ?thesis
    using get_compression_types_length [OF cts] unat_u8_less [of n]
    by (simp add: try_get_string_ok try_get_headers_ok)
qed

lemma conn_parse_encodable:
  assumes "parse_connection_message B bs = Inr m"
  shows "conn_encodable m"
proof -
  obtain t cur where "parse_connection_message B (connection_message_type_as_u8 t # cur) = Inr m"
    using assms
    by (cases bs) (auto simp: parse_connection_message_def connection_message_type_from_Some)
  then show ?thesis
    by (cases t)
      (auto simp: parse_connection_message_Cons parse_client_hello_ok parse_server_hello_def
        parse_error_message_def dest: try_get_string_ok try_get_headers_ok)
qed

section \<open>Properties\<close>

text \<open>C17: Every control message whose lengths fit their fields survives serialisation and
  parsing unchanged, whatever order the headers are iterated in and whatever follows it in
  the frame; and what the parser accepts, however it was produced, is such a message, with
  valid UTF-8 strings, and serialises again to a frame that parses to it.\<close>

theorem connection_message_roundtrip:
  assumes "byte_buf B" and "map_iteration ord"
    and "conn_encodable m" and "parse_connection_message B frame = Inr m'"
  shows "parse_connection_message B (serialize_connection_message B ord m @ rest) = Inr m \<and>
    conn_encodable m' \<and>
    parse_connection_message B (serialize_connection_message B ord m' @ rest) = Inr m'"
  using control_codec.conn_parse_serialize [of B ord _ rest] conn_parse_encodable [OF assms(4)] assms(1-3)
  by (simp add: control_codec_def)

definition sample_hello :: connection_message where
  "sample_hello = ServerHello
     \<lparr> sh_version = 1, sh_headers = [[0x61] \<mapsto> [0xFF, 0x00]], sh_compression_type = Zstd,
       sh_keepalive_interval_ms = 5000 \<rparr>"

theorem connection_message_roundtrip_witness:
  "parse_connection_message be_ops (serialize_connection_message be_ops sorted_keys sample_hello @ [7]) =
     Inr sample_hello \<and>
   parse_connection_message be_ops (serialize_connection_message be_ops sorted_keys Keepalive @ [7]) =
     Inr Keepalive"
proof -
  have "conn_encodable sample_hello"
    by (simp add: sample_hello_def headers_ok_def entry_ok_def string_ok_def map_len_def)
  moreover have "parse_connection_message be_ops [3] = Inr Keepalive"
    by (simp add: parse_connection_message_def connection_message_type_from_u8_def)
  ultimately show ?thesis
    using connection_message_roundtrip [OF be.byte_buf_axioms sorted_iteration.map_iteration_axioms]
    by blast
qed

end
