(* ===== verification/Connection.thy ===== *)
theory Connection
  imports Config Conn_Codec Router Mani_Stream
begin

text \<open>
  Connections, \<^verbatim>\<open>src/src/connection/api.rs\<close>: the handshake of both sides on the control
  stream, the task that keeps the connection alive, and the opening of Mani streams on it.
  Binding the endpoints is in \<open>Endpoint\<close>.
\<close>

section \<open>Errors\<close>

text \<open>
  A codec reports its errors as \<open>io::Error\<close>s, which are \<open>control_error\<close>s here; errors of
  the QUIC library are strings.
\<close>

datatype protofish_connection_error =
    QuicError string
  | EndpointError string
  | HandshakeFailed string
  | IoError control_error
  | WriteError string
  | ReadError string
  | MaxRetriesExceeded
  | HandshakeTimeout

fun show_nat :: "nat \<Rightarrow> string" where
  "show_nat n = (if n < 10 then [char_of (48 + n)] else show_nat (n div 10) @ [char_of (48 + n mod 10)])"

declare show_nat.simps [simp del]

section \<open>The handshake\<close>

text \<open>
  Everything awaited has an answer, or none before the handshake timeout fires: then the
  whole handshake is abandoned at that point.
\<close>

fun await ::
  "('e \<Rightarrow> protofish_connection_error) \<Rightarrow> ('e + 'a) option \<Rightarrow>
   ('a \<Rightarrow> protofish_connection_error + 'b) \<Rightarrow> protofish_connection_error + 'b" where
  "await f None k = Inl HandshakeTimeout"
| "await f (Some r) k = and_then (map_err f r) k"

lemma await_eq_Inr [simp]:
  "await f r k = Inr b \<longleftrightarrow> (\<exists>a. r = Some (Inr a) \<and> k a = Inr b)"
  by (cases r) auto

text \<open>What \<open>FramedRead::next\<close> yields: the end of the stream, an error or a message.\<close>

type_synonym control_item = "(control_error + connection_message) option"

record server_config =
  sc_supported_compression_types :: "compression_type list"
  sc_keepalive_interval :: duration
  sc_protofish_config :: protofish_config

record client_config =
  cc_supported_compression_types :: "compression_type list"
  cc_keepalive_range :: "duration \<times> duration"
  cc_protofish_config :: protofish_config

record 'q accept_env =
  ae_incoming :: "(string + 'q) option"
  ae_accept_bi :: "(string + unit) option"
  ae_next :: "control_item option"
  ae_send :: "connection_message \<Rightarrow> (control_error + unit) option"

record 'q connect_env =
  ce_connect :: "string + unit"
  ce_connecting :: "(string + 'q) option"
  ce_open_bi :: "(string + unit) option"
  ce_next :: "control_item option"
  ce_send :: "connection_message \<Rightarrow> (control_error + unit) option"

subsection \<open>Server\<close>

definition choose_compression :: "compression_type list \<Rightarrow> compression_type list \<Rightarrow> compression_type" where
  "choose_compression supported available_types =
     (case find (\<lambda>c. c \<in> set available_types) supported of
        Some c \<Rightarrow> c
      | None \<Rightarrow> Uncompressed)"

definition server_hello_for :: "server_config \<Rightarrow> client_hello \<Rightarrow> server_hello" where
  "server_hello_for cfg hello =
     \<lparr> sh_version = 1, sh_headers = Map.empty,
       sh_compression_type =
         choose_compression (sc_supported_compression_types cfg) (ch_available_compression_types hello),
       sh_keepalive_interval_ms = of_nat (as_millis (sc_keepalive_interval cfg)) \<rparr>"

fun expect_client_hello :: "control_item \<Rightarrow> protofish_connection_error + client_hello" where
  "expect_client_hello None = Inl (HandshakeFailed ''Connection closed before ClientHello'')"
| "expect_client_hello (Some (Inl e)) = Inl (IoError e)"
| "expect_client_hello (Some (Inr (ClientHello hello))) = Inr hello"
| "expect_client_hello (Some (Inr _)) = Inl (HandshakeFailed ''Expected ClientHello'')"

definition check_version :: "client_hello \<Rightarrow> protofish_connection_error + unit" where
  "check_version hello =
     (if ch_version hello \<noteq> 1
      then Inl (HandshakeFailed (''Unsupported version '' @ show_nat (unat (ch_version hello))))
      else Inr ())"

text \<open>The messages sent, and the connection, compression type and keepalive interval.\<close>

definition server_handshake ::
  "'q accept_env \<Rightarrow> server_config \<Rightarrow>
   connection_message list \<times> (protofish_connection_error + 'q \<times> compression_type \<times> duration)" where
  "server_handshake env cfg =
     (case
        await QuicError (ae_incoming env) (\<lambda>conn.
        await QuicError (ae_accept_bi env) (\<lambda>_.
        case ae_next env of
          None \<Rightarrow> Inl HandshakeTimeout
        | Some item \<Rightarrow>
            and_then (expect_client_hello item) (\<lambda>hello.
            and_then (check_version hello) (\<lambda>_. Inr (conn, server_hello_for cfg hello)))))
      of
        Inl e \<Rightarrow> ([], Inl e)
      | Inr (conn, hello) \<Rightarrow>
          (case await IoError (ae_send env (ServerHello hello)) (\<lambda>_.
             Inr (conn, sh_compression_type hello, from_millis (unat (sh_keepalive_interval_ms hello))))
           of
             Inl e \<Rightarrow> ([], Inl e)
           | Inr result \<Rightarrow> ([ServerHello hello], Inr result)))"

subsection \<open>Client\<close>

definition client_hello_of :: "client_config \<Rightarrow> rust_string \<Rightarrow> headers \<Rightarrow> client_hello" where
  "client_hello_of cfg server_name hs =
     \<lparr> ch_version = 1, ch_host = server_name, ch_headers = hs,
       ch_available_compression_types = cc_supported_compression_types cfg,
       ch_keepalive_min_ms = of_nat (as_millis (fst (cc_keepalive_range cfg))),
       ch_keepalive_max_ms = of_nat (as_millis (snd (cc_keepalive_range cfg))) \<rparr>"

fun expect_server_hello :: "control_item \<Rightarrow> protofish_connection_error + server_hello" where
  "expect_server_hello None = Inl (HandshakeFailed ''Connection closed before ServerHello'')"
| "expect_server_hello (Some (Inl e)) = Inl (IoError e)"
| "expect_server_hello (Some (Inr (ServerHello hello))) = Inr hello"
| "expect_server_hello (Some (Inr _)) = Inl (HandshakeFailed ''Expected ServerHello'')"

text \<open>\<open>shown\<close> is the formatted message of an error of \<open>Endpoint::connect\<close>.\<close>

definition client_handshake ::
  "'q connect_env \<Rightarrow> (string \<Rightarrow> string) \<Rightarrow> client_config \<Rightarrow> rust_string \<Rightarrow> headers \<Rightarrow>
   connection_message list \<times> (protofish_connection_error + 'q \<times> compression_type \<times> duration)" where
  "client_handshake env shown cfg server_name hs =
     (let hello = client_hello_of cfg server_name hs in
      case
        and_then (map_err (\<lambda>e. EndpointError (shown e)) (ce_connect env)) (\<lambda>_.
        await QuicError (ce_connecting env) (\<lambda>conn.
        await QuicError (ce_open_bi env) (\<lambda>_.
        await IoError (ce_send env (ClientHello hello)) (\<lambda>_. Inr conn))))
      of
        Inl e \<Rightarrow> ([], Inl e)
      | Inr conn \<Rightarrow>
          ([ClientHello hello],
           case ce_next env of
             None \<Rightarrow> Inl HandshakeTimeout
           | Some item \<Rightarrow>
               and_then (expect_server_hello item) (\<lambda>server_hello.
               Inr (conn, sh_compression_type server_hello,
                 from_millis (unat (sh_keepalive_interval_ms server_hello))))))"

subsection \<open>The connection\<close>

text \<open>
  The established connection; \<open>pc_keepalive_abort\<close> tells whether it holds the abort handle of
  its keepalive task.  Beside it the interval and timeout that task is spawned with.
\<close>

record ('q, 'c) protofish_connection =
  pc_quic_conn :: 'q
  pc_compression_type :: compression_type
  pc_datagram_router :: "'c router"
  pc_protofish_config :: protofish_config
  pc_keepalive_abort :: bool

definition establish ::
  "protofish_config \<Rightarrow> 'q \<times> compression_type \<times> duration \<Rightarrow>
   ('q, 'c) protofish_connection \<times> duration \<times> duration" where
  "establish cfg h =
     (case h of (conn, compression_type, keepalive_interval) \<Rightarrow>
       (\<lparr> pc_quic_conn = conn, pc_compression_type = compression_type,
          pc_datagram_router =
            router_new (max_chunk_buffer_size (pf_mani_config cfg)) (pending_chunk_timeout (pf_mani_config cfg)),
          pc_protofish_config = cfg, pc_keepalive_abort = (keepalive_interval \<noteq> 0) \<rparr>,
        keepalive_interval, max (keepalive_timeout cfg) keepalive_interval))"

definition accept_connection ::
  "'q accept_env \<Rightarrow> server_config \<Rightarrow>
   protofish_connection_error + ('q, 'c) protofish_connection \<times> duration \<times> duration" where
  "accept_connection env cfg =
     and_then (snd (server_handshake env cfg)) (\<lambda>h. Inr (establish (sc_protofish_config cfg) h))"

definition connect_connection ::
  "'q connect_env \<Rightarrow> (string \<Rightarrow> string) \<Rightarrow> client_config \<Rightarrow> rust_string \<Rightarrow> headers \<Rightarrow>
   protofish_connection_error + ('q, 'c) protofish_connection \<times> duration \<times> duration" where
  "connect_connection env shown cfg server_name hs =
     and_then (snd (client_handshake env shown cfg server_name hs))
       (\<lambda>h. Inr (establish (cc_protofish_config cfg) h))"

section \<open>Keeping the connection alive\<close>

text \<open>
  What completes the loop's \<open>select!\<close>: a tick of the interval timer or an item of the control
  stream, each with the time and with the result of the send it may lead to.
\<close>

datatype keepalive_event =
    KeepaliveTick instant "control_error + unit"
  | ControlItem instant control_item "control_error + unit"

datatype keepalive_action =
    KeepaliveSent
  | KeepaliveAckSent
  | ConnectionClosed nat string

text \<open>The actions, and the time of the last activity while the loop has not been left.\<close>

fun keepalive_loop ::
  "duration \<Rightarrow> instant \<Rightarrow> keepalive_event list \<Rightarrow> keepalive_action list \<times> instant option" where
  "keepalive_loop timeout last_activity [] = ([], Some last_activity)"
| "keepalive_loop timeout last_activity (KeepaliveTick now sent # es) =
     (if timeout < now - last_activity then ([ConnectionClosed 1 ''keepalive timeout''], None)
      else
        (case sent of
           Inl e \<Rightarrow> ([], None)
         | Inr _ \<Rightarrow> (case keepalive_loop timeout last_activity es of (as, l) \<Rightarrow> (KeepaliveSent # as, l))))"
| "keepalive_loop timeout last_activity (ControlItem now item sent # es) =
     (case item of
        Some (Inr Keepalive) \<Rightarrow>
          (case sent of
             Inl e \<Rightarrow> ([], None)
           | Inr _ \<Rightarrow> (case keepalive_loop timeout now es of (as, l) \<Rightarrow> (KeepaliveAckSent # as, l)))
      | Some (Inr KeepaliveAck) \<Rightarrow> keepalive_loop timeout now es
      | Some (Inr Close) \<Rightarrow> ([ConnectionClosed 0 ''closed by peer''], None)
      | Some (Inr _) \<Rightarrow> keepalive_loop timeout now es
      | Some (Inl e) \<Rightarrow> ([ConnectionClosed 2 ''control stream closed''], None)
      | None \<Rightarrow> ([ConnectionClosed 2 ''control stream closed''], None))"

definition keepalive_task ::
  "duration \<Rightarrow> duration \<Rightarrow> instant \<Rightarrow> keepalive_event list \<Rightarrow> keepalive_action list \<times> instant option" where
  "keepalive_task interval timeout start es =
     (if interval = 0 then ([], None) else keepalive_loop timeout start es)"

definition connection_drop :: "('q, 'c) protofish_connection \<Rightarrow> bool" where
  "connection_drop conn = pc_keepalive_abort conn"

section \<open>Opening Mani streams\<close>

text \<open>
  A QUIC stream identifier names the side that opened the stream and counts that side's
  streams of one direction.
\<close>

datatype quic_side = ClientSide | ServerSide

record quic_stream_id =
  qs_initiator :: quic_side
  qs_index :: u64

definition mani_id_of :: "quic_stream_id \<Rightarrow> mani_stream_id" where
  "mani_id_of i = ManiStreamId (qs_index i)"

definition new_mani ::
  "'s semaphore_ops \<Rightarrow> ('q, 'c) protofish_connection \<Rightarrow> quic_stream_id \<Rightarrow> 's stream_task outcome" where
  "new_mani S conn i =
     (let cfg = pf_mani_config (pc_protofish_config conn) in
      stream_pair S (mani_id_of i)
        (max_retransmission_buffer_size cfg) (max_nack_channel_size cfg) (max_datagram_channel_size cfg)
        (max_chunk_buffer_size cfg) (initial_backpressure_credits cfg) (backpressure_credit_batch_size cfg)
        (config_max_datagram_size cfg) (sender_transfer_credits_request_interval cfg))"

definition open_mani ::
  "'s semaphore_ops \<Rightarrow> ('q, 'c) protofish_connection \<Rightarrow> string + quic_stream_id \<Rightarrow>
   (protofish_connection_error + 's stream_task) outcome" where
  "open_mani S conn open_bi =
     (case open_bi of
        Inl e \<Rightarrow> Done (Inl (QuicError e))
      | Inr i \<Rightarrow> bind_outcome (new_mani S conn i) (\<lambda>task. Done (Inr task)))"

definition accept_mani ::
  "'s semaphore_ops \<Rightarrow> ('q, 'c) protofish_connection \<Rightarrow> string + quic_stream_id \<Rightarrow>
   (protofish_connection_error + 's stream_task) outcome" where
  "accept_mani S conn accept_bi =
     (case accept_bi of
        Inl e \<Rightarrow> Done (Inl (QuicError e))
      | Inr i \<Rightarrow> bind_outcome (new_mani S conn i) (\<lambda>task. Done (Inr task)))"

section \<open>Facts about the parts\<close>

lemma choose_compression_first:
  "(\<exists>i < length supported. supported ! i = choose_compression supported offered \<and> supported ! i \<in> set offered \<and>
      (\<forall>j < i. supported ! j \<notin> set offered)) \<or>
   set supported \<inter> set offered = {} \<and> choose_compression supported offered = Uncompressed"
proof (cases "find (\<lambda>c. c \<in> set offered) supported")
  case None
  moreover from None have "set supported \<inter> set offered = {}" by (auto simp: find_None_iff)
  ultimately show ?thesis by (simp add: choose_compression_def)
next
  case (Some c)
  then have c: "choose_compression supported offered = c" by (simp add: choose_compression_def)
  from Some obtain i where "i < length supported" "supported ! i \<in> set offered" "c = supported ! i"
    "\<forall>j < i. supported ! j \<notin> set offered" by (auto simp: find_Some_iff)
  then show ?thesis unfolding c by blast
qed

text \<open>The first message one side sent, as the other side's \<open>next\<close> yields it.\<close>

definition delivered ::
  "buf_ops \<Rightarrow> (headers \<Rightarrow> rust_string list) \<Rightarrow> connection_message list \<Rightarrow> control_item" where
  "delivered B ord sent =
     (case sent of
        [] \<Rightarrow> None
      | m # _ \<Rightarrow>
          (case control_decode B (Inr (Some (serialize_connection_message B ord m))) of
             Inl e \<Rightarrow> Some (Inl e)
           | Inr None \<Rightarrow> None
           | Inr (Some m) \<Rightarrow> Some (Inr m)))"

lemma delivered_encodable:
  assumes "byte_buf B" "map_iteration ord" "conn_encodable m"
  shows "delivered B ord (m # ms) = Some (Inr m)"
  using control_codec.conn_parse_serialize [of B ord m "[]"] assms
  by (simp add: delivered_def control_decode_def control_codec_def)

lemma server_hello_encodable: "conn_encodable (ServerHello (server_hello_for cfg hello))"
  by (simp add: server_hello_for_def headers_ok_def)

text \<open>An environment in which the QUIC library and the streams report no error.\<close>

definition accept_env_ok :: "'q accept_env \<Rightarrow> 'q \<Rightarrow> bool" where
  "accept_env_ok env q \<longleftrightarrow>
     ae_incoming env = Some (Inr q) \<and> ae_accept_bi env = Some (Inr ()) \<and> (\<forall>m. ae_send env m = Some (Inr ()))"

definition connect_env_ok :: "'q connect_env \<Rightarrow> 'q \<Rightarrow> bool" where
  "connect_env_ok env q \<longleftrightarrow>
     ce_connect env = Inr () \<and> ce_connecting env = Some (Inr q) \<and> ce_open_bi env = Some (Inr ()) \<and>
     (\<forall>m. ce_send env m = Some (Inr ()))"

lemma server_handshake_ok:
  assumes "accept_env_ok env q" and "ae_next env = Some (Some (Inr (ClientHello hello)))"
    and "ch_version hello = 1"
  shows "server_handshake env cfg =
     ([ServerHello (server_hello_for cfg hello)],
      Inr (q, choose_compression (sc_supported_compression_types cfg) (ch_available_compression_types hello),
           from_millis (as_millis (sc_keepalive_interval cfg) mod 2 ^ 32)))"
  using assms
  by (simp add: server_handshake_def accept_env_ok_def check_version_def server_hello_for_def unat_of_nat)

lemma client_handshake_ok:
  assumes "connect_env_ok env q"
  shows "client_handshake env shown cfg name hs =
     ([ClientHello (client_hello_of cfg name hs)],
      case ce_next env of
        None \<Rightarrow> Inl HandshakeTimeout
      | Some item \<Rightarrow>
          and_then (expect_server_hello item) (\<lambda>server_hello.
          Inr (q, sh_compression_type server_hello,
            from_millis (unat (sh_keepalive_interval_ms server_hello)))))"
  using assms by (simp add: client_handshake_def connect_env_ok_def Let_def)

text \<open>The loop over a run that it stays in, continued.\<close>

lemma keepalive_loop_append:
  "keepalive_loop timeout l es = (as, Some l') \<Longrightarrow>
   keepalive_loop timeout l (es @ fs) =
     (as @ fst (keepalive_loop timeout l' fs), snd (keepalive_loop timeout l' fs))"
proof (induction timeout l es arbitrary: as rule: keepalive_loop.induct)
  case (2 timeout l now sent es)
  then show ?case
    by (cases sent; cases "keepalive_loop timeout l es") (auto split: if_splits)
next
  case (3 timeout l now item sent es)
  then show ?case
    by (cases "keepalive_loop timeout now es")
      (auto split: option.splits sum.splits connection_message.splits)
qed simp

lemma keepalive_loop_ticks:
  "keepalive_loop timeout l (map (\<lambda>t. KeepaliveTick t (Inr ())) ts) =
     (replicate (length (takeWhile (\<lambda>t. t - l \<le> timeout) ts)) KeepaliveSent @
        (if \<forall>t \<in> set ts. t - l \<le> timeout then [] else [ConnectionClosed 1 ''keepalive timeout'']),
      if \<forall>t \<in> set ts. t - l \<le> timeout then Some l else None)"
  by (induction ts) auto

lemma length_takeWhile_upt: "length (takeWhile (\<lambda>k. k < m) [0..<n]) = min m n"
proof -
  have "takeWhile (\<lambda>k. k < m) [0..<n] = [0..<min m n]"
  proof (cases "m \<le> n")
    case True
    then have "[0..<n] = [0..<m] @ [m..<n]" by (metis le0 upt_add_eq_append ordered_cancel_comm_monoid_diff_class.add_diff_inverse)
    with True show ?thesis by (cases "m < n") (auto simp: takeWhile_append upt_conv_Cons)
  next
    case False
    then show ?thesis by (simp add: takeWhile_eq_all_conv)
  qed
  then show ?thesis by simp
qed

lemma length_takeWhile_map_upt:
  "(\<And>k. P (f k) \<longleftrightarrow> k < m) \<Longrightarrow> length (takeWhile P (map f [0..<n])) = min m n"
  by (simp only: takeWhile_map comp_def length_map length_takeWhile_upt)

text \<open>What an event answers, when it counts as activity, and when the loop survives it.\<close>

fun keepalive_response :: "keepalive_event \<Rightarrow> keepalive_action list" where
  "keepalive_response (KeepaliveTick now sent) = [KeepaliveSent]"
| "keepalive_response (ControlItem now item sent) =
     (if item = Some (Inr Keepalive) then [KeepaliveAckSent] else [])"

fun keepalive_activity :: "instant \<Rightarrow> keepalive_event \<Rightarrow> instant" where
  "keepalive_activity l (KeepaliveTick now sent) = l"
| "keepalive_activity l (ControlItem now item sent) = now"

fun keepalive_healthy :: "duration \<Rightarrow> instant \<Rightarrow> keepalive_event \<Rightarrow> bool" where
  "keepalive_healthy timeout l (KeepaliveTick now sent) \<longleftrightarrow> now - l \<le> timeout \<and> sent = Inr ()"
| "keepalive_healthy timeout l (ControlItem now item sent) \<longleftrightarrow>
     (\<exists>m. item = Some (Inr m) \<and> m \<noteq> Close \<and> (m = Keepalive \<longrightarrow> sent = Inr ()))"

lemma keepalive_loop_Cons:
  "keepalive_loop timeout l (e # es) = (as, Some l') \<longleftrightarrow>
     keepalive_healthy timeout l e \<and>
     (\<exists>as'. keepalive_loop timeout (keepalive_activity l e) es = (as', Some l') \<and>
       as = keepalive_response e @ as')"
proof (cases e)
  case (KeepaliveTick now sent)
  then show ?thesis by (cases sent; cases "keepalive_loop timeout l es") auto
next
  case (ControlItem now item sent)
  then show ?thesis
    by (cases sent; cases "keepalive_loop timeout now es")
      (auto split: option.splits sum.splits connection_message.splits)
qed

fun keepalive_run_healthy :: "duration \<Rightarrow> instant \<Rightarrow> keepalive_event list \<Rightarrow> bool" where
  "keepalive_run_healthy timeout l [] \<longleftrightarrow> True"
| "keepalive_run_healthy timeout l (e # es) \<longleftrightarrow>
     keepalive_healthy timeout l e \<and> keepalive_run_healthy timeout (keepalive_activity l e) es"

section \<open>Properties\<close>

text \<open>C13: The two sides of a handshake in which nothing fails agree, through the wire format:
  both end up with the same compression type and the same keepalive interval.  The
  compression type is the server's most preferred one among those the client offers, and no
  compression if the lists have nothing in common; the interval is the server's in whole
  milliseconds, modulo \<open>2^32\<close> of them.\<close>

theorem handshake_agreement:
  assumes "byte_buf B" and "map_iteration ord"
    and "conn_encodable (ClientHello (client_hello_of ccfg name hs))"
    and "accept_env_ok senv sq" and "connect_env_ok cenv cq"
    and "ae_next senv = Some (delivered B ord (fst (client_handshake cenv shown ccfg name hs)))"
    and "ce_next cenv = Some (delivered B ord (fst (server_handshake senv scfg)))"
  shows "\<exists>ct interval.
     snd (server_handshake senv scfg) = Inr (sq, ct, interval) \<and>
     snd (client_handshake cenv shown ccfg name hs) = Inr (cq, ct, interval) \<and>
     interval = from_millis (as_millis (sc_keepalive_interval scfg) mod 2 ^ 32) \<and>
     ((\<exists>i < length (sc_supported_compression_types scfg).
         sc_supported_compression_types scfg ! i = ct \<and> ct \<in> set (cc_supported_compression_types ccfg) \<and>
         (\<forall>j < i. sc_supported_compression_types scfg ! j \<notin> set (cc_supported_compression_types ccfg))) \<or>
      set (sc_supported_compression_types scfg) \<inter> set (cc_supported_compression_types ccfg) = {} \<and>
      ct = Uncompressed)"
proof -
  let ?hello = "client_hello_of ccfg name hs"
  let ?offered = "cc_supported_compression_types ccfg"
  let ?ct = "choose_compression (sc_supported_compression_types scfg) ?offered"
  have "ae_next senv = Some (Some (Inr (ClientHello ?hello)))"
    using assms(6) client_handshake_ok [OF assms(5)] delivered_encodable [OF assms(1-3)] by simp
  moreover have hello: "ch_version ?hello = 1" "ch_available_compression_types ?hello = ?offered"
    by (simp_all add: client_hello_of_def)
  ultimately have server: "server_handshake senv scfg =
      ([ServerHello (server_hello_for scfg ?hello)],
       Inr (sq, ?ct, from_millis (as_millis (sc_keepalive_interval scfg) mod 2 ^ 32)))"
    using server_handshake_ok [OF assms(4)] by simp
  then have "ce_next cenv = Some (Some (Inr (ServerHello (server_hello_for scfg ?hello))))"
    using assms(7) delivered_encodable [OF assms(1,2) server_hello_encodable] by simp
  then have "snd (client_handshake cenv shown ccfg name hs) =
      Inr (cq, ?ct, from_millis (as_millis (sc_keepalive_interval scfg) mod 2 ^ 32))"
    using client_handshake_ok [OF assms(5)] hello by (simp add: server_hello_for_def unat_of_nat)
  then show ?thesis
    using server choose_compression_first [of "sc_supported_compression_types scfg" ?offered] by auto
qed

definition sample_server_config :: server_config where
  "sample_server_config =
     \<lparr> sc_supported_compression_types = [Zstd, Gzip], sc_keepalive_interval = from_secs 5,
       sc_protofish_config = protofish_config_default \<rparr>"

definition sample_client_config :: client_config where
  "sample_client_config =
     \<lparr> cc_supported_compression_types = [Lz4, Gzip], cc_keepalive_range = (from_secs 1, from_secs 10),
       cc_protofish_config = protofish_config_default \<rparr>"

definition sample_accept_env :: "nat accept_env" where
  "sample_accept_env =
     \<lparr> ae_incoming = Some (Inr 1), ae_accept_bi = Some (Inr ()),
       ae_next = Some (Some (Inr (ClientHello (client_hello_of sample_client_config [0x61] Map.empty)))),
       ae_send = (\<lambda>m. Some (Inr ())) \<rparr>"

definition sample_connect_env :: "nat connect_env" where
  "sample_connect_env =
     \<lparr> ce_connect = Inr (), ce_connecting = Some (Inr 2), ce_open_bi = Some (Inr ()),
       ce_next = Some (Some (Inr (ServerHello
         (server_hello_for sample_server_config (client_hello_of sample_client_config [0x61] Map.empty))))),
       ce_send = (\<lambda>m. Some (Inr ())) \<rparr>"

lemma sample_envs_ok:
  "accept_env_ok sample_accept_env 1" "connect_env_ok sample_connect_env 2"
  by (simp_all add: accept_env_ok_def connect_env_ok_def sample_accept_env_def sample_connect_env_def)

theorem handshake_agreement_witness:
  "snd (server_handshake sample_accept_env sample_server_config) = Inr (1, Gzip, 5 * 10 ^ 9) \<and>
   snd (client_handshake sample_connect_env id sample_client_config [0x61] Map.empty) = Inr (2, Gzip, 5 * 10 ^ 9)"
proof -
  let ?hello = "client_hello_of sample_client_config [0x61] Map.empty"
  have enc: "conn_encodable (ClientHello ?hello)"
    by (simp add: client_hello_of_def sample_client_config_def string_ok_def headers_ok_def)
  note delivered = delivered_encodable [OF be.byte_buf_axioms sorted_iteration.map_iteration_axioms]
  have client: "fst (client_handshake sample_connect_env id sample_client_config [0x61] Map.empty) = [ClientHello ?hello]"
    using client_handshake_ok [OF sample_envs_ok(2)] by simp
  have server: "fst (server_handshake sample_accept_env sample_server_config) =
      [ServerHello (server_hello_for sample_server_config ?hello)]"
    by (subst server_handshake_ok [OF sample_envs_ok(1)])
      (simp_all add: sample_accept_env_def client_hello_of_def)
  have "ae_next sample_accept_env =
      Some (delivered be_ops sorted_keys
        (fst (client_handshake sample_connect_env id sample_client_config [0x61] Map.empty)))"
    unfolding client by (simp add: delivered [OF enc] sample_accept_env_def)
  moreover have "ce_next sample_connect_env =
      Some (delivered be_ops sorted_keys (fst (server_handshake sample_accept_env sample_server_config)))"
    unfolding server by (simp add: delivered [OF server_hello_encodable] sample_connect_env_def)
  ultimately obtain ct interval where
    res: "snd (server_handshake sample_accept_env sample_server_config) = Inr (1, ct, interval)"
    "snd (client_handshake sample_connect_env id sample_client_config [0x61] Map.empty) = Inr (2, ct, interval)"
    and interval: "interval = from_millis (as_millis (sc_keepalive_interval sample_server_config) mod 2 ^ 32)"
    and ct: "(\<exists>i < length [Zstd, Gzip]. [Zstd, Gzip] ! i = ct \<and> ct \<in> set [Lz4, Gzip] \<and>
         (\<forall>j < i. [Zstd, Gzip] ! j \<notin> set [Lz4, Gzip])) \<or>
      set [Zstd, Gzip] \<inter> set [Lz4, Gzip] = {} \<and> ct = Uncompressed"
    using handshake_agreement [OF be.byte_buf_axioms sorted_iteration.map_iteration_axioms enc
        sample_envs_ok, of id sample_server_config]
    by (auto simp: sample_server_config_def sample_client_config_def)
  from ct have "ct = Gzip" by (auto simp: less_Suc_eq)
  moreover from interval have "interval = 5 * 10 ^ 9"
    by (simp add: sample_server_config_def from_secs_def from_millis_def as_millis_def)
  ultimately show ?thesis using res by simp
qed

text \<open>C38: The loop goes on exactly as long as every event is harmless: ticks within the
  timeout of the last message, messages other than \<open>Close\<close>, and sends that succeed.  Then
  every tick sends a keepalive, every keepalive is acknowledged, and every message counts as
  activity.\<close>

theorem keepalive_kept_iff:
  assumes "interval \<noteq> 0"
  shows "keepalive_task interval timeout start es = (as, Some l) \<longleftrightarrow>
     keepalive_run_healthy timeout start es \<and> as = concat (map keepalive_response es) \<and>
     l = foldl keepalive_activity start es"
proof -
  have "keepalive_loop timeout start es = (as, Some l) \<longleftrightarrow>
     keepalive_run_healthy timeout start es \<and> as = concat (map keepalive_response es) \<and>
     l = foldl keepalive_activity start es"
    by (induction es arbitrary: start as) (auto simp: keepalive_loop_Cons simp del: keepalive_loop.simps(2,3))
  with assms show ?thesis by (simp add: keepalive_task_def)
qed

theorem keepalive_kept_iff_witness:
  "keepalive_task 5 9 0
     [KeepaliveTick 5 (Inr ()), ControlItem 6 (Some (Inr KeepaliveAck)) (Inr ()),
      ControlItem 7 (Some (Inr Keepalive)) (Inr ()), KeepaliveTick 10 (Inr ()), KeepaliveTick 15 (Inr ())] =
   ([KeepaliveSent, KeepaliveAckSent, KeepaliveSent, KeepaliveSent], Some 7)"
  by (subst keepalive_kept_iff) simp_all

text \<open>C23: A peer that falls silent is noticed: with ticks every interval after its last message,
  the task sends keepalives while the timeout has not passed, then closes the connection with
  code 1 and ends, whatever happened before.\<close>

theorem silent_peer_disconnected:
  assumes "keepalive_task interval timeout start es = (as, Some l)"
    and "interval \<le> timeout" and "d \<le> interval" and "Suc ((timeout - d) div interval) < n"
  shows "keepalive_task interval timeout start
       (es @ map (\<lambda>k. KeepaliveTick (l + d + k * interval) (Inr ())) [0..<n]) =
     (as @ replicate (Suc ((timeout - d) div interval)) KeepaliveSent @
        [ConnectionClosed 1 ''keepalive timeout''], None)"
proof -
  let ?m = "Suc ((timeout - d) div interval)"
  let ?ts = "map (\<lambda>k. l + d + k * interval) [0..<n]"
  have pos: "interval \<noteq> 0" and loop: "keepalive_loop timeout start es = (as, Some l)"
    using assms(1) by (auto simp: keepalive_task_def split: if_splits)
  have within: "l + d + k * interval - l \<le> timeout \<longleftrightarrow> k < ?m" for k
  proof -
    have "l + d + k * interval - l \<le> timeout \<longleftrightarrow> k * interval \<le> timeout - d"
      using assms(2,3) by linarith
    also have "\<dots> \<longleftrightarrow> k < ?m"
      using pos by (simp only: less_Suc_eq_le less_eq_div_iff_mult_less_eq neq0_conv)
    finally show ?thesis .
  qed
  have "\<not> (l + d + ?m * interval - l \<le> timeout)"
    by (simp only: within less_irrefl not_False_eq_True)
  moreover have "l + d + ?m * interval \<in> set ?ts"
    unfolding set_map set_upt by (rule imageI) (use assms(4) in simp)
  ultimately have "\<not> (\<forall>t \<in> set ?ts. t - l \<le> timeout)" by blast
  moreover have "length (takeWhile (\<lambda>t. t - l \<le> timeout) ?ts) = ?m"
    using length_takeWhile_map_upt [of "\<lambda>t. t - l \<le> timeout", OF within, of n] assms(4)
    by (simp only: min.absorb1 less_imp_le)
  ultimately have "keepalive_loop timeout l (map (\<lambda>t. KeepaliveTick t (Inr ())) ?ts) =
      (replicate ?m KeepaliveSent @ [ConnectionClosed 1 ''keepalive timeout''], None)"
    by (simp only: keepalive_loop_ticks if_False)
  then have "keepalive_loop timeout start (es @ map (\<lambda>t. KeepaliveTick t (Inr ())) ?ts) =
      (as @ replicate ?m KeepaliveSent @ [ConnectionClosed 1 ''keepalive timeout''], None)"
    by (simp only: keepalive_loop_append [OF loop] fst_conv snd_conv)
  with pos show ?thesis by (simp only: keepalive_task_def if_False map_map comp_def)
qed

theorem silent_peer_disconnected_witness:
  "keepalive_task 5 9 0 ([KeepaliveTick 5 (Inr ()), ControlItem 7 (Some (Inr KeepaliveAck)) (Inr ())] @
       map (\<lambda>k. KeepaliveTick (7 + 3 + k * 5) (Inr ())) [0..<3]) =
     ([KeepaliveSent] @ [KeepaliveSent, KeepaliveSent] @ [ConnectionClosed 1 ''keepalive timeout''], None)"
proof -
  have "keepalive_task 5 9 0 [KeepaliveTick 5 (Inr ()), ControlItem 7 (Some (Inr KeepaliveAck)) (Inr ())] =
      ([KeepaliveSent], Some 7)"
    by (simp add: keepalive_task_def)
  from silent_peer_disconnected [OF this, of 3 3] show ?thesis by (simp del: upt_Suc upt.simps)
qed


end
