(* ===== verification/Reconnect.thy ===== *)
theory Reconnect
  imports Connection
begin

text \<open>
  The reconnecting wrapper, \<^verbatim>\<open>src/src/connection/reconnect.rs\<close>: it connects with a
  growing delay between attempts, counts the connections it made, and repeats the opening of
  a stream on a new connection when it fails.
\<close>

section \<open>State\<close>

text \<open>
  \<open>rc_generation\<close> is the value of the watch channel.  The arguments of \<open>connect\<close> that are
  only passed on (the client and the address) are part of the answers to the attempts.  A
  successful answer is the connection and whether the watch channel has a receiver when it is
  made: as documented, \<open>watch::Sender::send\<close> fails when every receiver has been dropped, and
  then the value is not stored.
\<close>

record ('f, 'q) reconnecting_connection =
  rc_server_name :: rust_string
  rc_headers :: headers
  rc_config :: "'f reconnect_config"
  rc_active_connection :: "'q option"
  rc_generation :: u64

datatype reconnect_effect =
    ConnectAttempt rust_string headers
  | Slept duration
  | GenerationSent u64

section \<open>Operations\<close>

text \<open>\<open>send\<close> of the watch channel: the value it holds afterwards, and what is announced.\<close>

definition watch_send :: "bool \<Rightarrow> u64 \<Rightarrow> u64 \<Rightarrow> u64 \<times> reconnect_effect list" where
  "watch_send listening current next_gen =
     (if listening then (next_gen, [GenerationSent next_gen]) else (current, []))"

text \<open>
  \<open>scale\<close> is \<open>Duration::from_secs_f64(d.as_secs_f64() * multiplier)\<close>, which panics for a
  product that is no duration; \<open>answers\<close> are the results of the attempts to connect, in
  their order.  The result is \<open>None\<close> while the loop goes on after these answers.
\<close>

fun connect_loop ::
  "bool \<Rightarrow> (duration \<Rightarrow> 'f \<Rightarrow> duration outcome) \<Rightarrow> ('f, 'q) reconnecting_connection \<Rightarrow>
   duration \<Rightarrow> nat \<Rightarrow> (protofish_connection_error + 'q \<times> bool) list \<Rightarrow>
   (('f, 'q) reconnecting_connection \<times> reconnect_effect list \<times> (protofish_connection_error + unit) option) outcome"
where
  "connect_loop overflow_checks scale rc current_backoff retries answers =
     (if (case max_retries (rc_config rc) of None \<Rightarrow> False | Some limit \<Rightarrow> limit < retries)
      then Done (rc, [], Some (Inl MaxRetriesExceeded))
      else
        (case answers of
           [] \<Rightarrow> Done (rc, [], None)
         | answer # answers \<Rightarrow>
             (case answer of
                Inr (conn, listening) \<Rightarrow>
                  if overflow_checks \<and> rc_generation rc = - 1 then Panic
                  else
                    (case watch_send listening (rc_generation rc) (rc_generation rc + 1) of
                       (generation, es) \<Rightarrow> Done
                         (rc\<lparr> rc_active_connection := Some conn, rc_generation := generation \<rparr>,
                          ConnectAttempt (rc_server_name rc) (rc_headers rc) # es, Some (Inr ())))
              | Inl e \<Rightarrow>
                  bind_outcome (scale current_backoff (backoff_multiplier (rc_config rc))) (\<lambda>scaled.
                  bind_outcome
                    (connect_loop overflow_checks scale rc (min scaled (max_backoff (rc_config rc)))
                      (Suc retries) answers)
                    (\<lambda>(rc', es, result). Done
                      (rc', ConnectAttempt (rc_server_name rc) (rc_headers rc) # Slept current_backoff # es,
                       result))))))"

declare connect_loop.simps [simp del]

definition ensure_connected ::
  "bool \<Rightarrow> (duration \<Rightarrow> 'f \<Rightarrow> duration outcome) \<Rightarrow> ('f, 'q) reconnecting_connection \<Rightarrow>
   (protofish_connection_error + 'q \<times> bool) list \<Rightarrow>
   (('f, 'q) reconnecting_connection \<times> reconnect_effect list \<times> (protofish_connection_error + unit) option) outcome"
where
  "ensure_connected overflow_checks scale rc answers =
     (if rc_active_connection rc \<noteq> None then Done (rc, [], Some (Inr ()))
      else connect_loop overflow_checks scale rc (initial_backoff (rc_config rc)) 0 answers)"

text \<open>The receiver that comes with the new channel is dropped at once, so nobody listens yet.\<close>

definition reconnecting_connect ::
  "bool \<Rightarrow> (duration \<Rightarrow> 'f \<Rightarrow> duration outcome) \<Rightarrow> rust_string \<Rightarrow> headers \<Rightarrow> 'f reconnect_config \<Rightarrow>
   (protofish_connection_error + 'q) list \<Rightarrow>
   (reconnect_effect list \<times> (protofish_connection_error + ('f, 'q) reconnecting_connection) option) outcome"
where
  "reconnecting_connect overflow_checks scale server_name hs config answers =
     bind_outcome
       (ensure_connected overflow_checks scale
         \<lparr> rc_server_name = server_name, rc_headers = hs, rc_config = config,
           rc_active_connection = None, rc_generation = 0 \<rparr>
         (map (map_sum id (\<lambda>conn. (conn, False))) answers))
       (\<lambda>(rc, es, result). Done (es,
         case result of
           None \<Rightarrow> None
         | Some (Inl e) \<Rightarrow> Some (Inl e)
         | Some (Inr _) \<Rightarrow> Some (Inr rc)))"

text \<open>
  \<open>open_mani\<close> and \<open>accept_mani\<close> are the same loop around different operations of the
  connection.  A round of the loop is given by the answers to the attempts it makes to
  connect and by the operation's result on the connection it has then.
\<close>

fun mani_loop ::
  "bool \<Rightarrow> (duration \<Rightarrow> 'f \<Rightarrow> duration outcome) \<Rightarrow> ('f, 'q) reconnecting_connection \<Rightarrow>
   ((protofish_connection_error + 'q \<times> bool) list \<times> ('q \<Rightarrow> protofish_connection_error + 'm)) list \<Rightarrow>
   (('f, 'q) reconnecting_connection \<times> reconnect_effect list \<times> (protofish_connection_error + 'm) option) outcome"
where
  "mani_loop overflow_checks scale rc [] = Done (rc, [], None)"
| "mani_loop overflow_checks scale rc ((answers, operation) # rounds) =
     bind_outcome (ensure_connected overflow_checks scale rc answers) (\<lambda>(rc, es, connected).
       case connected of
         None \<Rightarrow> Done (rc, es, None)
       | Some (Inl e) \<Rightarrow> Done (rc, es, Some (Inl e))
       | Some (Inr _) \<Rightarrow>
           (case rc_active_connection rc of
              None \<Rightarrow>
                bind_outcome (mani_loop overflow_checks scale rc rounds) (\<lambda>(rc, es', result).
                Done (rc, es @ es', result))
            | Some conn \<Rightarrow>
                (case operation conn of
                   Inr stream \<Rightarrow> Done (rc, es, Some (Inr stream))
                 | Inl e \<Rightarrow>
                     bind_outcome
                       (mani_loop overflow_checks scale (rc\<lparr> rc_active_connection := None \<rparr>) rounds)
                       (\<lambda>(rc, es', result). Done (rc, es @ es', result)))))"

definition get_connection :: "('f, 'q) reconnecting_connection \<Rightarrow> 'q option" where
  "get_connection rc = rc_active_connection rc"

text \<open>A new receiver starts with the value the channel holds, marked as seen.\<close>

definition subscribe_reconnect :: "('f, 'q) reconnecting_connection \<Rightarrow> u64" where
  "subscribe_reconnect rc = rc_generation rc"

section \<open>The loop in closed form\<close>

text \<open>The delays: the first is the configured one, the others are scaled and capped.\<close>

fun backoff_after :: "(duration \<Rightarrow> duration) \<Rightarrow> duration \<Rightarrow> duration \<Rightarrow> nat \<Rightarrow> duration" where
  "backoff_after f cap d 0 = d"
| "backoff_after f cap d (Suc n) = backoff_after f cap (min (f d) cap) n"

lemma backoff_after_cap: "backoff_after f cap d (Suc n) \<le> cap"
  by (induction n arbitrary: d) auto

definition failed_attempts ::
  "('f, 'q) reconnecting_connection \<Rightarrow> (nat \<Rightarrow> duration) \<Rightarrow> nat \<Rightarrow> reconnect_effect list" where
  "failed_attempts rc backoff n =
     concat (map (\<lambda>i. [ConnectAttempt (rc_server_name rc) (rc_headers rc), Slept (backoff i)]) [0..<n])"

lemma failed_attempts_0 [simp]: "failed_attempts rc backoff 0 = []"
  by (simp add: failed_attempts_def)

lemma failed_attempts_Suc:
  "failed_attempts rc backoff (Suc n) =
     ConnectAttempt (rc_server_name rc) (rc_headers rc) # Slept (backoff 0) #
     failed_attempts rc (\<lambda>i. backoff (Suc i)) n"
  by (simp add: failed_attempts_def upt_conv_Cons map_Suc_upt [symmetric] comp_def del: upt_Suc)

text \<open>A success within the allowed number of retries.\<close>

lemma connect_loop_success:
  assumes "\<And>d. scale d (backoff_multiplier (rc_config rc)) = Done (f d)"
    and "rc_generation rc \<noteq> - 1"
    and "\<And>m. max_retries (rc_config rc) = Some m \<Longrightarrow> retries + length errors \<le> m"
  shows "connect_loop oc scale rc backoff retries (map Inl errors @ Inr (conn, listening) # answers) =
     Done (rc\<lparr> rc_active_connection := Some conn,
         rc_generation := fst (watch_send listening (rc_generation rc) (rc_generation rc + 1)) \<rparr>,
       failed_attempts rc (backoff_after f (max_backoff (rc_config rc)) backoff) (length errors) @
         ConnectAttempt (rc_server_name rc) (rc_headers rc) #
         snd (watch_send listening (rc_generation rc) (rc_generation rc + 1)),
       Some (Inr ()))"
  using assms(3)
proof (induction errors arbitrary: backoff retries)
  case Nil
  then show ?case
    using assms(2) by (auto simp: connect_loop.simps split: option.split prod.split)
next
  case (Cons e errors)
  let ?next = "min (f backoff) (max_backoff (rc_config rc))"
  have "\<not> (case max_retries (rc_config rc) of None \<Rightarrow> False | Some limit \<Rightarrow> limit < retries)"
    using Cons.prems by (auto split: option.split)
  moreover have "\<And>m. max_retries (rc_config rc) = Some m \<Longrightarrow> Suc retries + length errors \<le> m"
    using Cons.prems by simp
  note Cons.IH [OF this, of ?next]
  ultimately show ?case
    by (subst connect_loop.simps) (simp add: assms(1) failed_attempts_Suc comp_def)
qed

text \<open>As many failures as allowed.\<close>

lemma connect_loop_gives_up:
  assumes "\<And>d. scale d (backoff_multiplier (rc_config rc)) = Done (f d)"
    and "max_retries (rc_config rc) = Some m"
    and "retries + length errors = Suc m"
  shows "connect_loop oc scale rc backoff retries (map Inl errors @ answers) =
     Done (rc, failed_attempts rc (backoff_after f (max_backoff (rc_config rc)) backoff) (length errors),
       Some (Inl MaxRetriesExceeded))"
  using assms(3)
proof (induction errors arbitrary: backoff retries)
  case Nil
  then show ?case using assms(2) by (simp add: connect_loop.simps)
next
  case (Cons e errors)
  have "Suc retries + length errors = Suc m" using Cons.prems by simp
  note IH = Cons.IH [OF this, of "min (f backoff) (max_backoff (rc_config rc))"]
  show ?case
    using Cons.prems assms(2) IH
    by (subst connect_loop.simps) (simp add: assms(1) failed_attempts_Suc comp_def)
qed

text \<open>Any list of answers starts with its errors.\<close>

lemma answers_split:
  obtains (connected) errors conn rest where "answers = map Inl errors @ Inr conn # rest"
  | (failed) errors where "answers = map Inl errors"
proof (induction answers arbitrary: thesis)
  case Nil
  then show ?case by simp
next
  case (Cons a answers)
  show ?case
  proof (cases a)
    case (Inr conn)
    then show ?thesis using Cons.prems(1) [of "[]" conn answers] by simp
  next
    case (Inl e)
    show ?thesis
    proof (rule Cons.IH)
      fix errors conn rest
      assume "answers = map Inl errors @ Inr conn # rest"
      then show thesis using Cons.prems(1) [of "e # errors" conn rest] Inl by simp
    next
      fix errors
      assume "answers = map Inl errors"
      then show thesis using Cons.prems(2) [of "e # errors"] Inl by simp
    qed
  qed
qed

lemma takeWhile_errors: "takeWhile isl (map Inl errors @ answers) = map Inl errors @ takeWhile isl answers"
  by (induction errors) simp_all

text \<open>The generations announced to the subscribers.\<close>

fun generations :: "reconnect_effect list \<Rightarrow> u64 list" where
  "generations [] = []"
| "generations (GenerationSent g # es) = g # generations es"
| "generations (ConnectAttempt n hs # es) = generations es"
| "generations (Slept d # es) = generations es"

lemma generations_append [simp]: "generations (es @ fs) = generations es @ generations fs"
  by (induction es rule: generations.induct) simp_all

definition counted :: "u64 \<Rightarrow> reconnect_effect list \<Rightarrow> u64 \<Rightarrow> bool" where
  "counted g es g' \<longleftrightarrow>
     generations es = map (\<lambda>i. g + of_nat (Suc i)) [0..<length (generations es)] \<and>
     g' = g + of_nat (length (generations es))"

lemma counted_none: "generations es = [] \<Longrightarrow> counted g es g"
  by (simp add: counted_def)

lemma counted_append:
  assumes "counted g es g'" and "counted g' es' g''"
  shows "counted g (es @ es') g''"
proof -
  let ?n = "length (generations es)" and ?k = "length (generations es')"
  have "generations es' = map (\<lambda>i. g + of_nat (Suc (?n + i))) [0..<?k]"
    using assms by (simp add: counted_def algebra_simps)
  also have "\<dots> = map (\<lambda>i. g + of_nat (Suc i)) [?n..<?n + ?k]"
    by (rule nth_equalityI) simp_all
  finally have "generations (es @ es') = map (\<lambda>i. g + of_nat (Suc i)) ([0..<?n] @ [?n..<?n + ?k])"
    using assms(1) by (simp add: counted_def)
  moreover have "[0..<?n] @ [?n..<?n + ?k] = [0..<?n + ?k]"
    using upt_add_eq_append [of 0 ?n ?k] by simp
  ultimately show ?thesis using assms by (simp add: counted_def algebra_simps)
qed

lemma connect_loop_counted:
  "connect_loop oc scale rc backoff retries answers = Done (rc', es, result) \<Longrightarrow>
   counted (rc_generation rc) es (rc_generation rc') \<and>
   (result = Some (Inr ()) \<longrightarrow> rc_active_connection rc' \<noteq> None)"
proof (induction answers arbitrary: backoff retries es)
  case Nil
  then show ?case
    by (subst (asm) connect_loop.simps) (auto simp: counted_none split: if_splits)
next
  case (Cons a answers)
  show ?case
  proof (cases "case max_retries (rc_config rc) of None \<Rightarrow> False | Some limit \<Rightarrow> limit < retries")
    case True
    then show ?thesis
      using Cons.prems by (subst (asm) connect_loop.simps) (auto simp: counted_none)
  next
    case False
    show ?thesis
    proof (cases a)
      case (Inr conn)
      then show ?thesis
        using Cons.prems False
        by (subst (asm) connect_loop.simps)
          (auto simp: counted_def watch_send_def split: if_splits prod.splits)
    next
      case (Inl e)
      then obtain d es' where
        rest: "connect_loop oc scale rc d (Suc retries) answers = Done (rc', es', result)"
        and "generations es = generations es'"
        using Cons.prems False by (subst (asm) connect_loop.simps) auto
      with Cons.IH [OF rest] show ?thesis unfolding counted_def by auto
    qed
  qed
qed

lemma ensure_connected_counted:
  assumes "ensure_connected oc scale rc answers = Done (rc', es, result)"
  shows "counted (rc_generation rc) es (rc_generation rc') \<and>
    (result = Some (Inr ()) \<longrightarrow> rc_active_connection rc' \<noteq> None)"
  using assms connect_loop_counted by (fastforce simp: ensure_connected_def counted_none split: if_splits)

text \<open>Nothing is counted while nobody listens.\<close>

lemma connect_loop_silent:
  "connect_loop oc scale rc backoff retries answers = Done (rc', es, result) \<Longrightarrow>
   \<forall>conn. Inr (conn, True) \<notin> set answers \<Longrightarrow> rc_generation rc' = rc_generation rc"
proof (induction answers arbitrary: backoff retries es)
  case Nil
  then show ?case by (subst (asm) connect_loop.simps) (auto split: if_splits)
next
  case (Cons a answers)
  show ?case
  proof (cases a)
    case (Inr answer)
    then obtain conn where "answer = (conn, False)" using Cons.prems(2) by (cases answer) auto
    with Inr Cons.prems(1) show ?thesis
      by (subst (asm) connect_loop.simps) (auto simp: watch_send_def split: if_splits)
  next
    case (Inl e)
    with Cons show ?thesis by (subst (asm) connect_loop.simps) (auto split: if_splits)
  qed
qed

lemma ensure_connected_silent:
  "ensure_connected oc scale rc answers = Done (rc', es, result) \<Longrightarrow>
   \<forall>conn. Inr (conn, True) \<notin> set answers \<Longrightarrow> rc_generation rc' = rc_generation rc"
  using connect_loop_silent by (fastforce simp: ensure_connected_def split: if_splits)

lemma mani_loop_silent:
  "mani_loop oc scale rc rounds = Done (rc', es, result) \<Longrightarrow>
   \<forall>(answers, operation) \<in> set rounds. \<forall>conn. Inr (conn, True) \<notin> set answers \<Longrightarrow>
   rc_generation rc' = rc_generation rc"
proof (induction rounds arbitrary: rc es)
  case (Cons round rounds)
  obtain answers operation where round: "round = (answers, operation)" by (cases round)
  with Cons.prems(1) obtain rc1 es1 c where
    ens: "ensure_connected oc scale rc answers = Done (rc1, es1, c)" by auto
  have same: "rc_generation rc1 = rc_generation rc"
    using ensure_connected_silent [OF ens] Cons.prems(2) round by auto
  have later: "\<forall>(answers, operation) \<in> set rounds. \<forall>conn. Inr (conn, True) \<notin> set answers"
    using Cons.prems(2) by simp
  have "rc' = rc1 \<or> (\<exists>rc2 es2. mani_loop oc scale rc2 rounds = Done (rc', es2, result) \<and>
      rc_generation rc2 = rc_generation rc1)"
    using Cons.prems(1) round ens by (auto split: option.splits sum.splits)
  with Cons.IH [OF _ later] same show ?case by auto
qed simp

section \<open>Properties\<close>

text \<open>C19: With a limit of \<open>m\<close> retries, connecting ends after at most \<open>m + 1\<close> attempts: at the
  first that succeeds, or else with \<open>MaxRetriesExceeded\<close>.  Between attempts it sleeps the
  initial delay and then scaled ones that never exceed the cap, and success announces one more
  generation to the receivers, if there are any.\<close>

theorem reconnect_outcome:
  assumes "\<And>d. scale d (backoff_multiplier (rc_config rc)) = Done (f d)"
    and "rc_active_connection rc = None" and "rc_generation rc \<noteq> - 1"
    and "max_retries (rc_config rc) = Some m" and "m < length answers"
    and "n = length (takeWhile isl answers)"
    and "backoff = backoff_after f (max_backoff (rc_config rc)) (initial_backoff (rc_config rc))"
  shows "ensure_connected oc scale rc answers =
      (if n \<le> m
       then (case projr (answers ! n) of (conn, listening) \<Rightarrow>
           (case watch_send listening (rc_generation rc) (rc_generation rc + 1) of (generation, announced) \<Rightarrow>
              Done (rc\<lparr> rc_active_connection := Some conn, rc_generation := generation \<rparr>,
                failed_attempts rc backoff n @ ConnectAttempt (rc_server_name rc) (rc_headers rc) # announced,
                Some (Inr ()))))
       else Done (rc, failed_attempts rc backoff (Suc m), Some (Inl MaxRetriesExceeded))) \<and>
    backoff (Suc i) \<le> max_backoff (rc_config rc)"
proof -
  have ensure: "ensure_connected oc scale rc answers =
      connect_loop oc scale rc (initial_backoff (rc_config rc)) 0 answers"
    using assms(2) by (simp add: ensure_connected_def)
  have cap: "backoff (Suc i) \<le> max_backoff (rc_config rc)"
    unfolding assms(7) by (rule backoff_after_cap)
  have gives_up: "ensure_connected oc scale rc answers =
      Done (rc, failed_attempts rc backoff (Suc m), Some (Inl MaxRetriesExceeded))"
    if "answers = map Inl errors @ rest" "m < length errors" for errors rest
  proof -
    have answers: "answers = map Inl (take (Suc m) errors) @ map Inl (drop (Suc m) errors) @ rest"
      unfolding that(1) by (simp only: append_assoc [symmetric] map_append [symmetric] append_take_drop_id)
    have "length (take (Suc m) errors) = Suc m" using that(2) by simp
    with connect_loop_gives_up [of scale rc f m 0 "take (Suc m) errors"] assms(1,4)
    show ?thesis unfolding ensure assms(7) unfolding answers by simp
  qed
  show ?thesis
  proof (cases answers rule: answers_split)
    case (connected errors answer rest)
    obtain conn listening where answer: "answer = (conn, listening)" by (cases answer)
    have n: "n = length errors" using assms(6) connected by (simp add: takeWhile_errors)
    show ?thesis
    proof (cases "n \<le> m")
      case True
      then have "\<And>m'. max_retries (rc_config rc) = Some m' \<Longrightarrow> 0 + length errors \<le> m'"
        using n assms(4) by simp
      note success = connect_loop_success [of scale rc f 0 errors, OF assms(1,3) this]
      have "answers ! n = Inr (conn, listening)" by (simp add: connected n nth_append answer)
      moreover have "ensure_connected oc scale rc answers =
          Done (rc\<lparr> rc_active_connection := Some conn,
              rc_generation := fst (watch_send listening (rc_generation rc) (rc_generation rc + 1)) \<rparr>,
            failed_attempts rc backoff n @ ConnectAttempt (rc_server_name rc) (rc_headers rc) #
              snd (watch_send listening (rc_generation rc) (rc_generation rc + 1)), Some (Inr ()))"
        unfolding ensure assms(7) n unfolding connected answer by (rule success)
      ultimately show ?thesis using True cap by (simp split: prod.split)
    next
      case False
      then show ?thesis using gives_up [OF connected] n cap by simp
    qed
  next
    case (failed errors)
    then have "n = length errors" using assms(6) by (simp add: takeWhile_eq_all_conv [THEN iffD2])
    with failed assms(5) have "m < length errors" "m < n" by simp_all
    then show ?thesis using gives_up [of errors "[]"] failed cap by simp
  qed
qed

text \<open>A client of one retry, for the concrete instances; the multiplier doubles.\<close>

definition sample_rc :: "(nat, nat) reconnecting_connection" where
  "sample_rc =
     \<lparr> rc_server_name = [0x61], rc_headers = Map.empty,
       rc_config = \<lparr> initial_backoff = 3, max_backoff = 5, backoff_multiplier = 2, max_retries = Some 1 \<rparr>,
       rc_active_connection = None, rc_generation = 0 \<rparr>"

definition sample_scale :: "duration \<Rightarrow> nat \<Rightarrow> duration outcome" where
  "sample_scale d f = Done (d * f)"

theorem reconnect_outcome_witness:
  "ensure_connected True sample_scale sample_rc [Inl HandshakeTimeout, Inr (7, True)] =
     Done (sample_rc\<lparr> rc_active_connection := Some 7, rc_generation := 1 \<rparr>,
       [ConnectAttempt [0x61] Map.empty, Slept 3, ConnectAttempt [0x61] Map.empty, GenerationSent 1],
       Some (Inr ())) \<and>
   ensure_connected True sample_scale sample_rc [Inl HandshakeTimeout, Inl HandshakeTimeout, Inr (7, True)] =
     Done (sample_rc,
       [ConnectAttempt [0x61] Map.empty, Slept 3, ConnectAttempt [0x61] Map.empty, Slept 5],
       Some (Inl MaxRetriesExceeded))"
proof -
  have scale: "\<And>d. sample_scale d (backoff_multiplier (rc_config sample_rc)) = Done (d * 2)"
    by (simp add: sample_scale_def sample_rc_def)
  have rc: "rc_active_connection sample_rc = None" "rc_generation sample_rc \<noteq> - 1"
    "max_retries (rc_config sample_rc) = Some 1"
    by (simp_all add: sample_rc_def)
  note outcome = reconnect_outcome [where scale = sample_scale and f = "\<lambda>d. d * 2", OF scale rc _ refl refl, of _ True, THEN conjunct1]
  show ?thesis
    using outcome [of "[Inl HandshakeTimeout, Inr (7, True)]"]
      outcome [of "[Inl HandshakeTimeout, Inl HandshakeTimeout, Inr (7, True)]"]
    by (simp add: failed_attempts_Suc watch_send_def) (simp add: sample_rc_def)
qed

text \<open>C39: Whatever fails on the way, the generations announced while a stream is opened are
  consecutive, the channel holds the last of them, and a stream is only returned from the
  connection that is then active.  But only connections made while somebody listens count:
  without a receiver the channel keeps its value however often the wrapper reconnects, so the
  first connection is generation 0.\<close>

theorem reconnect_generations:
  assumes "mani_loop oc scale rc rounds = Done (rc', es, result)"
  shows "generations es = map (\<lambda>i. rc_generation rc + of_nat (Suc i)) [0..<length (generations es)] \<and>
    rc_generation rc' = rc_generation rc + of_nat (length (generations es)) \<and>
    (\<forall>stream. result = Some (Inr stream) \<longrightarrow>
      (\<exists>conn operation. rc_active_connection rc' = Some conn \<and> operation \<in> snd ` set rounds \<and>
        operation conn = Inr stream)) \<and>
    ((\<forall>(answers, operation) \<in> set rounds. \<forall>conn. Inr (conn, True) \<notin> set answers) \<longrightarrow>
      rc_generation rc' = rc_generation rc)"
proof -
  have silent: "rc_generation rc' = rc_generation rc"
    if "\<forall>(answers, operation) \<in> set rounds. \<forall>conn. Inr (conn, True) \<notin> set answers"
    using mani_loop_silent [OF assms that] .
  have "counted (rc_generation rc) es (rc_generation rc') \<and>
    (\<forall>stream. result = Some (Inr stream) \<longrightarrow>
      (\<exists>conn operation. rc_active_connection rc' = Some conn \<and> operation \<in> snd ` set rounds \<and>
        operation conn = Inr stream))"
    using assms
  proof (induction rounds arbitrary: rc es)
    case Nil
    then show ?case by (auto simp: counted_none)
  next
    case (Cons round rounds)
    obtain answers operation where round: "round = (answers, operation)" by (cases round)
    from Cons.prems round obtain rc1 es1 c where
      ens: "ensure_connected oc scale rc answers = Done (rc1, es1, c)" by auto
    note counted1 = ensure_connected_counted [OF ens, THEN conjunct1]
    consider (ends) "rc' = rc1" "es = es1" "\<And>stream. result \<noteq> Some (Inr stream)"
      | (opened) conn stream where "rc' = rc1" "es = es1" "rc_active_connection rc1 = Some conn"
          "operation conn = Inr stream" "result = Some (Inr stream)"
      | (again) rc2 es2 where "mani_loop oc scale rc2 rounds = Done (rc', es2, result)" "es = es1 @ es2"
          "rc_generation rc2 = rc_generation rc1"
      using Cons.prems round ens
      by (auto split: option.splits sum.splits)
    then show ?case
    proof cases
      case ends
      with counted1 show ?thesis by simp
    next
      case opened
      with counted1 round show ?thesis by auto
    next
      case again
      from Cons.IH [OF again(1)] again(3) have "counted (rc_generation rc1) es2 (rc_generation rc')" by simp
      from counted_append [OF counted1 this] again(2) Cons.IH [OF again(1)]
      show ?thesis by (simp only: list.set image_insert) blast
    qed
  qed
  with silent show ?thesis unfolding counted_def by blast
qed

text \<open>Two connections with a receiver, and two without.\<close>

theorem reconnect_generations_witness:
  "\<exists>rc' es rc'' es'. mani_loop True sample_scale sample_rc
       [([Inr (7, True)], \<lambda>conn. Inl HandshakeTimeout), ([Inl HandshakeTimeout, Inr (8, True)], \<lambda>conn. Inr conn)] =
     Done (rc', es, Some (Inr (8 :: nat))) \<and> generations es = [1, 2] \<and> rc_generation rc' = 2 \<and>
     rc_active_connection rc' = Some 8 \<and>
     mani_loop True sample_scale sample_rc
       [([Inr (7, False)], \<lambda>conn. Inl HandshakeTimeout), ([Inr (8, False)], \<lambda>conn. Inr conn)] =
     Done (rc'', es', Some (Inr 8)) \<and> rc_generation rc'' = 0"
proof -
  let ?rounds = "[([Inr (7, True)], \<lambda>conn. Inl HandshakeTimeout), ([Inl HandshakeTimeout, Inr (8, True)], \<lambda>conn. Inr conn)] ::
    ((protofish_connection_error + nat \<times> bool) list \<times> (nat \<Rightarrow> protofish_connection_error + nat)) list"
  let ?silent = "[([Inr (7, False)], \<lambda>conn. Inl HandshakeTimeout), ([Inr (8, False)], \<lambda>conn. Inr conn)] ::
    ((protofish_connection_error + nat \<times> bool) list \<times> (nat \<Rightarrow> protofish_connection_error + nat)) list"
  obtain rc' es where run: "mani_loop True sample_scale sample_rc ?rounds = Done (rc', es, Some (Inr 8))"
    and gens: "length (generations es) = 2"
    by (simp add: ensure_connected_def connect_loop.simps sample_rc_def sample_scale_def watch_send_def)
  obtain rc'' es' where silent: "mani_loop True sample_scale sample_rc ?silent = Done (rc'', es', Some (Inr 8))"
    by (simp add: ensure_connected_def connect_loop.simps sample_rc_def sample_scale_def watch_send_def)
  from reconnect_generations [OF run] gens have "generations es = [1, 2]" "rc_generation rc' = 2"
    and "\<exists>conn operation. rc_active_connection rc' = Some conn \<and> operation \<in> snd ` set ?rounds \<and>
        operation conn = Inr 8"
    by (simp_all add: sample_rc_def numeral_2_eq_2)
  moreover have "rc_generation rc'' = rc_generation sample_rc"
    using reconnect_generations [OF silent, THEN conjunct2, THEN conjunct2, THEN conjunct2] by simp
  then have "rc_generation rc'' = 0" by (simp add: sample_rc_def)
  ultimately show ?thesis using run silent by auto
qed

end
