(* ===== verification/Opus_Stream.thy ===== *)
theory Opus_Stream
  imports Recv_Stream
begin

text \<open>
  Decoding the reliable stream with Opus, \<^verbatim>\<open>src/src/mani/transfer/opus.rs\<close>, and the
  decoder both audio adapters use.
\<close>

section \<open>The decoder\<close>

text \<open>
  The opus library is a parameter: \<open>decode d input pcm fec\<close> decodes into the buffer
  \<open>pcm\<close> and reports the new decoder, the filled buffer and the samples per channel.  A buffer
  holds 120 ms at 48 kHz for every channel.  \<open>'s\<close> is the type of samples.
\<close>

record ('d, 's) opus_ops =
  decode :: "'d \<Rightarrow> bytes \<Rightarrow> 's list \<Rightarrow> bool \<Rightarrow> 'd \<times> (string + 's list \<times> nat)"

definition max_samples :: "nat \<Rightarrow> nat" where
  "max_samples channels = 5760 * channels"

definition decode_frame ::
  "('d, 's :: zero) opus_ops \<Rightarrow> nat \<Rightarrow> 'd \<Rightarrow> bytes \<Rightarrow> bool \<Rightarrow> 'd \<times> (string + 's list)" where
  "decode_frame ops channels d input fec =
     (case decode ops d input (replicate (max_samples channels) 0) fec of
        (d, Inl e) \<Rightarrow> (d, Inl e)
      | (d, Inr (pcm, decoded_len)) \<Rightarrow> (d, Inr (take (decoded_len * channels) pcm)))"

section \<open>The stream\<close>

text \<open>What \<open>recv\<close> of the reliable stream returned is decoded chunk by chunk, up to an error.\<close>

fun decode_chunks ::
  "('d, 's :: zero) opus_ops \<Rightarrow> nat \<Rightarrow> 'd \<Rightarrow> chunk list \<Rightarrow> 'd \<times> (string + 's list list)" where
  "decode_chunks ops channels d [] = (d, Inr [])"
| "decode_chunks ops channels d (chunk # chunks) =
     (case decode_frame ops channels d (chunk_content chunk) False of
        (d, Inl e) \<Rightarrow> (d, Inl e)
      | (d, Inr pcm) \<Rightarrow>
          (case decode_chunks ops channels d chunks of
             (d, Inl e) \<Rightarrow> (d, Inl e)
           | (d, Inr decoded_chunks) \<Rightarrow> (d, Inr (pcm # decoded_chunks))))"

definition opus_recv ::
  "('d, 's :: zero) opus_ops \<Rightarrow> nat \<Rightarrow> 'd \<Rightarrow> chunk list option \<Rightarrow> 'd \<times> (string + 's list list option)" where
  "opus_recv ops channels d received =
     (case received of
        Some chunks \<Rightarrow>
          (case decode_chunks ops channels d chunks of
             (d, Inl e) \<Rightarrow> (d, Inl e)
           | (d, Inr decoded_chunks) \<Rightarrow> (d, Inr (Some decoded_chunks)))
      | None \<Rightarrow> (d, Inr None))"

text \<open>Decoding a sequence of inputs none of which fails: the decoder's state is threaded through.\<close>

fun decode_all ::
  "('d, 's :: zero) opus_ops \<Rightarrow> nat \<Rightarrow> 'd \<Rightarrow> bytes list \<Rightarrow> ('d \<times> 's list list) option" where
  "decode_all ops channels d [] = Some (d, [])"
| "decode_all ops channels d (input # inputs) =
     (case decode_frame ops channels d input False of
        (d, Inl e) \<Rightarrow> None
      | (d, Inr pcm) \<Rightarrow> map_option (\<lambda>(d, pcms). (d, pcm # pcms)) (decode_all ops channels d inputs))"

lemma decode_all_append:
  "decode_all ops channels d (xs @ ys) =
     (case decode_all ops channels d xs of
        None \<Rightarrow> None
      | Some (d, pcms) \<Rightarrow> map_option (\<lambda>(d, pcms'). (d, pcms @ pcms')) (decode_all ops channels d ys))"
proof (induction xs arbitrary: d)
  case Nil
  show ?case by (simp add: case_prod_beta' option.map_ident)
next
  case (Cons x xs)
  show ?case
    by (auto simp: Cons.IH option.map_comp comp_def case_prod_beta' split: sum.split option.split)
qed

lemma decode_all_length: "decode_all ops channels d inputs = Some (d', pcms) \<Longrightarrow> length pcms = length inputs"
  by (induction inputs arbitrary: d pcms) (auto split: prod.splits sum.splits)

lemma decode_chunks_all:
  "decode_all ops channels d (map chunk_content chunks) = Some (d', pcms) \<Longrightarrow>
   decode_chunks ops channels d chunks = (d', Inr pcms)"
proof (induction chunks arbitrary: d pcms)
  case (Cons c chunks)
  then show ?case by (auto split: prod.splits sum.splits)
qed simp

lemma opus_recv_all:
  "decode_all ops channels d (map chunk_content chunks) = Some (d', pcms) \<Longrightarrow>
   opus_recv ops channels d (Some chunks) = (d', Inr (Some pcms))"
  by (simp add: opus_recv_def decode_chunks_all)

text \<open>Several calls decode what one call on everything would.\<close>

fun opus_session ::
  "('d, 's :: zero) opus_ops \<Rightarrow> nat \<Rightarrow> 'd \<Rightarrow> chunk list option list \<Rightarrow> 'd \<times> (string + 's list list option) list" where
  "opus_session ops channels d [] = (d, [])"
| "opus_session ops channels d (received # rs) =
     (case opus_recv ops channels d received of
        (d, r) \<Rightarrow> (case opus_session ops channels d rs of (d, results) \<Rightarrow> (d, r # results)))"

lemma opus_session_all:
  "decode_all ops channels d (map chunk_content (concat batches)) = Some (d', pcms) \<Longrightarrow>
   \<exists>outs. opus_session ops channels d (map Some batches) = (d', map (\<lambda>out. Inr (Some out)) outs) \<and>
     concat outs = pcms"
proof (induction batches arbitrary: d pcms)
  case Nil
  then show ?case by simp
next
  case (Cons b batches)
  obtain d1 pcms1 pcms2 where
    first: "decode_all ops channels d (map chunk_content b) = Some (d1, pcms1)"
    and rest: "decode_all ops channels d1 (map chunk_content (concat batches)) = Some (d', pcms2)"
    and pcms: "pcms = pcms1 @ pcms2"
    using Cons.prems by (auto simp: decode_all_append split: option.splits)
  from Cons.IH [OF rest] obtain outs where
    "opus_session ops channels d1 (map Some batches) = (d', map (\<lambda>out. Inr (Some out)) outs)" "concat outs = pcms2"
    by blast
  then have "opus_session ops channels d (map Some (b # batches)) =
      (d', map (\<lambda>out. Inr (Some out)) (pcms1 # outs)) \<and> concat (pcms1 # outs) = pcms"
    by (simp add: opus_recv_all [OF first] pcms)
  then show ?case by blast
qed

end
