(* ===== verification/Jitter.thy ===== *)
theory Jitter
  imports Opus_Stream
begin

text \<open>
  The jitter buffer for Opus audio on the unreliable stream,
  \<^verbatim>\<open>src/src/mani/transfer/jitter.rs\<close>: frames are buffered by timestamp and played at
  the pace of a clock that starts at the first frame, with concealment of frames that are
  missing for too long.
\<close>

section \<open>Ordered maps\<close>

text \<open>A \<open>BTreeMap<u64, Bytes>\<close> is the list of its entries in the order of their keys.\<close>

type_synonym frame_map = "(u64 \<times> bytes) list"

fun btree_insert :: "u64 \<Rightarrow> bytes \<Rightarrow> frame_map \<Rightarrow> frame_map" where
  "btree_insert k v [] = [(k, v)]"
| "btree_insert k v ((k', v') # m) =
     (if k < k' then (k, v) # (k', v') # m
      else if k = k' then (k, v) # m
      else (k', v') # btree_insert k v m)"

definition btree_remove :: "u64 \<Rightarrow> frame_map \<Rightarrow> frame_map" where
  "btree_remove k m = filter (\<lambda>(k', v). k' \<noteq> k) m"

definition btree_ordered :: "frame_map \<Rightarrow> bool" where
  "btree_ordered m \<longleftrightarrow> sorted_wrt (<) (map fst m)"

lemma btree_insert_keys: "set (map fst (btree_insert k v m)) = insert k (set (map fst m))"
  by (induction k v m rule: btree_insert.induct) (simp_all add: insert_commute)

lemma btree_insert_ordered: "btree_ordered m \<Longrightarrow> btree_ordered (btree_insert k v m)"
  unfolding btree_ordered_def
proof (induction m)
  case (Cons e m)
  obtain k' v' where e: "e = (k', v')" by (cases e)
  have "set (map fst (btree_insert k v m)) = insert k (set (map fst m))" by (rule btree_insert_keys)
  with Cons show ?case by (auto simp: e simp flip: set_map)
qed simp

lemma btree_insert_lookup: "btree_ordered m \<Longrightarrow> map_of (btree_insert k v m) = (map_of m)(k \<mapsto> v)"
  unfolding btree_ordered_def by (induction m) (auto simp: fun_eq_iff)

lemma btree_remove_ordered: "btree_ordered m \<Longrightarrow> btree_ordered (btree_remove k m)"
  unfolding btree_ordered_def btree_remove_def by (induction m) auto

lemma btree_remove_first: "btree_ordered ((k, v) # m) \<Longrightarrow> btree_remove k ((k, v) # m) = m"
  by (auto simp: btree_ordered_def btree_remove_def filter_id_conv)

section \<open>State\<close>

text \<open>Fifteen seconds without a frame are a stall.\<close>

definition STALL_TIMEOUT :: nat where
  "STALL_TIMEOUT = 15 * 10 ^ 9"

datatype jitter_error = Opus string | Stalled

record 'd jitter_buffer =
  jb_decoder :: 'd
  jb_buffer :: frame_map
  jb_frame_size_ms :: u64
  jb_playout_delay_ms :: u64
  jb_next_play_ts :: "u64 option"
  jb_channels :: nat
  jb_is_eof :: bool

definition jitter_new :: "string + 'd \<Rightarrow> nat \<Rightarrow> u64 \<Rightarrow> u64 \<Rightarrow> string + 'd jitter_buffer" where
  "jitter_new decoder channels frame_size_ms playout_delay_ms =
     and_then decoder (\<lambda>decoder. Inr
       \<lparr> jb_decoder = decoder, jb_buffer = [], jb_frame_size_ms = frame_size_ms,
         jb_playout_delay_ms = playout_delay_ms, jb_next_play_ts = None, jb_channels = channels,
         jb_is_eof = False \<rparr>)"

section \<open>Playing\<close>

text \<open>
  One pass over the buffer: a frame played or concealed, the end, a gap skipped after the end
  of the stream, or nothing to play before the next frame arrives.
\<close>

datatype 's jitter_step =
    Played "string + 's list"
  | Ended
  | Skipped
  | NeedsFrame

definition saturating_sub64 :: "u64 \<Rightarrow> u64 \<Rightarrow> u64" where
  "saturating_sub64 a b = (if b \<le> a then a - b else 0)"

definition jitter_play ::
  "bool \<Rightarrow> ('d, 's :: zero) opus_ops \<Rightarrow> 'd jitter_buffer \<Rightarrow> u64 \<Rightarrow> bytes \<Rightarrow> bool \<Rightarrow>
   ('d jitter_buffer \<times> 's jitter_step) outcome" where
  "jitter_play overflow_checks ops J next_play_ts input fec =
     (case decode_frame ops (jb_channels J) (jb_decoder J) input fec of
        (d, Inl e) \<Rightarrow> Done (J\<lparr> jb_decoder := d \<rparr>, Played (Inl e))
      | (d, Inr pcm) \<Rightarrow>
          if overflow_checks \<and> 2 ^ 64 \<le> unat next_play_ts + unat (jb_frame_size_ms J) then Panic
          else Done
            (J\<lparr> jb_decoder := d, jb_next_play_ts := Some (next_play_ts + jb_frame_size_ms J) \<rparr>,
             Played (Inr pcm)))"

definition jitter_manage ::
  "bool \<Rightarrow> ('d, 's :: zero) opus_ops \<Rightarrow> 'd jitter_buffer \<Rightarrow>
   ('d jitter_buffer \<times> 's jitter_step) outcome" where
  "jitter_manage overflow_checks ops J =
     (case jb_next_play_ts J of
        None \<Rightarrow> Done (J, NeedsFrame)
      | Some next_play_ts \<Rightarrow>
          (let max_ts = (if jb_buffer J = [] then 0 else fst (last (jb_buffer J))) in
           case map_of (jb_buffer J) next_play_ts of
             Some chunk \<Rightarrow>
               jitter_play overflow_checks ops
                 (J\<lparr> jb_buffer := btree_remove next_play_ts (jb_buffer J) \<rparr>) next_play_ts chunk False
           | None \<Rightarrow>
               if jb_is_eof J then
                 (case jb_buffer J of
                    [] \<Rightarrow> Done (J, Ended)
                  | (ts, chunk) # m \<Rightarrow> Done (J\<lparr> jb_next_play_ts := Some ts \<rparr>, Skipped))
               else if jb_playout_delay_ms J \<le> saturating_sub64 max_ts next_play_ts then
                 jitter_play overflow_checks ops J next_play_ts [] True
               else Done (J, NeedsFrame)))"

section \<open>Receiving\<close>

text \<open>What the receive call under its timeout gives.\<close>

datatype jitter_event = ReceiveElapsed | FrameReceived chunk | StreamEnded

definition jitter_insert :: "'d jitter_buffer \<Rightarrow> chunk \<Rightarrow> 'd jitter_buffer" where
  "jitter_insert J chunk =
     (let ts = timestamp_val (chunk_timestamp chunk);
          J = (if jb_next_play_ts J = None then J\<lparr> jb_next_play_ts := Some ts \<rparr> else J)
      in J\<lparr> jb_buffer := btree_insert ts (chunk_content chunk) (jb_buffer J) \<rparr>)"

text \<open>Skipping a gap is followed by playing a frame, so no two skips follow each other.\<close>

definition frame_due :: "'d jitter_buffer \<Rightarrow> bool" where
  "frame_due J \<longleftrightarrow> (\<exists>ts chunk. jb_next_play_ts J = Some ts \<and> map_of (jb_buffer J) ts = Some chunk)"

lemma jitter_manage_due:
  "frame_due J \<Longrightarrow> jitter_manage oc ops J = Done (J', step) \<Longrightarrow> \<exists>r. step = Played r"
  by (auto simp: frame_due_def jitter_manage_def jitter_play_def split: prod.splits sum.splits if_splits)

lemma jitter_play_not_skipped: "jitter_play oc ops J ts input fec \<noteq> Done (J', Skipped)"
  by (simp add: jitter_play_def split: prod.split sum.split)

lemma jitter_manage_skipped:
  assumes "jitter_manage oc ops J = Done (J', Skipped)"
  shows "frame_due J'" and "\<not> frame_due J"
proof -
  from assms jitter_manage_due show "\<not> frame_due J" by blast
  from assms show "frame_due J'"
    by (auto simp: jitter_manage_def Let_def jitter_play_not_skipped frame_due_def
        split: option.splits if_splits list.splits)
qed

text \<open>
  The call: its result, none while it waits for more than the given events, and the events
  left over.
\<close>

function (sequential) yield_pcm ::
  "bool \<Rightarrow> ('d, 's :: zero) opus_ops \<Rightarrow> 'd jitter_buffer \<Rightarrow> jitter_event list \<Rightarrow>
   ('d jitter_buffer \<times> jitter_event list \<times> (jitter_error + 's list option) option) outcome" where
  "yield_pcm overflow_checks ops J events =
     bind_outcome (jitter_manage overflow_checks ops J) (\<lambda>(J', step).
       case step of
         Played (Inl e) \<Rightarrow> Done (J', events, Some (Inl (Opus e)))
       | Played (Inr pcm) \<Rightarrow> Done (J', events, Some (Inr (Some pcm)))
       | Ended \<Rightarrow> Done (J', events, Some (Inr None))
       | Skipped \<Rightarrow> yield_pcm overflow_checks ops J' events
       | NeedsFrame \<Rightarrow>
           (case events of
              [] \<Rightarrow> Done (J', [], None)
            | ReceiveElapsed # events \<Rightarrow> Done (J', events, Some (Inl Stalled))
            | FrameReceived chunk # events \<Rightarrow> yield_pcm overflow_checks ops (jitter_insert J' chunk) events
            | StreamEnded # events \<Rightarrow>
                if jb_next_play_ts J' = None
                then Done (J'\<lparr> jb_is_eof := True \<rparr>, events, Some (Inr None))
                else yield_pcm overflow_checks ops (J'\<lparr> jb_is_eof := True \<rparr>) events))"
  by pat_completeness auto

termination
  by (relation "measures [\<lambda>(oc, ops, J, events). length events,
      \<lambda>(oc, ops, J, events). if frame_due J then 0 else 1]")
    (auto dest: jitter_manage_skipped)

declare yield_pcm.simps [simp del]

lemma yield_played:
  "jitter_manage oc ops J = Done (J', Played (Inr pcm)) \<Longrightarrow>
   yield_pcm oc ops J events = Done (J', events, Some (Inr (Some pcm)))"
  by (subst yield_pcm.simps) simp

lemma yield_ended:
  "jitter_manage oc ops J = Done (J', Ended) \<Longrightarrow> yield_pcm oc ops J events = Done (J', events, Some (Inr None))"
  by (subst yield_pcm.simps) simp

lemma yield_receives:
  "jitter_manage oc ops J = Done (J', NeedsFrame) \<Longrightarrow>
   yield_pcm oc ops J (FrameReceived chunk # events) = yield_pcm oc ops (jitter_insert J' chunk) events"
  by (subst yield_pcm.simps) simp

lemma yield_stream_ended:
  "jitter_manage oc ops J = Done (J', NeedsFrame) \<Longrightarrow> jb_next_play_ts J' \<noteq> None \<Longrightarrow>
   yield_pcm oc ops J (StreamEnded # events) = yield_pcm oc ops (J'\<lparr> jb_is_eof := True \<rparr>) events"
  by (subst yield_pcm.simps) auto

section \<open>Reordering\<close>

text \<open>The application's calls, one after the other, with their results.\<close>

fun yield_session ::
  "bool \<Rightarrow> ('d, 's :: zero) opus_ops \<Rightarrow> nat \<Rightarrow> 'd jitter_buffer \<Rightarrow> jitter_event list \<Rightarrow>
   (jitter_error + 's list option) option list outcome" where
  "yield_session overflow_checks ops 0 J events = Done []"
| "yield_session overflow_checks ops (Suc n) J events =
     bind_outcome (yield_pcm overflow_checks ops J events) (\<lambda>(J, events, result).
     bind_outcome (yield_session overflow_checks ops n J events) (\<lambda>results. Done (result # results)))"

text \<open>Frames of one stream: the \<open>i\<close>-th starts \<open>i\<close> frame sizes after the first.\<close>

definition frame_ts :: "nat \<Rightarrow> nat \<Rightarrow> nat \<Rightarrow> u64" where
  "frame_ts start fsize i = of_nat (start + i * fsize)"

definition paced :: "nat \<Rightarrow> nat \<Rightarrow> chunk list \<Rightarrow> bool" where
  "paced start fsize frames \<longleftrightarrow>
     0 < fsize \<and> start + length frames * fsize < 2 ^ 64 \<and>
     (\<forall>i < length frames. chunk_timestamp (frames ! i) = Timestamp (frame_ts start fsize i))"

lemma paced_bound:
  assumes "paced start fsize frames" and "i \<le> length frames"
  shows "start + i * fsize < 2 ^ 64"
proof -
  have "i * fsize \<le> length frames * fsize" using assms(2) by simp
  then show ?thesis using assms(1) unfolding paced_def by linarith
qed

lemma unat_frame_ts:
  "paced start fsize frames \<Longrightarrow> i \<le> length frames \<Longrightarrow> unat (frame_ts start fsize i) = start + i * fsize"
  using paced_bound [of start fsize frames i] by (simp add: frame_ts_def unat_of_nat del: of_nat_add of_nat_mult)

lemma frame_ts_inject:
  assumes "paced start fsize frames" and "i \<le> length frames" and "j \<le> length frames"
  shows "frame_ts start fsize i = frame_ts start fsize j \<longleftrightarrow> i = j"
  using assms by (auto simp: word_unat_eq_iff unat_frame_ts paced_def)

text \<open>
  The buffer while frame \<open>p\<close> is the next to play and the frames \<open>arrived\<close> have been
  received.
\<close>

definition awaiting ::
  "nat \<Rightarrow> nat \<Rightarrow> chunk list \<Rightarrow> nat list \<Rightarrow> nat \<Rightarrow> 'd jitter_buffer \<Rightarrow> bool" where
  "awaiting start fsize frames arrived p J \<longleftrightarrow>
     btree_ordered (jb_buffer J) \<and> {..<p} \<subseteq> set arrived \<and> \<not> jb_is_eof J \<and>
     jb_next_play_ts J = Some (frame_ts start fsize p) \<and>
     set (map fst (jb_buffer J)) \<subseteq> frame_ts start fsize ` {i \<in> set arrived. p \<le> i} \<and>
     (\<forall>i < length frames. map_of (jb_buffer J) (frame_ts start fsize i) =
        (if i \<in> set arrived \<and> p \<le> i then Some (chunk_content (frames ! i)) else None))"

lemma awaiting_insert:
  assumes paced: "paced start fsize frames"
    and aw: "awaiting start fsize frames arrived p J"
    and new: "i \<notin> set arrived" "i < length frames"
  shows "awaiting start fsize frames (arrived @ [i]) p (jitter_insert J (frames ! i))"
proof -
  let ?J = "jitter_insert J (frames ! i)"
  have ts: "timestamp_val (chunk_timestamp (frames ! i)) = frame_ts start fsize i"
    using paced new(2) by (simp add: paced_def)
  have ins: "?J = J\<lparr> jb_buffer := btree_insert (frame_ts start fsize i) (chunk_content (frames ! i)) (jb_buffer J) \<rparr>"
    using aw ts by (simp add: jitter_insert_def awaiting_def)
  have p: "p \<le> i" using aw new(1) by (auto simp: awaiting_def lessThan_def not_le [symmetric])
  have "map_of (jb_buffer ?J) (frame_ts start fsize k) =
      (if k \<in> set (arrived @ [i]) \<and> p \<le> k then Some (chunk_content (frames ! k)) else None)"
    if "k < length frames" for k
    using aw that p frame_ts_inject [OF paced, of k i] new(2)
    by (auto simp: ins awaiting_def btree_insert_lookup)
  moreover have "set (map fst (jb_buffer ?J)) \<subseteq> frame_ts start fsize ` {k \<in> set (arrived @ [i]). p \<le> k}"
    using aw p unfolding ins by (auto simp: awaiting_def btree_insert_keys simp flip: set_map)
  ultimately show ?thesis using aw by (auto simp: awaiting_def ins btree_insert_ordered)
qed

text \<open>No missing frame is concealed while no frame overtakes it by the playout delay.\<close>

lemma awaiting_needs_frame:
  assumes paced: "paced start fsize frames" and fsize: "fsize = unat (jb_frame_size_ms J)"
    and aw: "awaiting start fsize frames arrived p J"
    and p: "p \<le> length frames" "p \<notin> set arrived" and arrived: "set arrived \<subseteq> {..<length frames}"
    and near: "\<forall>i \<in> set arrived. i < p + w"
    and delay: "0 < w" "w * fsize \<le> unat (jb_playout_delay_ms J)"
  shows "jitter_manage oc ops J = Done (J, NeedsFrame)"
proof -
  let ?max = "if jb_buffer J = [] then 0 else fst (last (jb_buffer J))"
  have keys: "set (map fst (jb_buffer J)) \<subseteq> frame_ts start fsize ` {i \<in> set arrived. p \<le> i}"
    using aw by (simp add: awaiting_def)
  have none: "map_of (jb_buffer J) (frame_ts start fsize p) = None"
  proof (rule ccontr)
    assume "map_of (jb_buffer J) (frame_ts start fsize p) \<noteq> None"
    then have "frame_ts start fsize p \<in> set (map fst (jb_buffer J))" by (simp add: map_of_eq_None_iff)
    with keys obtain i where "i \<in> set arrived" "frame_ts start fsize p = frame_ts start fsize i" by auto
    with p arrived frame_ts_inject [OF paced, of p i] show False by auto
  qed
  have "unat (saturating_sub64 ?max (frame_ts start fsize p)) < w * fsize"
  proof (cases "jb_buffer J = []")
    case True
    then show ?thesis using paced delay(1) by (simp add: saturating_sub64_def paced_def)
  next
    case False
    then have "fst (last (jb_buffer J)) \<in> set (map fst (jb_buffer J))" by simp
    with keys obtain i where i: "i \<in> set arrived" "p \<le> i" "fst (last (jb_buffer J)) = frame_ts start fsize i"
      by auto
    then have "i \<le> length frames" "i < p + w" using arrived near by auto
    have "unat (frame_ts start fsize i) - unat (frame_ts start fsize p) = (i - p) * fsize"
      using i(2) by (simp add: unat_frame_ts [OF paced \<open>i \<le> length frames\<close>] unat_frame_ts [OF paced p(1)] diff_mult_distrib)
    also have "\<dots> < w * fsize" using \<open>i < p + w\<close> i(2) paced by (simp add: paced_def less_diff_conv2)
    finally have "unat (frame_ts start fsize i) - unat (frame_ts start fsize p) < w * fsize" .
    moreover have "0 < w * fsize" using delay(1) paced by (simp add: paced_def)
    ultimately show ?thesis using False i(3) by (simp add: saturating_sub64_def unat_sub)
  qed
  then have "\<not> jb_playout_delay_ms J \<le> saturating_sub64 ?max (frame_ts start fsize p)"
    using delay(2) by (simp add: word_le_nat_alt)
  then show ?thesis using aw none by (simp add: awaiting_def jitter_manage_def Let_def)
qed

text \<open>The frame that is due is played.\<close>

lemma awaiting_plays:
  assumes paced: "paced start fsize frames" and fsize: "fsize = unat (jb_frame_size_ms J)"
    and aw: "awaiting start fsize frames arrived p J"
    and p: "p < length frames" "p \<in> set arrived" and arrived: "set arrived \<subseteq> {..<length frames}"
    and dec: "decode_frame ops (jb_channels J) (jb_decoder J) (chunk_content (frames ! p)) False = (d, Inr pcm)"
  obtains J' where "jitter_manage oc ops J = Done (J', Played (Inr pcm))"
    and "awaiting start fsize frames arrived (Suc p) J'" and "jb_decoder J' = d"
    and "jb_frame_size_ms J' = jb_frame_size_ms J" and "jb_playout_delay_ms J' = jb_playout_delay_ms J"
    and "jb_channels J' = jb_channels J"
proof -
  let ?t = "frame_ts start fsize p" and ?u = "frame_ts start fsize (Suc p)"
  let ?J = "J\<lparr> jb_buffer := btree_remove ?t (jb_buffer J), jb_decoder := d, jb_next_play_ts := Some ?u \<rparr>"
  have found: "map_of (jb_buffer J) ?t = Some (chunk_content (frames ! p))"
    using aw p by (simp add: awaiting_def)
  have next_ts: "?t + jb_frame_size_ms J = ?u"
    by (simp add: frame_ts_def fsize algebra_simps)
  have "unat ?t + unat (jb_frame_size_ms J) < 2 ^ 64"
    using paced_bound [OF paced, of "Suc p"] p(1) unat_frame_ts [OF paced, of p] fsize by simp
  then have "jitter_manage oc ops J = Done (?J, Played (Inr pcm))"
    using aw found dec next_ts by (simp add: awaiting_def jitter_manage_def jitter_play_def Let_def)
  moreover have "awaiting start fsize frames arrived (Suc p) ?J"
  proof -
    have inj: "frame_ts start fsize k = ?t \<longleftrightarrow> k = p" if "k < length frames" for k
      using frame_ts_inject [OF paced, of k p] that p(1) by simp
    have lookup: "map_of (btree_remove ?t m) k = (if k = ?t then None else map_of m k)" for k m
      by (induction m) (auto simp: btree_remove_def)
    have "map_of (btree_remove ?t (jb_buffer J)) (frame_ts start fsize k) =
        (if k \<in> set arrived \<and> Suc p \<le> k then Some (chunk_content (frames ! k)) else None)"
      if "k < length frames" for k
      using aw that inj [OF that] by (auto simp: lookup awaiting_def)
    moreover have "set (map fst (btree_remove ?t (jb_buffer J))) \<subseteq> frame_ts start fsize ` {k \<in> set arrived. Suc p \<le> k}"
    proof
      fix x
      assume "x \<in> set (map fst (btree_remove ?t (jb_buffer J)))"
      then have "x \<in> set (map fst (jb_buffer J))" "x \<noteq> ?t" by (auto simp: btree_remove_def)
      moreover have "set (map fst (jb_buffer J)) \<subseteq> frame_ts start fsize ` {i \<in> set arrived. p \<le> i}"
        using aw by (simp add: awaiting_def)
      ultimately obtain k where "k \<in> set arrived" "p \<le> k" "x = frame_ts start fsize k" "k \<noteq> p"
        by blast
      then show "x \<in> frame_ts start fsize ` {k \<in> set arrived. Suc p \<le> k}" by simp
    qed
    moreover have "{..<Suc p} \<subseteq> set arrived" using aw p(2) by (auto simp: awaiting_def lessThan_Suc)
    ultimately show ?thesis using aw by (simp add: awaiting_def btree_remove_ordered)
  qed
  ultimately show thesis by (intro that [of ?J]) simp_all
qed

text \<open>A call receives frames until the one that is due has come, and plays it.\<close>

lemma yield_awaited:
  assumes paced: "paced start fsize frames"
    and dec: "decode_frame ops channels dec0 (chunk_content (frames ! p)) False = (d, Inr pcm)"
    and p: "p < length frames" "p \<in> set arrived \<union> set coming"
    and order: "distinct (arrived @ coming)" "set (arrived @ coming) \<subseteq> {..<length frames}"
      "sorted_wrt (\<lambda>i j. i < j + w) (arrived @ coming)"
    and delay: "0 < w" "w * fsize \<le> unat delay"
    and J: "awaiting start fsize frames arrived p J" "fsize = unat (jb_frame_size_ms J)"
      "jb_playout_delay_ms J = delay" "jb_channels J = channels" "jb_decoder J = dec0"
  shows "\<exists>J' arrived' coming'.
     yield_pcm oc ops J (map (\<lambda>i. FrameReceived (frames ! i)) coming @ tail) =
       Done (J', map (\<lambda>i. FrameReceived (frames ! i)) coming' @ tail, Some (Inr (Some pcm))) \<and>
     arrived' @ coming' = arrived @ coming \<and> awaiting start fsize frames arrived' (Suc p) J' \<and>
     fsize = unat (jb_frame_size_ms J') \<and> jb_playout_delay_ms J' = delay \<and> jb_channels J' = channels \<and>
     jb_decoder J' = d"
  using p(2) order J
proof (induction coming arbitrary: arrived J)
  case Nil
  then have "p \<in> set arrived" "set arrived \<subseteq> {..<length frames}" by simp_all
  from awaiting_plays [OF paced Nil(6,5) p(1) this, of ops d pcm oc] dec Nil(7-9)
  obtain J' where "jitter_manage oc ops J = Done (J', Played (Inr pcm))"
    and "awaiting start fsize frames arrived (Suc p) J'" and "jb_decoder J' = d"
    and "jb_frame_size_ms J' = jb_frame_size_ms J" and "jb_playout_delay_ms J' = jb_playout_delay_ms J"
    and "jb_channels J' = jb_channels J" by metis
  with Nil show ?case
    by (intro exI [of _ J'] exI [of _ arrived] exI [of _ "[]"]) (simp add: yield_played)
next
  case (Cons i coming)
  have arrived: "set arrived \<subseteq> {..<length frames}" using Cons.prems(3) by simp
  show ?case
  proof (cases "p \<in> set arrived")
    case True
    from awaiting_plays [OF paced Cons.prems(6,5) p(1) True arrived, of ops d pcm oc] dec Cons.prems(7-9)
    obtain J' where "jitter_manage oc ops J = Done (J', Played (Inr pcm))"
      and "awaiting start fsize frames arrived (Suc p) J'" and "jb_decoder J' = d"
      and "jb_frame_size_ms J' = jb_frame_size_ms J" and "jb_playout_delay_ms J' = jb_playout_delay_ms J"
      and "jb_channels J' = jb_channels J" by metis
    with Cons.prems show ?thesis
      by (intro exI [of _ J'] exI [of _ arrived] exI [of _ "i # coming"]) (simp add: yield_played)
  next
    case False
    let ?J = "jitter_insert J (frames ! i)"
    have i: "i \<notin> set arrived" "i < length frames" using Cons.prems(2,3) by auto
    have p_coming: "p \<in> set (i # coming)" using Cons.prems(1) False by simp
    have near: "\<forall>k \<in> set arrived. k < p + w"
      using Cons.prems(4) p_coming by (auto simp: sorted_wrt_append)
    have manage: "jitter_manage oc ops J = Done (J, NeedsFrame)"
      using Cons.prems(7) delay
      by (intro awaiting_needs_frame [OF paced Cons.prems(6,5) less_imp_le [OF p(1)] False arrived near]) simp_all
    have same: "jb_frame_size_ms ?J = jb_frame_size_ms J" "jb_playout_delay_ms ?J = jb_playout_delay_ms J"
      "jb_channels ?J = jb_channels J" "jb_decoder ?J = jb_decoder J"
      by (simp_all add: jitter_insert_def Let_def)
    have "yield_pcm oc ops J (map (\<lambda>i. FrameReceived (frames ! i)) (i # coming) @ tail) =
        yield_pcm oc ops ?J (map (\<lambda>i. FrameReceived (frames ! i)) coming @ tail)"
      by (simp add: yield_receives [OF manage])
    moreover have "p \<in> set (arrived @ [i]) \<union> set coming" using p_coming by auto
    ultimately show ?thesis
      using Cons.IH [of "arrived @ [i]" ?J] Cons.prems(2-9) awaiting_insert [OF paced Cons.prems(5) i] same
      by simp
  qed
qed

text \<open>After the last frame the stream has to end before the call returns.\<close>

lemma yield_end:
  assumes paced: "paced start fsize frames" and size: "fsize = unat (jb_frame_size_ms J)"
    and aw: "awaiting start fsize frames arrived (length frames) J"
    and arrived: "set arrived \<subseteq> {..<length frames}"
    and delay: "0 < w" "w * fsize \<le> unat (jb_playout_delay_ms J)"
  shows "\<exists>J'. yield_pcm oc ops J (StreamEnded # events) = Done (J', events, Some (Inr None))"
proof -
  have "{i \<in> set arrived. length frames \<le> i} = {}" using arrived by auto
  then have "set (map fst (jb_buffer J)) \<subseteq> {}" using aw by (simp only: awaiting_def image_empty)
  then have empty: "jb_buffer J = []" by simp
  have "jitter_manage oc ops J = Done (J, NeedsFrame)"
    using arrived by (intro awaiting_needs_frame [OF paced size aw _ _ arrived _ delay]) auto
  moreover have "jitter_manage oc ops (J\<lparr> jb_is_eof := True \<rparr>) = Done (J\<lparr> jb_is_eof := True \<rparr>, Ended)"
    using aw empty by (simp add: awaiting_def jitter_manage_def)
  moreover have "jb_next_play_ts J \<noteq> None" using aw by (simp add: awaiting_def)
  ultimately show ?thesis by (metis yield_stream_ended yield_ended)
qed

lemma covered: "A \<subseteq> B \<Longrightarrow> B \<inter> C = {} \<Longrightarrow> B \<union> C = A \<Longrightarrow> C = {} \<and> B = A"
  by blast

lemma yield_session_awaited:
  assumes paced: "paced start fsize frames"
    and dec: "decode_all ops channels d (map chunk_content (drop p frames)) = Some (d', pcms)"
    and p: "p \<le> length frames"
    and order: "distinct (arrived @ coming)" "set (arrived @ coming) = {..<length frames}"
      "sorted_wrt (\<lambda>i j. i < j + w) (arrived @ coming)"
    and delay: "0 < w" "w * fsize \<le> unat delay"
    and J: "awaiting start fsize frames arrived p J" "fsize = unat (jb_frame_size_ms J)"
      "jb_playout_delay_ms J = delay" "jb_channels J = channels" "jb_decoder J = d"
  shows "yield_session oc ops (Suc (length frames - p)) J
       (map (\<lambda>i. FrameReceived (frames ! i)) coming @ [StreamEnded]) =
     Done (map (\<lambda>pcm. Some (Inr (Some pcm))) pcms @ [Some (Inr None)])"
  using dec p order J
proof (induction "length frames - p" arbitrary: p d arrived coming J pcms)
  case 0
  then have p: "p = length frames" by simp
  with 0(7) have "{..<length frames} \<subseteq> set arrived" by (simp add: awaiting_def)
  moreover have "set arrived \<inter> set coming = {}" "set arrived \<union> set coming = {..<length frames}"
    using 0(4,5) by simp_all
  ultimately have "set coming = {}" and arrived: "set arrived \<subseteq> {..<length frames}"
    using covered [of "{..<length frames}" "set arrived" "set coming"] by simp_all
  then have "coming = []" by simp
  moreover from 0(2) p have "pcms = []" by simp
  moreover have "w * fsize \<le> unat (jb_playout_delay_ms J)" using 0(9) delay(2) by simp
  from yield_end [OF paced 0(8) 0(7) [unfolded p] arrived delay(1) this, of oc ops "[]"]
  obtain J' where "yield_pcm oc ops J [StreamEnded] = Done (J', [], Some (Inr None))" by blast
  ultimately show ?case using p by simp
next
  case (Suc n)
  then have p: "p < length frames" by simp
  then have drop: "drop p frames = frames ! p # drop (Suc p) frames" by (simp add: Cons_nth_drop_Suc)
  with Suc.prems(1) obtain d1 pcm pcms1 where
    frame: "decode_frame ops channels d (chunk_content (frames ! p)) False = (d1, Inr pcm)"
    and rest: "decode_all ops channels d1 (map chunk_content (drop (Suc p) frames)) = Some (d', pcms1)"
    and pcms: "pcms = pcm # pcms1"
    by (auto split: prod.splits sum.splits)
  have "p \<in> set arrived \<union> set coming" "set (arrived @ coming) \<subseteq> {..<length frames}"
    using Suc.prems(4) p by auto
  from yield_awaited [OF paced frame p this(1) Suc.prems(3) this(2) Suc.prems(5) delay Suc.prems(6-10),
      of oc "[StreamEnded]"]
  obtain J' arrived' coming' where
    yield: "yield_pcm oc ops J (map (\<lambda>i. FrameReceived (frames ! i)) coming @ [StreamEnded]) =
       Done (J', map (\<lambda>i. FrameReceived (frames ! i)) coming' @ [StreamEnded], Some (Inr (Some pcm)))"
    and split: "arrived' @ coming' = arrived @ coming"
    and J': "awaiting start fsize frames arrived' (Suc p) J'" "fsize = unat (jb_frame_size_ms J')"
      "jb_playout_delay_ms J' = delay" "jb_channels J' = channels" "jb_decoder J' = d1"
    by blast
  have "yield_session oc ops (Suc (length frames - Suc p)) J'
       (map (\<lambda>i. FrameReceived (frames ! i)) coming' @ [StreamEnded]) =
     Done (map (\<lambda>pcm. Some (Inr (Some pcm))) pcms1 @ [Some (Inr None)])"
    using Suc.hyps(2) Suc.prems(3-5) p split
    by (intro Suc.hyps(1) [OF _ rest _ _ _ _ J']) simp_all
  moreover have "Suc (length frames - p) = Suc (Suc (length frames - Suc p))" using p by simp
  ultimately show ?case using yield pcms by simp
qed

text \<open>A whole stream, from a new buffer.\<close>

lemma jitter_in_order:
  assumes "jitter_new (Inr d) channels fsize delay = Inr J"
    and "paced start (unat fsize) frames"
    and "arrivals \<noteq> []" and "hd arrivals = 0" and "distinct arrivals" and "set arrivals = {..<length frames}"
    and "sorted_wrt (\<lambda>i j. i < j + w) arrivals"
    and "0 < w" and "w * unat fsize \<le> unat delay"
    and "decode_all ops channels d (map chunk_content frames) = Some (d', pcms)"
  shows "yield_session oc ops (Suc (length frames)) J
       (map (\<lambda>i. FrameReceived (frames ! i)) arrivals @ [StreamEnded]) =
     Done (map (\<lambda>pcm. Some (Inr (Some pcm))) pcms @ [Some (Inr None)])"
proof -
  obtain rest where arrivals: "arrivals = 0 # rest" using assms(3,4) by (cases arrivals) auto
  let ?J = "jitter_insert J (frames ! 0)" and ?events = "map (\<lambda>i. FrameReceived (frames ! i)) rest @ [StreamEnded]"
  have J: "J = \<lparr> jb_decoder = d, jb_buffer = [], jb_frame_size_ms = fsize, jb_playout_delay_ms = delay,
      jb_next_play_ts = None, jb_channels = channels, jb_is_eof = False \<rparr>"
    using assms(1) by (simp add: jitter_new_def)
  have pos: "0 < length frames" using assms(6) arrivals by auto
  then have ts: "timestamp_val (chunk_timestamp (frames ! 0)) = frame_ts start (unat fsize) 0"
    using assms(2) by (simp add: paced_def)
  have ins: "?J = J\<lparr> jb_next_play_ts := Some (frame_ts start (unat fsize) 0),
      jb_buffer := [(frame_ts start (unat fsize) 0, chunk_content (frames ! 0))] \<rparr>"
    by (simp add: J jitter_insert_def ts Let_def)
  have aw: "awaiting start (unat fsize) frames [0] 0 ?J"
  proof -
    have "frame_ts start (unat fsize) i = frame_ts start (unat fsize) 0 \<longleftrightarrow> i = 0" if "i < length frames" for i
      using frame_ts_inject [OF assms(2), of i 0] that by simp
    then show ?thesis using pos unfolding ins by (simp add: awaiting_def btree_ordered_def J)
  qed
  have order: "distinct ([0] @ rest)" "set ([0] @ rest) = {..<length frames}"
    "sorted_wrt (\<lambda>i j. i < j + w) ([0] @ rest)"
    using assms(5-7) by (simp_all add: arrivals)
  have dec: "decode_all ops channels d (map chunk_content (drop 0 frames)) = Some (d', pcms)"
    using assms(10) by simp
  have fields: "unat fsize = unat (jb_frame_size_ms ?J)" "jb_playout_delay_ms ?J = delay"
    "jb_channels ?J = channels" "jb_decoder ?J = d"
    unfolding ins by (simp_all add: J)
  have "yield_session oc ops (Suc (length frames - 0)) ?J ?events =
      Done (map (\<lambda>pcm. Some (Inr (Some pcm))) pcms @ [Some (Inr None)])"
    by (rule yield_session_awaited [OF assms(2) dec le0 order assms(8,9) aw fields])
  moreover have "jitter_manage oc ops J = Done (J, NeedsFrame)"
    by (simp add: jitter_manage_def J)
  then have "yield_pcm oc ops J (map (\<lambda>i. FrameReceived (frames ! i)) arrivals @ [StreamEnded]) =
      yield_pcm oc ops ?J ?events"
    by (simp add: arrivals yield_receives)
  ultimately show ?thesis by simp
qed

section \<open>Properties\<close>

text \<open>C14: Frames that arrive out of order are played in order: if no frame overtakes another by
  \<open>w\<close> or more positions, the first to arrive is the first of the stream, and the playout delay
  is at least \<open>w\<close> frame sizes, then the calls return every frame once, decoded in the order of
  the timestamps, without a concealed or skipped frame, and then the end.\<close>

theorem jitter_plays_in_order:
  assumes "jitter_new (Inr d) channels fsize delay = Inr J"
    and "paced start (unat fsize) frames"
    and "arrivals \<noteq> []" and "hd arrivals = 0" and "distinct arrivals" and "set arrivals = {..<length frames}"
    and "sorted_wrt (\<lambda>i j. i < j + w) arrivals"
    and "0 < w" and "w * unat fsize \<le> unat delay"
    and "decode_all ops channels d (map chunk_content frames) = Some (d', pcms)"
  shows "yield_session oc ops (Suc (length frames)) J
       (map (\<lambda>i. FrameReceived (frames ! i)) arrivals @ [StreamEnded]) =
     Done (map (\<lambda>pcm. Some (Inr (Some pcm))) pcms @ [Some (Inr None)])"
  using assms by (rule jitter_in_order)

text \<open>A decoder that returns one sample per input byte and counts the frames it has seen.\<close>

definition sample_opus :: "(nat, nat) opus_ops" where
  "sample_opus = \<lparr> decode = (\<lambda>d input pcm fec. (Suc d, Inr (map unat input @ drop (length input) pcm, length input))) \<rparr>"

definition sample_frame :: "nat \<Rightarrow> chunk" where
  "sample_frame i = \<lparr> chunk_timestamp = Timestamp (of_nat (100 + i * 20)), chunk_content = [of_nat i] \<rparr>"

lemma sample_decode:
  "decode_frame sample_opus 1 d (chunk_content (sample_frame i)) False = (Suc d, Inr [unat (of_nat i :: u8)])"
  by (simp add: decode_frame_def sample_opus_def sample_frame_def)

theorem jitter_plays_in_order_witness:
  "\<exists>J. jitter_new (Inr 0) 1 20 40 = Inr J \<and>
     yield_session True sample_opus (Suc 3) J
       (map (\<lambda>i. FrameReceived ([sample_frame 0, sample_frame 1, sample_frame 2] ! i)) [0, 2, 1] @ [StreamEnded]) =
     Done [Some (Inr (Some [0])), Some (Inr (Some [1])), Some (Inr (Some [2])), Some (Inr None)]"
proof -
  let ?frames = "[sample_frame 0, sample_frame 1, sample_frame 2]"
  obtain J :: "nat jitter_buffer" where J: "jitter_new (Inr 0) 1 20 40 = Inr J" by (simp add: jitter_new_def)
  have paced: "paced 100 (unat (20 :: u64)) ?frames"
    by (simp add: paced_def sample_frame_def frame_ts_def less_Suc_eq all_conj_distrib)
  have dec: "decode_all sample_opus 1 0 (map chunk_content ?frames) = Some (3, [[0], [1], [2]])"
    by (simp add: sample_decode [unfolded One_nat_def])
  have "yield_session True sample_opus (Suc (length ?frames)) J
       (map (\<lambda>i. FrameReceived (?frames ! i)) [0, 2, 1] @ [StreamEnded]) =
     Done (map (\<lambda>pcm. Some (Inr (Some pcm))) [[0], [1], [2]] @ [Some (Inr None)])"
    by (rule jitter_plays_in_order [OF J paced _ _ _ _ _ _ _ dec, where w = 2]) auto
  with J show ?thesis by (auto simp del: yield_session.simps simp add: numeral_3_eq_3)
qed

end
