(* ===== verification/Failed_Send.thy ===== *)
theory Failed_Send
  imports Reassembly
begin

text \<open>
  What the receiver makes of a \<open>send\<close> that failed halfway: the call returns before the sequence
  number is advanced, so the next content goes out under the number of the failed one, and the
  receiver keeps the fragments of both in one group.
\<close>

section \<open>A group that exists\<close>

lemma fragment_packet_sel:
  "pkt_stream_id (fragment_packet B sid seq ts frags i) = sid"
  "pkt_sequence_number (fragment_packet B sid seq ts frags i) = seq"
  "pkt_timestamp (fragment_packet B sid seq ts frags i) = ts"
  by (simp_all add: fragment_packet_def)

text \<open>The timestamp of a fragment only counts when it opens its group.\<close>

lemma receive_into_group:
  assumes B: "byte_buf B" and "pr_fragment_buffers r (seq_val seq) \<noteq> None"
  shows "receive_packet B r alive (fragment_packet B sid seq ts' frags i) =
     receive_packet B r alive (fragment_packet B sid seq ts frags i)"
proof -
  have "evict_oldest r (seq_val seq) = r" using assms(2) by (auto simp: evict_oldest_def)
  with assms(2) have "insert_fragment (evict_oldest r (seq_val seq)) (seq_val seq) (of_nat i) (of_nat (length frags)) ts' (frags ! i) =
      insert_fragment (evict_oldest r (seq_val seq)) (seq_val seq) (of_nat i) (of_nat (length frags)) ts (frags ! i)"
    by (auto simp: insert_fragment_def Let_def)
  then show ?thesis
    by (simp only: byte_buf.receive_fragment_packet [OF B] receive_fragment_def complete_group_def Let_def fragment_packet_sel)
qed

lemma receive_later_fragments:
  assumes B: "byte_buf B" and n: "length frags < 2 ^ 16" and i: "i < length frags" and "0 < i"
    and fresh: "pr_fragment_buffers r (seq_val seq) = None"
    and room: "map_len (pr_fragment_buffers r) < pr_max_fragment_groups r"
  shows "receive_all B (with_group r (seq_val seq) frags ts {..<i})
      (map (\<lambda>j. (alive, fragment_packet B sid seq ts' frags j)) [i ..< length frags]) =
     Done (r, route_decompressed r alive sid seq ts (decompress (pr_compression r) (concat frags)))"
  using i \<open>0 < i\<close>
proof (induction "length frags - i" arbitrary: i)
  case (Suc k)
  let ?r = "with_group r (seq_val seq) frags ts {..<i}"
  have "pr_fragment_buffers ?r (seq_val seq) \<noteq> None" using Suc.prems by (auto simp: with_group_def)
  note same = receive_into_group [OF B this, of alive sid ts' frags i ts]
  have sub: "{..<i} \<subseteq> {..<length frags}" "{..<Suc i} \<subseteq> {..<length frags}" using Suc.prems by auto
  have split: "[i ..< length frags] = i # [Suc i ..< length frags]" using Suc.prems(1) by (simp add: upt_conv_Cons)
  show ?case
  proof (cases "Suc i = length frags")
    case True
    then have "insert i {..<i} = {..<length frags}" by auto
    with byte_buf.receive_last [OF B sub(1) Suc.prems(1) n _ fresh room] same True split show ?thesis
      by (cases "route_decompressed r alive sid seq ts (decompress (pr_compression r) (concat frags))") simp
  next
    case False
    then have "{..<i} \<union> snd ` set [(alive, i)] \<noteq> {..<length frags}"
      using Suc.prems(1) by (auto simp: lessThan_Suc [symmetric])
    from byte_buf.receive_partial [OF B sub(1) _ this n fresh room, of ts sid] Suc.prems(1)
    have "receive_packet B ?r alive (fragment_packet B sid seq ts frags i) =
        Done (with_group r (seq_val seq) frags ts {..<Suc i}, [], False)"
      by (cases "receive_packet B ?r alive (fragment_packet B sid seq ts frags i)")
        (auto simp: lessThan_Suc split: if_splits)
    moreover have "k = length frags - Suc i" "Suc i < length frags" using Suc.hyps(2) Suc.prems(1) False by auto
    ultimately show ?thesis using Suc.hyps(1) [of "Suc i"] same split by simp
  qed
qed simp

section \<open>The datagrams of a failed call\<close>

lemma send_datagrams_prefix: "send_datagrams B tx i ps = (sent, r) \<Longrightarrow> \<exists>k. sent = map (serialize_packet B) (take k ps)"
proof (induction ps arbitrary: i sent)
  case (Cons p ps)
  show ?case
  proof (cases "tx i (serialize_packet B p)")
    case (Inl e)
    with Cons.prems show ?thesis by (intro exI [of _ 0]) simp
  next
    case (Inr u)
    with Cons.prems obtain rest where "send_datagrams B tx (Suc i) ps = (rest, r)" "sent = serialize_packet B p # rest"
      by (auto split: prod.splits)
    with Cons.IH obtain k where "sent = map (serialize_packet B) (take (Suc k) (p # ps))" by auto
    then show ?thesis by blast
  qed
qed simp

lemma failed_send:
  assumes "send B S tx s bank ts content = Done (Returned s' bank' sent (Inl e))"
  shows "s' = s" and "\<exists>packets k. build_packets B s ts (compress (ss_compression s) content) = Done packets \<and>
     sent = map (serialize_packet B) (take k packets)"
proof -
  from assms show "s' = s" by (cases rule: send_ReturnedE) auto
  from assms obtain packets where build: "build_packets B s ts (compress (ss_compression s) content) = Done packets"
    by (auto simp: send_def Let_def)
  with assms have "sent = [] \<or> (\<exists>r. send_datagrams B tx 0 packets = (sent, r))"
    by (auto simp: send_def Let_def split: credit_wait.splits prod.splits sum.splits)
  then show "\<exists>packets k. build_packets B s ts (compress (ss_compression s) content) = Done packets \<and>
     sent = map (serialize_packet B) (take k packets)"
    using build send_datagrams_prefix [of B tx 0 packets sent] by (metis list.map(1) take0)
qed

lemma send_fails_second:
  assumes "build_packets B s ts (compress (ss_compression s) content) = Done (p # q # ps)"
    and "take_credits S (length (p # q # ps)) bank = Granted bank'"
  shows "send B S (\<lambda>i _. if i = 0 then Inr () else Inl e) s bank ts content =
     Done (Returned s bank' [serialize_packet B p] (Inl (DatagramSendFailed e)))"
  using assms by (simp add: send_def Let_def del: take_credits.simps)

lemma fragments_of_send:
  assumes build: "build_packets B s ts (compress (ss_compression s) content) = Done packets"
    and m: "ss_max_datagram_size s = Some m" "needs_fragment (Some m) (compress (ss_compression s) content)" "25 < m"
    and frags: "frags = chunks (m - 25) (compress (ss_compression s) content)"
  shows "packets = map (fragment_packet B (ss_id s) (ss_sequence_counter s) ts frags) [0 ..< length frags]"
  using build_packets_fragment_packets [OF m, of B ts] build by (simp add: frags)

lemma fragment_packet_nth:
  "length frags = length frags' \<Longrightarrow> frags ! i = frags' ! i \<Longrightarrow>
   fragment_packet B sid seq ts frags i = fragment_packet B sid seq ts frags' i"
  by (simp add: fragment_packet_def)

section \<open>Properties\<close>

text \<open>C11: A call of \<open>send\<close> that fails after its first datagram leaves the sequence number to the
  next content: when that content has as many fragments and only its first datagram is lost,
  the receiver delivers a content nobody sent, the first fragment of the failed call followed by
  the other fragments of the next, under the failed call's timestamp.\<close>

theorem failed_send_mixes:
  assumes B: "byte_buf B"
    and failed: "send B S tx s bank ts1 content1 = Done (Returned s1 bank1 sent1 (Inl e))" "sent1 \<noteq> []"
    and retried: "send B S tx' s1 bank' ts2 content2 = Done (Returned s2 bank2 sent2 (Inr ()))" "length sent2 < 2 ^ 16"
    and m: "ss_max_datagram_size s = Some m" "25 < m"
      "needs_fragment (Some m) (compress (ss_compression s) content1)"
      "needs_fragment (Some m) (compress (ss_compression s) content2)"
    and frags: "frags1 = chunks (m - 25) (compress (ss_compression s) content1)"
      "frags2 = chunks (m - 25) (compress (ss_compression s) content2)" "length frags1 = length frags2"
    and fresh: "pr_fragment_buffers r (seq_val (ss_sequence_counter s)) = None"
    and room: "map_len (pr_fragment_buffers r) < pr_max_fragment_groups r" and two: "1 < length frags2"
  shows "\<exists>ps. map (serialize_packet B) ps = hd sent1 # tl sent2 \<and>
     receive_all B r (map (\<lambda>p. (\<lambda>_. True, p)) ps) =
       Done (r, route_decompressed r (\<lambda>_. True) (ss_id s) (ss_sequence_counter s) ts1
         (decompress (pr_compression r) (hd frags1 @ concat (tl frags2))))"
proof -
  let ?mix = "hd frags1 # tl frags2" and ?id = "ss_id s" and ?seq = "ss_sequence_counter s" and ?up = "\<lambda>_. True"
  let ?n = "length frags2"
  have mix: "length ?mix = ?n" "concat ?mix = hd frags1 @ concat (tl frags2)" using two by simp_all
  note s1 = failed_send(1) [OF failed(1)]
  obtain packets1 k where build1: "build_packets B s ts1 (compress (ss_compression s) content1) = Done packets1"
    and sent1: "sent1 = map (serialize_packet B) (take k packets1)"
    using failed_send(2) [OF failed(1)] by blast
  obtain packets2 where build2: "build_packets B s ts2 (compress (ss_compression s) content2) = Done packets2"
    and sent2: "sent2 = map (serialize_packet B) packets2"
    using retried(1) s1 by (cases rule: send_ReturnedE) auto
  have packets1: "packets1 = map (fragment_packet B ?id ?seq ts1 frags1) [0 ..< ?n]"
    using fragments_of_send [OF build1 m(1,3,2) frags(1)] frags(3) by simp
  have packets2: "packets2 = map (fragment_packet B ?id ?seq ts2 frags2) [0 ..< ?n]"
    by (rule fragments_of_send [OF build2 m(1,4,2) frags(2)])
  have n: "length ?mix < 2 ^ 16" using retried(2) sent2 packets2 mix(1) by simp
  have upt: "[0 ..< ?n] = 0 # [1 ..< ?n]" using two upt_conv_Cons [of 0 ?n] by (cases "frags2 = []") simp_all
  let ?first = "fragment_packet B ?id ?seq ts1 ?mix 0"
  let ?rest = "map (fragment_packet B ?id ?seq ts2 ?mix) [1 ..< ?n]"
  have "frags1 \<noteq> []" using two frags(3) by auto
  then have first: "fragment_packet B ?id ?seq ts1 frags1 0 = ?first"
    using frags(3) mix(1) by (intro fragment_packet_nth) (simp_all add: hd_conv_nth)
  obtain k' where k: "k = Suc k'" using failed(2) sent1 by (cases k) simp_all
  have "hd sent1 = serialize_packet B ?first"
    by (simp only: sent1 packets1 upt k list.map take_Suc_Cons list.sel first)
  moreover have "fragment_packet B ?id ?seq ts2 frags2 i = fragment_packet B ?id ?seq ts2 ?mix i" if "i \<in> set [1 ..< ?n]" for i
  proof (rule fragment_packet_nth)
    from that have "1 \<le> i" by (simp only: set_upt atLeastLessThan_iff)
    then obtain j where "i = Suc j" by (cases i) simp_all
    with two show "frags2 ! i = ?mix ! i" by (cases frags2) auto
  qed (use mix(1) in simp_all)
  then have "tl sent2 = map (serialize_packet B) ?rest" by (simp add: sent2 packets2 upt)
  ultimately have wire: "map (serialize_packet B) (?first # ?rest) = hd sent1 # tl sent2" by simp
  have "{} \<union> snd ` set [(?up, 0)] \<noteq> {..<length ?mix}"
  proof
    assume "{} \<union> snd ` set [(?up, 0)] = {..<length ?mix}"
    then have "card {..<length ?mix} = card {0 :: nat}" by simp
    then show False using two mix(1) by simp
  qed
  from byte_buf.receive_partial [OF B _ _ this n fresh room, of ts1 ?id]
  have "receive_all B r [(?up, ?first)] = Done (with_group r (seq_val ?seq) ?mix ts1 {..<1}, [], False)"
    by (simp add: with_group_def lessThan_Suc)
  note opened = receive_all_append [OF this, of "map (\<lambda>j. (?up, fragment_packet B ?id ?seq ts2 ?mix j)) [1 ..< length ?mix]"]
  obtain sent stop where
    route: "route_decompressed r ?up ?id ?seq ts1 (decompress (pr_compression r) (concat ?mix)) = (sent, stop)"
    by fastforce
  have "1 < length ?mix" using two by (simp only: mix(1))
  from receive_later_fragments [OF B n this _ fresh room, of ts1 ?up ?id ts2]
  have later: "receive_all B (with_group r (seq_val ?seq) ?mix ts1 {..<1})
      (map (\<lambda>j. (?up, fragment_packet B ?id ?seq ts2 ?mix j)) [1 ..< length ?mix]) = Done (r, sent, stop)"
    unfolding route by simp
  have "map (\<lambda>p. (?up, p)) (?first # ?rest) =
      [(?up, ?first)] @ map (\<lambda>j. (?up, fragment_packet B ?id ?seq ts2 ?mix j)) [1 ..< length ?mix]"
    unfolding mix(1) by simp
  note arrivals = arg_cong [OF this, of "receive_all B r"]
  have "receive_all B r (map (\<lambda>p. (?up, p)) (?first # ?rest)) = Done (r, route_decompressed r ?up ?id ?seq ts1
       (decompress (pr_compression r) (concat ?mix)))"
    using arrivals unfolding opened later route by simp
  then show ?thesis using wire mix(2) by (intro exI [of _ "?first # ?rest"]) (simp only:)
qed

theorem failed_send_mixes_witness:
  "\<exists>ps. receive_all be_ops (packet_receiver_new 1 NoCompression 4) (map (\<lambda>p. (\<lambda>_. True, p)) ps) =
     Done (packet_receiver_new 1 NoCompression 4,
       [(0, \<lparr> pkt_stream_id = ManiStreamId 7, pkt_sequence_number = SequenceNumber 0,
                pkt_timestamp = Timestamp 1, pkt_content = [1, 2, 2, 2, 2, 2] \<rparr>)], False)"
proof -
  let ?s = "plain_stream (Some 26)" and ?bank = "\<lparr> bank_sem = (20, False) \<rparr> :: (nat \<times> bool) backpressure_bank"
  let ?r = "packet_receiver_new 1 NoCompression 4"
  have chunks: "chunks (26 - 25) (compress (ss_compression ?s) [x, y, z, u, v, w]) = [[x], [y], [z], [u], [v], [w]]" for x y z u v w
    by (simp add: compress_plain_stream)
  have m: "ss_max_datagram_size ?s = Some 26" by (simp add: plain_stream_def send_stream_new_def)
  have frag: "needs_fragment (Some 26) (compress (ss_compression ?s) [x, y, z, u, v, w])" for x y z u v w
    by (simp add: compress_plain_stream needs_fragment_def PACKET_WIRE_HEADER_SIZE_def SINGLE_CONTENT_OVERHEAD_def)
  have six: "length [[x], [y], [z], [u], [v], [w]] = 6" for x y z u v w :: u8 by simp
  have build: "build_packets be_ops ?s ts (compress (ss_compression ?s) [x, y, z, u, v, w]) =
      Done (map (fragment_packet be_ops (ss_id ?s) (ss_sequence_counter ?s) ts [[x], [y], [z], [u], [v], [w]]) [0 ..< 6])" for ts x y z u v w
    using build_packets_fragment_packets [OF m frag, of be_ops ts x y z u v w] unfolding chunks six by simp
  have bank: "\<not> counting.shut ?bank" "6 \<le> counting.credits ?bank"
    by (simp_all add: counting.shut_def counting.credits_def)
  then obtain bank1 where "take_credits counting_ops 6 ?bank = Granted bank1"
    using counting.take_credits_enough by blast
  note granted = this
  let ?f = "fragment_packet be_ops (ss_id ?s) (ss_sequence_counter ?s) (Timestamp 1) [[1], [1], [1], [1], [1], [1]]"
  have "build_packets be_ops ?s (Timestamp 1) (compress (ss_compression ?s) [1, 1, 1, 1, 1, 1]) =
      Done (?f 0 # ?f 1 # map ?f [2 ..< 6])"
    using build [of "Timestamp 1" 1 1 1 1 1 1] by (simp add: eval_nat_numeral)
  from send_fails_second [OF this, of counting_ops ?bank bank1 "''e''"] granted
  have one: "send be_ops counting_ops (\<lambda>i _. if i = 0 then Inr () else Inl ''e'') ?s ?bank (Timestamp 1)
      [1, 1, 1, 1, 1, 1] = Done (Returned ?s bank1 [serialize_packet be_ops (?f 0)] (Inl (DatagramSendFailed ''e'')))"
    and sent: "[serialize_packet be_ops (?f 0)] \<noteq> []"
    by (simp_all add: eval_nat_numeral del: take_credits.simps)
  obtain s2 bank2 where two: "send be_ops counting_ops (\<lambda>_ _. Inr ()) ?s ?bank (Timestamp 2) [2, 2, 2, 2, 2, 2] =
      Done (Returned s2 bank2 (map (serialize_packet be_ops)
        (map (fragment_packet be_ops (ss_id ?s) (ss_sequence_counter ?s) (Timestamp 2) [[2], [2], [2], [2], [2], [2]]) [0 ..< 6])) (Inr ()))"
    using counting.send_succeeds [OF build bank(1), where tx = "\<lambda>_ _. Inr ()"] bank(2) by (metis length_map length_upt minus_nat.diff_0)
  have r: "pr_fragment_buffers ?r (seq_val (ss_sequence_counter ?s)) = None"
    "map_len (pr_fragment_buffers ?r) < pr_max_fragment_groups ?r"
    by (simp_all add: packet_receiver_new_def)
  have counts: "length (map (serialize_packet be_ops) (map f [0 ..< 6])) < 2 ^ 16" for f by simp
  have sizes: "(25 :: nat) < 26" "length [[1], [1], [1], [1], [1], [1 :: u8]] = length [[2], [2], [2], [2], [2], [2 :: u8]]"
    "1 < length [[2], [2], [2], [2], [2], [2 :: u8]]"
    by simp_all
  from failed_send_mixes [OF byte_buf_be_ops one sent two counts m sizes(1) frag frag chunks [symmetric] chunks [symmetric]
      sizes(2) r sizes(3)]
  obtain ps where "receive_all be_ops ?r (map (\<lambda>p. (\<lambda>_. True, p)) ps) =
      Done (?r, route_decompressed ?r (\<lambda>_. True) (ss_id ?s) (ss_sequence_counter ?s) (Timestamp 1)
        (decompress (pr_compression ?r) (hd [[1], [1], [1], [1], [1], [1]] @ concat (tl [[2], [2], [2], [2], [2], [2]]))))"
    by blast
  moreover have "decompress (pr_compression ?r) data = data" for data
    by (simp add: packet_receiver_new_def NoCompression_def)
  moreover have "ss_id ?s = ManiStreamId 7" "ss_sequence_counter ?s = SequenceNumber 0" "pr_senders ?r = 1"
    by (simp_all add: plain_stream_def send_stream_new_def packet_receiver_new_def)
  ultimately have "receive_all be_ops ?r (map (\<lambda>p. (\<lambda>_. True, p)) ps) =
      Done (?r, [(0, \<lparr> pkt_stream_id = ManiStreamId 7, pkt_sequence_number = SequenceNumber 0,
                pkt_timestamp = Timestamp 1, pkt_content = [1, 2, 2, 2, 2, 2] \<rparr>)], False)"
    by (simp add: route_decompressed_eq)
  then show ?thesis by blast
qed

end
