(* ===== verification/Endpoint.thy ===== *)
theory Endpoint
  imports Connection
begin

text \<open>
  Binding the endpoints of \<^verbatim>\<open>src/src/connection/api.rs\<close>: what the code asks of \<open>rustls\<close> and
  \<open>quinn\<close>, in which order, and the error it makes of every refusal.
\<close>

section \<open>The libraries\<close>

text \<open>
  The libraries are a parameter.  \<open>'l\<close> is the type of everything they hand out: root stores,
  TLS and QUIC configurations, timeouts and endpoints; their errors are the formatted strings.
  Setting the ALPN protocols of a TLS configuration is \<open>with_alpn\<close>.
\<close>

record ('cert, 'key, 'addr, 'l) quic_libs =
  with_single_cert :: "'cert list \<Rightarrow> 'key \<Rightarrow> string + 'l"
  empty_root_store :: 'l
  root_store_add :: "'l \<Rightarrow> 'cert \<Rightarrow> string + 'l"
  with_root_certificates :: "'l \<Rightarrow> 'l"
  with_alpn :: "'l \<Rightarrow> string list \<Rightarrow> 'l"
  quic_server_crypto :: "'l \<Rightarrow> string + 'l"
  quic_client_crypto :: "'l \<Rightarrow> string + 'l"
  server_with_crypto :: "'l \<Rightarrow> 'l"
  client_config_of :: "'l \<Rightarrow> 'l"
  transport_default :: 'l
  max_idle_timeout :: "'l \<Rightarrow> 'l option \<Rightarrow> 'l"
  idle_timeout_try_from :: "duration \<Rightarrow> 'l option"
  idle_timeout_of_u32 :: "u32 \<Rightarrow> 'l"
  transport_config :: "'l \<Rightarrow> 'l \<Rightarrow> 'l"
  endpoint_server :: "'l \<Rightarrow> 'addr \<Rightarrow> string + 'l"
  endpoint_client :: "'addr \<Rightarrow> string + 'l"
  set_default_client_config :: "'l \<Rightarrow> 'l \<Rightarrow> 'l"
  show_addr :: "'addr \<Rightarrow> string"
  endpoint_close :: "'l \<Rightarrow> u32 \<Rightarrow> bytes \<Rightarrow> 'l"

text \<open>\<open>Duration * u32\<close> panics when the seconds overflow 64 bits.\<close>

definition duration_mul :: "duration \<Rightarrow> nat \<Rightarrow> duration outcome" where
  "duration_mul d k = (if d * k < 2 ^ 64 * 10 ^ 9 then Done (d * k) else Panic)"

section \<open>Binding\<close>

text \<open>The configurations with the fields that only binding uses.\<close>

record ('cert, 'key, 'addr) server_setup = server_config +
  sc_bind_address :: 'addr
  sc_cert_chain :: "'cert list"
  sc_private_key :: 'key

record ('cert, 'addr) client_setup = client_config +
  cc_bind_address :: 'addr
  cc_root_certificates :: "'cert list"

record ('l, 'cfg) protofish_endpoint =
  pe_endpoint :: 'l
  pe_config :: 'cfg

text \<open>The idle timeout of QUIC is three times the keepalive timeout, or the greatest possible.\<close>

definition idle_transport :: "('cert, 'key, 'addr, 'l) quic_libs \<Rightarrow> protofish_config \<Rightarrow> 'l outcome" where
  "idle_transport Q cfg =
     bind_outcome (duration_mul (keepalive_timeout cfg) 3) (\<lambda>quic_idle_timeout. Done
       (max_idle_timeout Q (transport_default Q)
         (Some (case idle_timeout_try_from Q quic_idle_timeout of
                  Some timeout \<Rightarrow> timeout
                | None \<Rightarrow> idle_timeout_of_u32 Q (- 1)))))"

definition server_bind ::
  "('cert, 'key, 'addr, 'l) quic_libs \<Rightarrow> ('cert, 'key, 'addr) server_setup \<Rightarrow>
   (protofish_connection_error + ('l, ('cert, 'key, 'addr) server_setup) protofish_endpoint) outcome" where
  "server_bind Q cfg =
     (case
        and_then (map_err (\<lambda>e. EndpointError (''Failed to load server TLS certificates: '' @ e))
            (with_single_cert Q (sc_cert_chain cfg) (sc_private_key cfg))) (\<lambda>server_crypto.
        map_err (\<lambda>e. EndpointError (''Failed to build QUIC server crypto config: '' @ e))
            (quic_server_crypto Q (with_alpn Q server_crypto [''protofish2''])))
      of
        Inl e \<Rightarrow> Done (Inl e)
      | Inr crypto \<Rightarrow>
          (let server_config = server_with_crypto Q crypto in
           bind_outcome (idle_transport Q (sc_protofish_config cfg)) (\<lambda>transport. Done
             (and_then
               (map_err (\<lambda>e. EndpointError (''Failed to bind server endpoint to '' @
                    show_addr Q (sc_bind_address cfg) @ '': '' @ e))
                 (endpoint_server Q (transport_config Q server_config transport) (sc_bind_address cfg)))
               (\<lambda>endpoint. Inr \<lparr> pe_endpoint = endpoint, pe_config = cfg \<rparr>)))))"

fun add_root_certificates ::
  "('cert, 'key, 'addr, 'l) quic_libs \<Rightarrow> 'l \<Rightarrow> 'cert list \<Rightarrow> protofish_connection_error + 'l" where
  "add_root_certificates Q root_store [] = Inr root_store"
| "add_root_certificates Q root_store (cert # certs) =
     and_then (map_err (\<lambda>e. EndpointError (''Failed to load root certificate: '' @ e)) (root_store_add Q root_store cert))
       (\<lambda>root_store. add_root_certificates Q root_store certs)"

definition client_bind ::
  "('cert, 'key, 'addr, 'l) quic_libs \<Rightarrow> ('cert, 'addr) client_setup \<Rightarrow>
   (protofish_connection_error + ('l, ('cert, 'addr) client_setup) protofish_endpoint) outcome" where
  "client_bind Q cfg =
     (case
        and_then (add_root_certificates Q (empty_root_store Q) (cc_root_certificates cfg)) (\<lambda>root_store.
        map_err (\<lambda>e. EndpointError (''Failed to build QUIC client crypto config: '' @ e))
            (quic_client_crypto Q (with_alpn Q (with_root_certificates Q root_store) [''protofish2''])))
      of
        Inl e \<Rightarrow> Done (Inl e)
      | Inr crypto \<Rightarrow>
          (let client_config = client_config_of Q crypto in
           bind_outcome (idle_transport Q (cc_protofish_config cfg)) (\<lambda>transport.
             let client_config = transport_config Q client_config transport in
             Done
               (and_then
                 (map_err (\<lambda>e. EndpointError (''Failed to bind client endpoint to '' @
                      show_addr Q (cc_bind_address cfg) @ '': '' @ e))
                   (endpoint_client Q (cc_bind_address cfg)))
                 (\<lambda>endpoint. Inr \<lparr> pe_endpoint = set_default_client_config Q endpoint client_config,
                     pe_config = cfg \<rparr>)))))"

text \<open>\<open>ProtofishServer::accept\<close> pairs an incoming connection with the configuration.\<close>

record ('l, 'cfg) incoming_connection =
  ic_incoming :: 'l
  ic_server_config :: 'cfg

definition server_accept ::
  "('l, 'cfg) protofish_endpoint \<Rightarrow> 'i option \<Rightarrow> ('i, 'cfg) incoming_connection option" where
  "server_accept server incoming =
     map_option (\<lambda>incoming. \<lparr> ic_incoming = incoming, ic_server_config = pe_config server \<rparr>) incoming"

text \<open>Closing hands the code and the reason to the endpoint, or 0 and no reason to the connection.\<close>

definition server_close ::
  "('cert, 'key, 'addr, 'l) quic_libs \<Rightarrow> ('l, 'cfg) protofish_endpoint \<Rightarrow> u32 \<Rightarrow> bytes \<Rightarrow> ('l, 'cfg) protofish_endpoint" where
  "server_close Q server code reason =
     server\<lparr> pe_endpoint := endpoint_close Q (pe_endpoint server) code reason \<rparr>"

definition connection_close ::
  "('q \<Rightarrow> u32 \<Rightarrow> bytes \<Rightarrow> 'q) \<Rightarrow> ('q, 'c) protofish_connection \<Rightarrow> ('q, 'c) protofish_connection" where
  "connection_close close conn = conn\<lparr> pc_quic_conn := close (pc_quic_conn conn) 0 [] \<rparr>"

section \<open>Errors\<close>

text \<open>As documented, binding only fails with \<open>EndpointError\<close>s.\<close>

lemma add_root_certificates_error:
  "add_root_certificates Q root_store certs = Inl e \<Longrightarrow> \<exists>m. e = EndpointError m"
proof (induction certs arbitrary: root_store)
  case (Cons cert certs)
  then show ?case by (cases "root_store_add Q root_store cert") auto
qed simp

lemma endpoint_error_cases:
  "and_then r k = Inl e \<Longrightarrow> (\<exists>a. r = Inr a \<and> k a = Inl e) \<or> r = Inl e"
  "map_err g x = Inl e \<Longrightarrow> \<exists>e'. e = g e'"
  by (cases r; simp) (cases x; auto)

lemma server_bind_error: "server_bind Q cfg = Done (Inl e) \<Longrightarrow> \<exists>m. e = EndpointError m"
  by (auto simp: server_bind_def Let_def split: sum.splits dest!: endpoint_error_cases)

lemma client_bind_error: "client_bind Q cfg = Done (Inl e) \<Longrightarrow> \<exists>m. e = EndpointError m"
  by (auto simp: client_bind_def Let_def split: sum.splits dest!: endpoint_error_cases add_root_certificates_error)

text \<open>The default configuration does not overflow.\<close>

lemma idle_transport_default:
  "idle_transport Q protofish_config_default = Done (max_idle_timeout Q (transport_default Q)
     (Some (case idle_timeout_try_from Q (from_secs 27) of
              Some timeout \<Rightarrow> timeout | None \<Rightarrow> idle_timeout_of_u32 Q (- 1))))"
  by (simp add: idle_transport_def duration_mul_def protofish_config_default_def from_secs_def)

end
