(* ===== verification/Flow_Control.thy ===== *)
theory Flow_Control
  imports Mani_Stream
begin

text \<open>
  Flow control across the two peers: \<open>send\<close> takes credits from the bank it shares with the
  sender's task, the receiver's coordinator returns them as the application drains its streams,
  and they travel back as messages that the sender's task pays into the bank.
\<close>

section \<open>Runs\<close>

text \<open>
  Completed sends and operations of the coordinator in any order; a command of the coordinator
  is written by the receiver's task and read by the sender's.  The run holds the sender's task,
  the coordinator's operations and the number of datagrams of every send.
\<close>

inductive flow_run ::
  "buf_ops \<Rightarrow> compression_libs \<Rightarrow> 's semaphore_ops \<Rightarrow> 's stream_task \<Rightarrow> nat \<Rightarrow> bool \<Rightarrow>
   's stream_task \<Rightarrow> coord_event list \<Rightarrow> nat list \<Rightarrow> bool"
  for B L S t0 bulk dual where
  idle: "flow_run B L S t0 bulk dual t0 [] []"
| content_sent: "flow_run B L S t0 bulk dual t es spent \<Longrightarrow>
    send B S tx s (st_backpressure_bank t) ts content = Done (Returned s' bank sent (Inr ())) \<Longrightarrow>
    flow_run B L S t0 bulk dual (t\<lparr> st_backpressure_bank := bank \<rparr>) es (spent @ [length sent])"
| credits_withheld: "flow_run B L S t0 bulk dual t es spent \<Longrightarrow>
    coord_op (acc_coord (account_run bulk dual es)) e = (c, None) \<Longrightarrow>
    flow_run B L S t0 bulk dual t (es @ [e]) spent"
| credits_returned: "flow_run B L S t0 bulk dual t es spent \<Longrightarrow>
    coord_op (acc_coord (account_run bulk dual es)) e = (c, Some n) \<Longrightarrow>
    handle_sender_command B env (u :: 's stream_task) (UpdateCredits n) = (u', [Wrote m], True) \<Longrightarrow>
    handle_message B L S env' t (read_frame B (received (serialize_mani_message B m))) = Done (t', effects, go) \<Longrightarrow>
    flow_run B L S t0 bulk dual t' (es @ [e]) spent"

section \<open>One step\<close>

context semaphore
begin

lemma take_credits_granted: "take_credits S n b = Granted b' \<Longrightarrow> credits b' + n = credits b"
proof (induction n arbitrary: b)
  case (Suc n)
  have open_bank: "\<not> shut b" and some: "0 < credits b"
    using Suc.prems wait_for_credit_shut [of b] wait_for_credit_waits [of b] by (cases "shut b"; cases "credits b"; auto)+
  obtain b1 where "wait_for_credit S b = Some (True, b1)" "credits b1 = credits b - 1"
    using wait_for_credit_takes [OF open_bank some] by blast
  with Suc some show ?case by fastforce
qed simp

lemma send_spends:
  assumes "send B S tx s bank ts content = Done (Returned s' bank' sent (Inr ()))"
  shows "credits bank' + length sent = credits bank"
proof -
  from assms obtain packets where build: "build_packets B s ts (compress (ss_compression s) content) = Done packets"
    and sent: "sent = map (serialize_packet B) packets"
    by (cases rule: send_ReturnedE) auto
  then have "take_credits S (length packets) bank = Granted bank'"
    using assms by (auto simp: send_def Let_def split: credit_wait.splits prod.splits sum.splits)
  then show ?thesis using take_credits_granted sent by fastforce
qed

lemma increase_credits_Done: "increase_credits S b n = Done b' \<Longrightarrow> credits b' = credits b + n"
  using add [of "bank_sem b" n] add_panics [of "bank_sem b" n]
  by (cases "available (bank_sem b) + n \<le> max_permits") (auto simp: step_defs credits_def)

lemma returned_credits_paid:
  assumes B: "byte_buf B" and n: "n < 2 ^ 32"
    and command: "handle_sender_command B env u (UpdateCredits n) = (u', [Wrote m], True)"
    and message: "handle_message B L S env' t (read_frame B (received (serialize_mani_message B m))) = Done (t', es, go)"
  shows "credits (st_backpressure_bank t') = credits (st_backpressure_bank t) + n"
proof -
  have m: "m = TransferCreditsUpdate \<lparr> additional_credits = n \<rparr>"
    using command
    by (cases rule: write_or_stop_cases [of B env "TransferCreditsUpdate \<lparr> additional_credits = n \<rparr>"])
      (auto simp: handle_sender_command_def)
  have "parse_mani_message B (serialize_mani_message B m) = Inr m"
    using byte_buf.parse_serialize [OF B, of m] n by (simp add: m)
  then have "read_frame B (received (serialize_mani_message B m)) = Some m" by (simp add: read_frame_def)
  with message obtain bank where "increase_credits S (st_backpressure_bank t) n = Done bank"
    and "t' = t\<lparr> st_backpressure_bank := bank \<rparr>"
    by (auto simp: handle_message_def m)
  then show ?thesis using increase_credits_Done by simp
qed

text \<open>Credits are conserved.\<close>

lemma flow_conserves:
  assumes "flow_run B L S t0 bulk dual t es spent" and "byte_buf B" and "acc_emitted (account_run bulk dual es) < 2 ^ 32"
  shows "credits (st_backpressure_bank t) + sum_list spent =
     credits (st_backpressure_bank t0) + acc_emitted (account_run bulk dual es)"
  using assms
proof (induction rule: flow_run.induct)
  case idle
  show ?case by (simp add: account_run_def account_new_def)
next
  case (content_sent t es spent tx s ts content s' bank sent)
  then show ?case using send_spends [OF content_sent.hyps(2)] by simp
next
  case (credits_withheld t es spent e c)
  then have "acc_emitted (account_run bulk dual (es @ [e])) = acc_emitted (account_run bulk dual es)"
    by (simp add: account_run_def account_step_def)
  with credits_withheld show ?case by simp
next
  case (credits_returned t es spent e c n env u u' m env' t' effects go)
  then have emitted: "acc_emitted (account_run bulk dual (es @ [e])) = acc_emitted (account_run bulk dual es) + n"
    by (simp add: account_run_def account_step_def)
  then have "n < 2 ^ 32" and "acc_emitted (account_run bulk dual es) < 2 ^ 32"
    using credits_returned.prems(2) by simp_all
  with returned_credits_paid [OF credits_returned.prems(1) _ credits_returned.hyps(3,4)] credits_returned.IH
    credits_returned.prems(1) emitted
  show ?case by simp
qed

end

section \<open>A run\<close>

text \<open>One content sent, drained by both streams and its credit returned, for the concrete instances.\<close>

lemma drained_flow_run:
  assumes send: "send be_ops counting_ops tx s (st_backpressure_bank (plain_task UnknownRole)) ts content =
      Done (Returned s' bank sent (Inr ()))"
  shows "\<exists>t. flow_run be_ops stored_libs counting_ops (plain_task UnknownRole) 1 True t
      [RecordReliable 1, RecordUnreliable 1] [length sent]"
proof -
  let ?t0 = "plain_task UnknownRole" and ?run = "flow_run be_ops stored_libs counting_ops (plain_task UnknownRole) 1 True"
  have "counting.credits bank + length sent = counting.credits (st_backpressure_bank ?t0)"
    by (rule counting.send_spends [OF send])
  then have "counting.credits bank \<le> 5" by (simp add: plain_task_def counting.credits_def)
  then obtain bank' where paid: "increase_credits counting_ops bank 1 = Done bank'"
    using counting.increase_credits_adds [of bank 1] by auto
  let ?t1 = "?t0\<lparr> st_backpressure_bank := bank \<rparr>"
  have "?run ?t1 [] [length sent]" using flow_run.content_sent [OF flow_run.idle send] by simp
  moreover have "\<exists>c. coord_op (acc_coord (account_run 1 True [])) (RecordReliable 1) = (c, None)"
    by (simp add: account_run_def account_new_def credit_coordinator_new_def record_reliable_def emit_with_def
        maybe_emit_def effective_count_def saturating_add64_def)
  ultimately have withheld: "?run ?t1 [RecordReliable 1] [length sent]" using flow_run.credits_withheld by fastforce
  let ?m = "TransferCreditsUpdate \<lparr> additional_credits = 1 \<rparr>"
  have "\<exists>c. coord_op (acc_coord (account_run 1 True [RecordReliable 1])) (RecordUnreliable 1) = (c, Some 1)"
    by (simp add: account_run_def account_new_def account_step_def credit_coordinator_new_def record_reliable_def
        record_unreliable_def emit_with_def maybe_emit_def effective_count_def saturating_add64_def Let_def)
  moreover have "handle_sender_command be_ops open_env ?t0 (UpdateCredits 1) = (?t0, [Wrote ?m], True)"
    by (simp add: handle_sender_command_def write_or_stop_def write_effect_ok)
  moreover have "read_frame be_ops (received (serialize_mani_message be_ops ?m)) = Some ?m"
    using be.parse_serialize [of ?m] by (simp add: read_frame_def)
  then have "handle_message be_ops stored_libs counting_ops open_env ?t1
      (read_frame be_ops (received (serialize_mani_message be_ops ?m))) =
      Done (?t1\<lparr> st_backpressure_bank := bank' \<rparr>, [], True)"
    by (simp add: handle_message_def paid [simplified])
  ultimately have "?run (?t1\<lparr> st_backpressure_bank := bank' \<rparr>) ([RecordReliable 1] @ [RecordUnreliable 1]) [length sent]"
    using flow_run.credits_returned [OF withheld] by blast
  then show ?thesis by auto
qed

lemma plain_flow_run:
  "\<exists>t. flow_run be_ops stored_libs counting_ops (plain_task UnknownRole) 1 True t [RecordReliable 1, RecordUnreliable 1] [1]"
proof -
  have whole: "\<not> needs_fragment None [9]" by (simp add: needs_fragment_def)
  obtain s' bank sent where send: "send be_ops counting_ops (\<lambda>_ _. Inr ()) (plain_stream None)
      (st_backpressure_bank (plain_task UnknownRole)) (Timestamp 1) [9] = Done (Returned s' bank sent (Inr ()))"
    using send_plain_stream [OF whole] by (auto simp: plain_task_def)
  then have "length sent = 1"
    by (cases rule: send_ReturnedE) (auto simp: compress_plain_stream build_plain_stream whole)
  with drained_flow_run [OF send] show ?thesis by simp
qed

text \<open>Eight bytes in datagrams of at most 28 take three fragments.\<close>

lemma fragmented_flow_run:
  "\<exists>t. flow_run be_ops stored_libs counting_ops (plain_task UnknownRole) 1 True t [RecordReliable 1, RecordUnreliable 1] [3]"
proof -
  let ?s = "plain_stream (Some 28)" and ?data = "[1, 2, 3, 4, 5, 6, 7, 8] :: bytes"
  have m: "ss_max_datagram_size ?s = Some 28" by (simp add: plain_stream_def send_stream_new_def)
  have "needs_fragment (Some 28) (compress (ss_compression ?s) ?data)"
    by (simp add: compress_plain_stream needs_fragment_def PACKET_WIRE_HEADER_SIZE_def SINGLE_CONTENT_OVERHEAD_def)
  then obtain packets where build: "build_packets be_ops ?s (Timestamp 1) (compress (ss_compression ?s) ?data) = Done packets"
    and "length packets = length (chunks (28 - 25) (compress (ss_compression ?s) ?data))"
    using build_packets_fragment_packets [OF m, of _ be_ops "Timestamp 1"] by auto
  then have three: "length packets = 3" by (simp add: compress_plain_stream length_chunks)
  have "\<not> counting.shut (st_backpressure_bank (plain_task UnknownRole))"
    "length packets \<le> counting.credits (st_backpressure_bank (plain_task UnknownRole))"
    by (simp_all add: three plain_task_def counting.shut_def counting.credits_def)
  then obtain s' bank where send: "send be_ops counting_ops (\<lambda>_ _. Inr ()) ?s
      (st_backpressure_bank (plain_task UnknownRole)) (Timestamp 1) ?data =
      Done (Returned s' bank (map (serialize_packet be_ops) packets) (Inr ()))"
    using counting.send_succeeds [OF build, where tx = "\<lambda>_ _. Inr ()"] by blast
  with drained_flow_run [OF send] three show ?thesis by simp
qed

lemma plain_drained:
  "acc_reliable (account_run 1 True [RecordReliable 1, RecordUnreliable 1]) = 1"
  "acc_unreliable (account_run 1 True [RecordReliable 1, RecordUnreliable 1]) = 1"
  by (simp_all add: account_run_def account_new_def account_step_def split: prod.splits)

section \<open>Properties\<close>

text \<open>C5: Flow control does not stall a transfer whose contents fit single datagrams: when both
  peers have handled everything, that is, the application has drained every content from each
  stream in use, the sender holds all its initial credits but less than a batch, and so at least
  one if a batch does not exceed the initial credits.\<close>

theorem flow_control_keeps_going:
  assumes sem: "semaphore S avail is_closed max_permits" and B: "byte_buf B"
    and run: "flow_run B L S t0 bulk dual t es spent" and single: "set spent \<subseteq> {1}"
    and still_open: "ReliableClosed \<notin> set es" "UnreliableClosed \<notin> set es"
    and drained: "acc_unreliable (account_run bulk dual es) = length spent"
      "acc_reliable (account_run bulk dual es) = (if dual then length spent else 0)" "length spent < 2 ^ 32"
    and batch: "max bulk 1 \<le> avail (bank_sem (st_backpressure_bank t0))"
  shows "0 < avail (bank_sem (st_backpressure_bank t)) \<and>
     avail (bank_sem (st_backpressure_bank t0)) < avail (bank_sem (st_backpressure_bank t)) + max bulk 1 \<and>
     avail (bank_sem (st_backpressure_bank t)) \<le> avail (bank_sem (st_backpressure_bank t0))"
proof -
  let ?a = "account_run bulk dual es"
  have "length spent < 2 ^ 64" using drained(3) by simp
  then have emitted: "acc_emitted ?a \<le> length spent" "length spent < acc_emitted ?a + max bulk 1"
    using drain_tracked [OF still_open refl _ _ refl, of bulk dual] drained by (simp_all split: if_splits)
  have "sum_list spent = length spent"
    using single by (induction spent) auto
  moreover have "acc_emitted ?a < 2 ^ 32" using emitted(1) drained(3) by simp
  ultimately have "avail (bank_sem (st_backpressure_bank t)) + length spent =
      avail (bank_sem (st_backpressure_bank t0)) + acc_emitted ?a"
    using semaphore.flow_conserves [OF sem run B] by (simp add: semaphore.credits_def [OF sem])
  with emitted batch show ?thesis by auto
qed

theorem flow_control_keeps_going_witness:
  "\<exists>t. flow_run be_ops stored_libs counting_ops (plain_task UnknownRole) 1 True t [RecordReliable 1, RecordUnreliable 1] [1] \<and>
     fst (bank_sem (st_backpressure_bank t)) = 5"
proof -
  obtain t where run: "flow_run be_ops stored_libs counting_ops (plain_task UnknownRole) 1 True t
      [RecordReliable 1, RecordUnreliable 1] [1]" using plain_flow_run by blast
  have "fst (bank_sem (st_backpressure_bank (plain_task UnknownRole))) = 5" by (simp add: plain_task_def)
  with flow_control_keeps_going [OF semaphore_counting_ops byte_buf_be_ops run] plain_drained run show ?thesis
    by auto
qed



end
