(* ===== verification/Framing.thy ===== *)
theory Framing
  imports Mani_Codec Conn_Codec
begin

text \<open>
  Framed streams, \<^verbatim>\<open>src/src/mani/frame.rs\<close>, and the framing of the control stream
  (\<open>ControlStreamCodec\<close> of \<^verbatim>\<open>src/src/connection/codec.rs\<close>).  \<open>FramedRead\<close>,
  \<open>FramedWrite\<close> and \<open>LengthDelimitedCodec\<close> are code of \<open>tokio-util\<close>: a record of
  operations with their documented behaviour as a locale.  What the locale gives is that a
  stream of frames can be cut into chunks, and cut off, anywhere: the reader yields exactly
  the frames that are complete, in order.
\<close>

section \<open>The interface to the framed transport\<close>

text \<open>
  A reader over a byte stream that delivers some chunks and then ends, and a writer that has
  handed bytes to its byte stream.  \<open>fr_next\<close> is one \<open>next().await\<close>, \<open>fw_send\<close> one
  \<open>send(..).await\<close>.
\<close>

record ('r, 'w) framed_ops =
  fr_new :: "bytes list \<Rightarrow> 'r"
  fr_next :: "'r \<Rightarrow> (string + bytes) option \<times> 'r"
  fw_send :: "'w \<Rightarrow> bytes \<Rightarrow> (string + unit) \<times> 'w"
  fw_close :: "'w \<Rightarrow> 'w"

primrec raw_items :: "('r, 'w) framed_ops \<Rightarrow> nat \<Rightarrow> 'r \<Rightarrow> (string + bytes) option list" where
  "raw_items F 0 r = []"
| "raw_items F (Suc n) r = (case fr_next F r of (item, r') \<Rightarrow> item # raw_items F n r')"

text \<open>
  The laws: \<open>unread\<close> is what the reader has not yielded of its byte stream, \<open>written\<close>
  what the writer has handed to its own, and \<open>frame\<close> the frame of a message's bytes.  A
  frame that the stream breaks off is an error; the stream's end between two frames is the
  end.  A refused \<open>send\<close> may have written a part of its frame.
\<close>

locale framed_transport =
  fixes F :: "('r, 'w) framed_ops"
    and frame :: "bytes \<Rightarrow> bytes"
    and unread :: "'r \<Rightarrow> bytes"
    and written :: "'w \<Rightarrow> bytes"
    and max_frame_length :: nat
  assumes frame_nonempty: "frame b \<noteq> []"
    and unread_new: "unread (fr_new F chunks) = concat chunks"
    and next_frame: "length b \<le> max_frame_length \<Longrightarrow> unread r = frame b @ rest \<Longrightarrow>
      \<exists>r'. fr_next F r = (Some (Inr b), r') \<and> unread r' = rest"
    and next_broken: "length b \<le> max_frame_length \<Longrightarrow> 0 < i \<Longrightarrow> i < length (frame b) \<Longrightarrow>
      unread r = take i (frame b) \<Longrightarrow> \<exists>e r'. fr_next F r = (Some (Inl e), r')"
    and next_end: "unread r = [] \<Longrightarrow> \<exists>r'. fr_next F r = (None, r')"
    and send_ok: "fw_send F w b = (Inr u, w') \<Longrightarrow>
      length b \<le> max_frame_length \<and> written w' = written w @ frame b"
    and send_failed: "fw_send F w b = (Inl e, w') \<Longrightarrow>
      written w' = written w \<or>
      length b \<le> max_frame_length \<and> (\<exists>i. written w' = written w @ take i (frame b))"
    and written_close: "written (fw_close F w) = written w"
begin

definition stream_of :: "bytes list \<Rightarrow> bytes" where
  "stream_of bs = concat (map frame bs)"

lemma stream_of_Cons: "stream_of (b # bs) = frame b @ stream_of bs"
  by (simp add: stream_of_def)

lemma stream_of_append: "stream_of (as @ bs) = stream_of as @ stream_of bs"
  by (simp add: stream_of_def)

text \<open>A reader whose byte stream is cut off somewhere.\<close>

lemma raw_items_prefix:
  assumes "\<forall>b \<in> set bs. length b \<le> max_frame_length" and "unread r = take k (stream_of bs)"
  shows "\<exists>j last. j \<le> length bs \<and> raw_items F (Suc j) r = map (\<lambda>b. Some (Inr b)) (take j bs) @ [last] \<and>
     (last = None \<or> (\<exists>e. last = Some (Inl e))) \<and>
     (\<forall>n \<le> length bs. length (stream_of (take n bs)) \<le> k \<longrightarrow> n \<le> j)"
  using assms
proof (induction bs arbitrary: r k)
  case Nil
  then obtain r' where "fr_next F r = (None, r')"
    using next_end [of r] by (auto simp: stream_of_def)
  then show ?case by (intro exI [of _ 0] exI [of _ None]) simp
next
  case (Cons b bs)
  have b: "length b \<le> max_frame_length" using Cons.prems(1) by simp
  have whole: "n = 0 \<or> length (frame b) \<le> k"
    if "length (stream_of (take n (b # bs))) \<le> k" for n
    using that by (cases n) (auto simp: stream_of_Cons)
  show ?case
  proof (cases "length (frame b) \<le> k")
    case True
    have "unread r = frame b @ take (k - length (frame b)) (stream_of bs)"
      using Cons.prems(2) True by (simp add: stream_of_Cons)
    then obtain r' where r': "fr_next F r = (Some (Inr b), r')"
      "unread r' = take (k - length (frame b)) (stream_of bs)"
      using next_frame [OF b] by blast
    from Cons.IH [OF _ r'(2)] Cons.prems(1) obtain j last where j: "j \<le> length bs"
      "raw_items F (Suc j) r' = map (\<lambda>b. Some (Inr b)) (take j bs) @ [last]"
      "last = None \<or> (\<exists>e. last = Some (Inl e))"
      "\<forall>n \<le> length bs. length (stream_of (take n bs)) \<le> k - length (frame b) \<longrightarrow> n \<le> j"
      by auto
    have "n \<le> Suc j" if "n \<le> Suc (length bs)" "length (stream_of (take n (b # bs))) \<le> k" for n
      using that j(4) by (cases n) (auto simp: stream_of_Cons)
    then show ?thesis
      using j(1-3) r'(1) by (intro exI [of _ "Suc j"] exI [of _ last]) simp
  next
    case False
    then have cut: "unread r = take k (frame b)"
      using Cons.prems(2) by (simp add: stream_of_Cons)
    have "\<exists>last r'. fr_next F r = (last, r') \<and> (last = None \<or> (\<exists>e. last = Some (Inl e)))"
    proof (cases "k = 0")
      case True
      then show ?thesis using next_end [of r] cut by auto
    next
      case k: False
      then show ?thesis using next_broken [OF b _ _ cut] False by auto
    qed
    then obtain last r' where "fr_next F r = (last, r')" "last = None \<or> (\<exists>e. last = Some (Inl e))"
      by blast
    then show ?thesis
      using whole False by (intro exI [of _ 0] exI [of _ last]) auto
  qed
qed

end

section \<open>Mani frames\<close>

record 'r mani_read_frame =
  rf_stream_id :: mani_stream_id
  rf_stream :: 'r

definition read_frame_new :: "('r, 'w) framed_ops \<Rightarrow> mani_stream_id \<Rightarrow> bytes list \<Rightarrow> 'r mani_read_frame" where
  "read_frame_new F sid read_stream = \<lparr> rf_stream_id = sid, rf_stream = fr_new F read_stream \<rparr>"

text \<open>\<open>read_frame\<close> with its state; the item the stream yields is treated by
  \<open>Mani_Codec.read_frame\<close>.\<close>

definition read_next ::
  "buf_ops \<Rightarrow> ('r, 'w) framed_ops \<Rightarrow> 'r mani_read_frame \<Rightarrow> mani_message option \<times> 'r mani_read_frame" where
  "read_next B F reader =
     (case fr_next F (rf_stream reader) of
        (item, s) \<Rightarrow> (read_frame B item, reader\<lparr> rf_stream := s \<rparr>))"

record 'w mani_write_frame =
  wf_stream :: 'w

definition write_frame_new :: "'w \<Rightarrow> 'w mani_write_frame" where
  "write_frame_new write_stream = \<lparr> wf_stream = write_stream \<rparr>"

definition write_next ::
  "buf_ops \<Rightarrow> ('r, 'w) framed_ops \<Rightarrow> 'w mani_write_frame \<Rightarrow> mani_message \<Rightarrow>
   (string + unit) \<times> 'w mani_write_frame" where
  "write_next B F writer message =
     (write_frame B (\<lambda>serialized. fst (fw_send F (wf_stream writer) serialized)) message,
      writer\<lparr> wf_stream := snd (fw_send F (wf_stream writer) (serialize_mani_message B message)) \<rparr>)"

definition write_close :: "('r, 'w) framed_ops \<Rightarrow> 'w mani_write_frame \<Rightarrow> 'w mani_write_frame" where
  "write_close F writer = writer\<lparr> wf_stream := fw_close F (wf_stream writer) \<rparr>"

text \<open>
  The stream task writes messages until a write fails and then leaves its loop, which closes
  the writer; the task at the other end reads until it gets nothing.
\<close>

fun write_all ::
  "buf_ops \<Rightarrow> ('r, 'w) framed_ops \<Rightarrow> 'w mani_write_frame \<Rightarrow> mani_message list \<Rightarrow> nat \<times> 'w mani_write_frame" where
  "write_all B F writer [] = (0, write_close F writer)"
| "write_all B F writer (m # ms) =
     (case write_next B F writer m of
        (Inl e, writer) \<Rightarrow> (0, write_close F writer)
      | (Inr u, writer) \<Rightarrow> (case write_all B F writer ms of (n, writer) \<Rightarrow> (Suc n, writer)))"

primrec read_times ::
  "buf_ops \<Rightarrow> ('r, 'w) framed_ops \<Rightarrow> nat \<Rightarrow> 'r mani_read_frame \<Rightarrow> mani_message option list" where
  "read_times B F 0 reader = []"
| "read_times B F (Suc n) reader =
     (case read_next B F reader of (m, reader) \<Rightarrow> m # read_times B F n reader)"

lemma read_times_raw:
  "read_times B F n reader = map (read_frame B) (raw_items F n (rf_stream reader))"
  by (induction n arbitrary: reader) (simp_all add: read_next_def split: prod.split)

context framed_transport
begin

text \<open>What a writer has written: the frames of the messages it took and at most a part of the
  next.\<close>

lemma write_all_written:
  assumes "write_all B F writer ms = (n, writer')"
  shows "n \<le> length ms \<and>
     (\<exists>bs k. length bs \<le> length ms \<and> bs = map (serialize_mani_message B) (take (length bs) ms) \<and>
       n \<le> length bs \<and> (\<forall>b \<in> set bs. length b \<le> max_frame_length) \<and>
       written (wf_stream writer') = written (wf_stream writer) @ take k (stream_of bs) \<and>
       length (stream_of (take n bs)) \<le> k)"
  using assms
proof (induction ms arbitrary: writer n)
  case Nil
  then show ?case
    by (intro conjI exI [of _ "[]"] exI [of _ 0]) (auto simp: write_close_def written_close stream_of_def)
next
  case (Cons m ms)
  let ?b = "serialize_mani_message B m"
  obtain r w where send: "fw_send F (wf_stream writer) ?b = (r, w)" by (cases "fw_send F (wf_stream writer) ?b")
  then have nxt: "write_next B F writer m = (r, writer\<lparr> wf_stream := w \<rparr>)"
    by (simp add: write_next_def write_frame_def)
  show ?case
  proof (cases r)
    case (Inl e)
    then have w': "n = 0" "written (wf_stream writer') = written w"
      using Cons.prems nxt by (auto simp: write_close_def written_close)
    from send_failed send Inl
    consider "written w = written (wf_stream writer)"
      | i where "length ?b \<le> max_frame_length" "written w = written (wf_stream writer) @ take i (frame ?b)"
      by blast
    then show ?thesis
    proof cases
      case 1
      then show ?thesis using w'
        by (intro conjI exI [of _ "[]"] exI [of _ 0]) (auto simp: stream_of_def)
    next
      case 2
      then show ?thesis using w'
        by (intro conjI exI [of _ "[?b]"] exI [of _ i]) (auto simp: stream_of_def)
    qed
  next
    case (Inr u)
    then obtain n1 where rest: "write_all B F (writer\<lparr> wf_stream := w \<rparr>) ms = (n1, writer')" "n = Suc n1"
      using Cons.prems nxt by (auto split: prod.splits)
    have w: "length ?b \<le> max_frame_length" "written w = written (wf_stream writer) @ frame ?b"
      using send_ok send Inr by blast+
    obtain bs k where bs: "n1 \<le> length ms" "length bs \<le> length ms"
      "bs = map (serialize_mani_message B) (take (length bs) ms)" "n1 \<le> length bs"
      "\<forall>b \<in> set bs. length b \<le> max_frame_length"
      "written (wf_stream writer') = written w @ take k (stream_of bs)"
      "length (stream_of (take n1 bs)) \<le> k"
      using Cons.IH [OF rest(1)] by auto
    show ?thesis
      using bs w rest(2)
      by (intro conjI exI [of _ "?b # bs"] exI [of _ "length (frame ?b) + k"])
        (auto simp: stream_of_Cons simp del: serialize_mani_message.simps)
  qed
qed

lemma messages_delivered:
  assumes B: "byte_buf B" and ms: "\<forall>m \<in> set ms. encodable m"
    and w: "write_all B F writer ms = (n, writer')" "written (wf_stream writer) = []"
    and r: "concat chunks = take arrived (written (wf_stream writer'))"
  shows "\<exists>j \<le> length ms.
     read_times B F (Suc j) (read_frame_new F sid chunks) = map Some (take j ms) @ [None] \<and>
     (length (written (wf_stream writer')) \<le> arrived \<longrightarrow> n \<le> j)"
proof -
  obtain bs k where bs: "length bs \<le> length ms"
    "bs = map (serialize_mani_message B) (take (length bs) ms)" "n \<le> length bs"
    "\<forall>b \<in> set bs. length b \<le> max_frame_length"
    "written (wf_stream writer') = take k (stream_of bs)" "length (stream_of (take n bs)) \<le> k"
    using write_all_written [OF w(1)] w(2) by auto
  have "unread (fr_new F chunks) = take (min arrived k) (stream_of bs)"
    using r bs(5) by (simp add: unread_new)
  from raw_items_prefix [OF bs(4) this] obtain j last where j: "j \<le> length bs"
    "raw_items F (Suc j) (fr_new F chunks) = map (\<lambda>b. Some (Inr b)) (take j bs) @ [last]"
    "last = None \<or> (\<exists>e. last = Some (Inl e))"
    "\<forall>n \<le> length bs. length (stream_of (take n bs)) \<le> min arrived k \<longrightarrow> n \<le> j"
    by blast
  have "read_frame B (Some (Inr (serialize_mani_message B m))) = Some m" if "m \<in> set ms" for m
    using byte_buf.parse_serialize [OF B] that ms by (simp add: read_frame_def)
  then have "map (read_frame B) (map (\<lambda>b. Some (Inr b :: string + bytes)) (take j bs)) = map Some (take j ms)"
    using bs(1) j(1) by (subst bs(2)) (auto simp: take_map min_absorb1 dest!: in_set_takeD)
  moreover have "read_frame B last = None" using j(3) by (auto simp: read_frame_def)
  ultimately have reads:
    "read_times B F (Suc j) (read_frame_new F sid chunks) = map Some (take j ms) @ [None]"
    by (simp only: read_times_raw read_frame_new_def mani_read_frame.simps j(2) map_append list.map)
  have "length (stream_of (take n bs)) \<le> length (stream_of bs)"
    by (metis append_take_drop_id le_add1 length_append stream_of_append)
  then have "length (written (wf_stream writer')) \<le> arrived \<longrightarrow> n \<le> j"
    using bs(3,5,6) j(4) by auto
  with reads j(1) bs(1) show ?thesis by (intro exI [of _ j]) auto
qed

end

section \<open>The documented framing\<close>

text \<open>
  The defaults of \<open>LengthDelimitedCodec\<close>: a big-endian length of four bytes, then the
  data, at most eight mebibytes.  The reader collects chunks until a frame is complete; the
  writer's byte stream takes a number of bytes and then fails.
\<close>

definition ld_max :: nat where
  "ld_max = 8388608"

definition ld_frame :: "bytes \<Rightarrow> bytes" where
  "ld_frame b = nat_be 4 (length b) @ b"

definition ld_decode :: "bytes \<Rightarrow> string + (bytes \<times> bytes) option" where
  "ld_decode buf =
     (let n = be_nat (take 4 buf) in
      if length buf < 4 then Inr None
      else if ld_max < n then Inl ''frame size too big''
      else if length buf < 4 + n then Inr None
      else Inr (Some (take n (drop 4 buf), drop (4 + n) buf)))"

fun ld_next :: "bytes \<times> bytes list \<Rightarrow> (string + bytes) option \<times> bytes \<times> bytes list" where
  "ld_next (buf, chunks) =
     (case ld_decode buf of
        Inl e \<Rightarrow> (Some (Inl e), [], [])
      | Inr (Some (b, buf)) \<Rightarrow> (Some (Inr b), buf, chunks)
      | Inr None \<Rightarrow>
          (case chunks of
             [] \<Rightarrow> (if buf = [] then None else Some (Inl ''bytes remaining on stream''), [], [])
           | c # cs \<Rightarrow> ld_next (buf @ c, cs)))"

fun ld_send :: "nat \<times> bytes \<Rightarrow> bytes \<Rightarrow> (string + unit) \<times> nat \<times> bytes" where
  "ld_send (room, out) b =
     (if ld_max < length b then (Inl ''frame size too big'', room, out)
      else if length (ld_frame b) \<le> room then (Inr (), room - length (ld_frame b), out @ ld_frame b)
      else (Inl ''broken pipe'', 0, out @ take room (ld_frame b)))"

definition ld_ops :: "(bytes \<times> bytes list, nat \<times> bytes) framed_ops" where
  "ld_ops = \<lparr> fr_new = \<lambda>chunks. ([], chunks), fr_next = ld_next, fw_send = ld_send, fw_close = \<lambda>w. w \<rparr>"

definition ld_unread :: "bytes \<times> bytes list \<Rightarrow> bytes" where
  "ld_unread r = fst r @ concat (snd r)"

lemma ld_decode_prefix:
  assumes "length b \<le> ld_max" and "buf @ tail = ld_frame b @ rest"
  shows "ld_decode buf =
     (if length buf < length (ld_frame b) then Inr None
      else Inr (Some (b, drop (length (ld_frame b)) buf)))"
proof (cases "length buf < 4")
  case True
  then show ?thesis by (simp add: ld_decode_def ld_frame_def)
next
  case False
  have head: "take 4 buf = nat_be 4 (length b)"
    using arg_cong [OF assms(2), of "take 4"] False by (simp add: ld_frame_def)
  have "(length b :: nat) < 256 ^ 4" using assms(1) by (simp add: ld_max_def)
  then have n: "be_nat (take 4 buf) = length b" using be_nat_nat_be head by simp
  have "take (length b) (drop 4 buf) = b" if "4 + length b \<le> length buf"
  proof -
    have "take (4 + length b) (buf @ tail) = nat_be 4 (length b) @ b"
      unfolding assms(2) by (simp add: ld_frame_def)
    then have "take (4 + length b) buf = nat_be 4 (length b) @ b" using that by simp
    then have "drop 4 (take (4 + length b) buf) = b" by simp
    then show ?thesis by (simp add: drop_take)
  qed
  then show ?thesis using False assms(1) n by (auto simp: ld_decode_def Let_def ld_frame_def)
qed

lemma ld_decode_cut:
  assumes "length b \<le> ld_max" and "i < length (ld_frame b)" and "buf @ tail = take i (ld_frame b)"
  shows "ld_decode buf = Inr None"
proof -
  have "length buf \<le> i" using arg_cong [OF assms(3), of length] assms(2) by simp
  moreover have "buf @ tail @ drop i (ld_frame b) = ld_frame b @ []"
    using assms(3) by (simp flip: append_assoc)
  ultimately show ?thesis using ld_decode_prefix [OF assms(1), of buf _ "[]"] assms(2) by simp
qed

declare ld_next.simps [simp del]

lemma ld_next_frame:
  assumes "length b \<le> ld_max" and "buf @ concat chunks = ld_frame b @ rest"
  shows "\<exists>r'. ld_next (buf, chunks) = (Some (Inr b), r') \<and> ld_unread r' = rest"
  using assms(2)
proof (induction chunks arbitrary: buf)
  case Nil
  have "length (ld_frame b) \<le> length buf" using arg_cong [OF Nil, of length] by simp
  moreover have "drop (length (ld_frame b)) buf = rest"
    using arg_cong [OF Nil, of "drop (length (ld_frame b))"] by simp
  ultimately show ?case
    using ld_decode_prefix [OF assms(1) Nil] by (simp add: ld_next.simps ld_unread_def)
next
  case (Cons c cs)
  show ?case
  proof (cases "length buf < length (ld_frame b)")
    case True
    then show ?thesis
      using ld_decode_prefix [OF assms(1) Cons.prems] Cons.IH [of "buf @ c"] Cons.prems
      by (simp add: ld_next.simps [of buf])
  next
    case False
    have "drop (length (ld_frame b)) buf @ concat (c # cs) = rest"
      using arg_cong [OF Cons.prems, of "drop (length (ld_frame b))"] False by simp
    then show ?thesis
      using ld_decode_prefix [OF assms(1) Cons.prems] False
      by (simp add: ld_next.simps [of buf] ld_unread_def)
  qed
qed

lemma ld_next_broken:
  assumes "length b \<le> ld_max" and "0 < i" "i < length (ld_frame b)"
    and "buf @ concat chunks = take i (ld_frame b)"
  shows "\<exists>e r'. ld_next (buf, chunks) = (Some (Inl e), r')"
  using assms(4)
proof (induction chunks arbitrary: buf)
  case Nil
  then show ?case
    using ld_decode_cut [OF assms(1,3) Nil] assms(2,3) by (auto simp: ld_next.simps)
next
  case (Cons c cs)
  then show ?case
    using ld_decode_cut [OF assms(1,3) Cons.prems] by (simp add: ld_next.simps [of buf])
qed

lemma ld_next_end: "concat chunks = [] \<Longrightarrow> \<exists>r'. ld_next ([], chunks) = (None, r')"
  by (induction chunks) (auto simp: ld_next.simps [of "[]"] ld_decode_def)

interpretation ld: framed_transport ld_ops ld_frame ld_unread snd ld_max
proof
  fix b rest e u chunks and r :: "bytes \<times> bytes list" and w w' :: "nat \<times> bytes" and i :: nat
  show "ld_frame b \<noteq> []" by (simp add: ld_frame_def flip: length_0_conv)
  show "ld_unread (fr_new ld_ops chunks) = concat chunks" by (simp add: ld_ops_def ld_unread_def)
  show "length b \<le> ld_max \<Longrightarrow> ld_unread r = ld_frame b @ rest \<Longrightarrow>
      \<exists>r'. fr_next ld_ops r = (Some (Inr b), r') \<and> ld_unread r' = rest"
    using ld_next_frame [of b "fst r" "snd r" rest] by (simp add: ld_ops_def ld_unread_def)
  show "length b \<le> ld_max \<Longrightarrow> 0 < i \<Longrightarrow> i < length (ld_frame b) \<Longrightarrow>
      ld_unread r = take i (ld_frame b) \<Longrightarrow> \<exists>e r'. fr_next ld_ops r = (Some (Inl e), r')"
    using ld_next_broken [of b i "fst r" "snd r"] by (simp add: ld_ops_def ld_unread_def)
  show "ld_unread r = [] \<Longrightarrow> \<exists>r'. fr_next ld_ops r = (None, r')"
    using ld_next_end [of "snd r"] by (cases r) (simp add: ld_ops_def ld_unread_def)
  show "fw_send ld_ops w b = (Inr u, w') \<Longrightarrow> length b \<le> ld_max \<and> snd w' = snd w @ ld_frame b"
    by (cases w) (auto simp: ld_ops_def split: if_splits)
  show "fw_send ld_ops w b = (Inl e, w') \<Longrightarrow> snd w' = snd w \<or>
      length b \<le> ld_max \<and> (\<exists>i. snd w' = snd w @ take i (ld_frame b))"
    by (cases w) (auto simp: ld_ops_def split: if_splits)
  show "snd (fw_close ld_ops w) = snd w" by (simp add: ld_ops_def)
qed

section \<open>The control stream\<close>

text \<open>
  \<open>ControlStreamCodec::new\<close> frames as above (a length field of four bytes is the default);
  the messages one side encoded, as the other side's \<open>FramedRead\<close> yields them.
\<close>

definition control_next ::
  "buf_ops \<Rightarrow> (string + bytes) option \<Rightarrow> (control_error + connection_message) option" where
  "control_next B item =
     (case item of
        None \<Rightarrow> None
      | Some frame \<Rightarrow>
          (case control_decode B (case frame of Inl e \<Rightarrow> Inl e | Inr b \<Rightarrow> Inr (Some b)) of
             Inl e \<Rightarrow> Some (Inl e)
           | Inr None \<Rightarrow> None
           | Inr (Some msg) \<Rightarrow> Some (Inr msg)))"

text \<open>Control messages cross the stream whole and in order, and a stream that is cut off
  yields the complete ones and then an error or the end.\<close>

lemma control_messages_delivered:
  assumes "framed_transport F frame unread written max_frame_length"
    and codec: "byte_buf B" "map_iteration ord" and ms: "\<forall>m \<in> set ms. conn_encodable m"
    and short: "\<forall>m \<in> set ms. length (serialize_connection_message B ord m) \<le> max_frame_length"
    and r: "concat chunks = take arrived (concat (map (frame \<circ> serialize_connection_message B ord) ms))"
  shows "\<exists>j last. j \<le> length ms \<and>
     map (control_next B) (raw_items F (Suc j) (fr_new F chunks)) = map (Some \<circ> Inr) (take j ms) @ [last] \<and>
     (last = None \<or> (\<exists>e. last = Some (Inl e)))"
proof -
  note tr = framed_transport.raw_items_prefix [OF assms(1)] framed_transport.unread_new [OF assms(1)]
    framed_transport.stream_of_def [OF assms(1)]
  let ?bs = "map (serialize_connection_message B ord) ms"
  have "unread (fr_new F chunks) = take arrived (framed_transport.stream_of frame ?bs)"
    using r by (simp add: tr(2,3) comp_def)
  from tr(1) [OF _ this] short obtain j last where j: "j \<le> length ms"
    "raw_items F (Suc j) (fr_new F chunks) = map (\<lambda>b. Some (Inr b)) (take j ?bs) @ [last]"
    "last = None \<or> (\<exists>e. last = Some (Inl e))"
    by auto
  have "control_next B (Some (Inr (serialize_connection_message B ord m))) = Some (Inr m)"
    if "m \<in> set ms" for m
    using control_codec.conn_parse_serialize [of B ord m "[]"] codec ms that
    by (simp add: control_next_def control_decode_def control_codec_def)
  then have "map (control_next B) (map (\<lambda>b. Some (Inr b)) (take j ?bs)) = map (Some \<circ> Inr) (take j ms)"
    by (auto simp: take_map dest!: in_set_takeD)
  moreover have "control_next B last = None \<or> (\<exists>e. control_next B last = Some (Inl e))"
    using j(3) by (auto simp: control_next_def control_decode_def)
  ultimately show ?thesis
    using j(1) by (intro exI [of _ j] exI [of _ "control_next B last"]) (simp only: j(2) map_append list.map simp_thms)
qed

section \<open>Properties\<close>

text \<open>C31: Whatever chunks the byte stream delivers the written bytes in, and wherever it
  breaks off, a reader gets a prefix of the messages that the other side wrote, in order, and
  then nothing more.  When all the bytes arrive, the prefix contains every message whose
  \<open>write_frame\<close> returned \<open>Ok\<close>, also when a later one failed in the middle of its
  frame.\<close>

theorem mani_frames_delivered:
  assumes "framed_transport F frame unread written max_frame_length" and "byte_buf B"
    and "\<forall>m \<in> set ms. encodable m"
    and "write_all B F (write_frame_new w) ms = (n, writer)" and "written w = []"
    and "concat chunks = take arrived (written (wf_stream writer))"
  shows "\<exists>j \<le> length ms.
     read_times B F (Suc j) (read_frame_new F sid chunks) = map Some (take j ms) @ [None] \<and>
     (length (written (wf_stream writer)) \<le> arrived \<longrightarrow> n \<le> j)"
  using framed_transport.messages_delivered [OF assms(1-4) _ assms(6)] assms(5)
  by (simp add: write_frame_new_def)

text \<open>Twelve bytes are taken: two messages and a part of the third, read byte by byte.\<close>

theorem mani_frames_delivered_witness:
  "\<exists>writer.
     write_all be_ops ld_ops (write_frame_new (12, [])) [TransferEndAck, EndOfStream, TransferEndAck] = (2, writer) \<and>
     (\<exists>j \<ge> 2. read_times be_ops ld_ops (Suc j)
         (read_frame_new ld_ops (ManiStreamId 4) (map (\<lambda>b. [b]) (snd (wf_stream writer)))) =
       map Some (take j [TransferEndAck, EndOfStream, TransferEndAck]) @ [None])"
proof -
  let ?ms = "[TransferEndAck, EndOfStream, TransferEndAck]"
  obtain writer where w: "write_all be_ops ld_ops (write_frame_new (12, [])) ?ms = (2, writer)"
    by (simp add: write_next_def write_frame_def write_frame_new_def ld_ops_def ld_frame_def ld_max_def)
  have all: "concat (map (\<lambda>b. [b]) (snd (wf_stream writer))) =
      take (length (snd (wf_stream writer))) (snd (wf_stream writer))" by simp
  from mani_frames_delivered [OF ld.framed_transport_axioms byte_buf_be_ops _ w _ all, of "ManiStreamId 4"]
  obtain j where "2 \<le> j" "read_times be_ops ld_ops (Suc j)
       (read_frame_new ld_ops (ManiStreamId 4) (map (\<lambda>b. [b]) (snd (wf_stream writer)))) =
     map Some (take j ?ms) @ [None]"
    by auto
  with w show ?thesis by (intro exI [of _ writer] conjI exI [of _ j]) simp_all
qed

end
