(* ===== verification/Late_Frames.thy ===== *)
theory Late_Frames
  imports Jitter
begin

text \<open>
  What the jitter buffer plays after the end of the stream: the frames that are still
  buffered, among them those that arrived after their turn, by their timestamps.
\<close>

text \<open>The entries of the frames \<open>is\<close>.\<close>

definition entries_of :: "nat \<Rightarrow> nat \<Rightarrow> chunk list \<Rightarrow> nat list \<Rightarrow> frame_map" where
  "entries_of start fsize frames is =
     map (\<lambda>i. (frame_ts start fsize i, chunk_content (frames ! i))) is"

lemma entries_ordered:
  assumes "paced start fsize frames" and "sorted_wrt (<) is" and "set is \<subseteq> {..<length frames}"
  shows "btree_ordered (entries_of start fsize frames is)"
proof -
  have "frame_ts start fsize i < frame_ts start fsize j" if "i < j" "i \<in> set is" "j \<in> set is" for i j
  proof -
    have "i \<le> length frames" "j \<le> length frames" using that assms(3) by auto
    moreover have "start + i * fsize < start + j * fsize"
      using that(1) assms(1) by (simp add: paced_def)
    ultimately show ?thesis using assms(1) by (simp add: word_less_nat_alt unat_frame_ts)
  qed
  then show ?thesis
    using assms(2) by (auto simp: btree_ordered_def entries_of_def sorted_wrt_map comp_def
        intro!: sorted_wrt_mono_rel [of "is" "(<)"])
qed

lemma entries_absent:
  assumes "paced start fsize frames" and "set is \<subseteq> {..<length frames}" and "q \<le> length frames" "q \<notin> set is"
  shows "map_of (entries_of start fsize frames is) (frame_ts start fsize q) = None"
proof -
  have "frame_ts start fsize q \<noteq> frame_ts start fsize i" if "i \<in> set is" for i
    using frame_ts_inject [OF assms(1), of q i] that assms(2-4) by auto
  then show ?thesis by (fastforce simp: map_of_eq_None_iff entries_of_def)
qed

text \<open>One call after the end: the first buffered frame is played, after a skip where it is not
  the next in turn.\<close>

definition draining :: "nat \<Rightarrow> nat \<Rightarrow> chunk list \<Rightarrow> nat list \<Rightarrow> nat \<Rightarrow> 'd jitter_buffer \<Rightarrow> bool" where
  "draining start fsize frames is q J \<longleftrightarrow>
     jb_is_eof J \<and> unat (jb_frame_size_ms J) = fsize \<and>
     jb_buffer J = entries_of start fsize frames is \<and> jb_next_play_ts J = Some (frame_ts start fsize q)"

lemma draining_plays:
  assumes paced: "paced start fsize frames" and J: "draining start fsize frames (i # is) i J"
    and order: "sorted_wrt (<) (i # is)" "set (i # is) \<subseteq> {..<length frames}"
    and dec: "decode_frame ops (jb_channels J) (jb_decoder J) (chunk_content (frames ! i)) False = (d, Inr pcm)"
  shows "\<exists>J'. yield_pcm oc ops J events = Done (J', events, Some (Inr (Some pcm))) \<and>
     draining start fsize frames is (Suc i) J' \<and> jb_channels J' = jb_channels J \<and> jb_decoder J' = d"
proof -
  let ?t = "frame_ts start fsize i"
  have i: "Suc i \<le> length frames" using order(2) by auto
  have "unat ?t + unat (jb_frame_size_ms J) = start + Suc i * fsize"
    using J i by (simp add: draining_def unat_frame_ts [OF paced])
  then have fits: "\<not> 2 ^ 64 \<le> unat ?t + unat (jb_frame_size_ms J)" and
    t: "?t + jb_frame_size_ms J = frame_ts start fsize (Suc i)"
    using paced_bound [OF paced i] J
    by (simp_all add: draining_def frame_ts_def word_unat_eq_iff unat_word_ariths unat_of_nat
        flip: of_nat_add of_nat_mult)
  have head: "entries_of start fsize frames (i # is) = (?t, chunk_content (frames ! i)) # entries_of start fsize frames is"
    by (simp add: entries_of_def)
  have "btree_remove ?t (jb_buffer J) = entries_of start fsize frames is"
    using btree_remove_first entries_ordered [OF paced order] J unfolding draining_def head by auto
  then have "jitter_manage oc ops J = Done (J\<lparr> jb_buffer := entries_of start fsize frames is, jb_decoder := d,
      jb_next_play_ts := Some (frame_ts start fsize (Suc i)) \<rparr>, Played (Inr pcm))"
    using J dec fits t by (simp add: draining_def jitter_manage_def jitter_play_def head)
  then show ?thesis using J by (simp add: yield_played draining_def)
qed

lemma draining_yields:
  assumes paced: "paced start fsize frames" and J: "draining start fsize frames (i # is) q J"
    and order: "sorted_wrt (<) (i # is)" "set (i # is) \<subseteq> {..<length frames}"
    and q: "q = i \<or> q \<notin> set (i # is)" "q \<le> length frames"
    and dec: "decode_frame ops (jb_channels J) (jb_decoder J) (chunk_content (frames ! i)) False = (d, Inr pcm)"
  shows "\<exists>J'. yield_pcm oc ops J events = Done (J', events, Some (Inr (Some pcm))) \<and>
     draining start fsize frames is (Suc i) J' \<and> jb_channels J' = jb_channels J \<and> jb_decoder J' = d"
proof (cases "q = i")
  case True
  then show ?thesis using draining_plays [OF paced _ order dec] J by blast
next
  case False
  let ?J = "J\<lparr> jb_next_play_ts := Some (frame_ts start fsize i) \<rparr>"
  have "map_of (jb_buffer J) (frame_ts start fsize q) = None"
    using entries_absent [OF paced order(2) q(2)] False q(1) J by (auto simp: draining_def)
  then have "jitter_manage oc ops J = Done (?J, Skipped)"
    using J by (simp add: draining_def jitter_manage_def entries_of_def Let_def)
  then have "yield_pcm oc ops J events = yield_pcm oc ops ?J events"
    by (subst yield_pcm.simps) simp
  moreover have "draining start fsize frames (i # is) i ?J" using J by (simp add: draining_def)
  ultimately show ?thesis using draining_plays [OF paced _ order, of ?J] dec by simp
qed

lemma draining_session:
  assumes paced: "paced start fsize frames" and "draining start fsize frames is q J"
    and "sorted_wrt (<) is" "set is \<subseteq> {..<length frames}"
    and "is \<noteq> [] \<longrightarrow> q = hd is \<or> q \<notin> set is" "q \<le> length frames"
    and "decode_all ops (jb_channels J) (jb_decoder J) (map (\<lambda>i. chunk_content (frames ! i)) is) = Some (d', pcms)"
  shows "yield_session oc ops (Suc (length is)) J [] =
     Done (map (\<lambda>pcm. Some (Inr (Some pcm))) pcms @ [Some (Inr None)])"
  using assms(2-)
proof (induction "is" arbitrary: q J pcms)
  case Nil
  then have "jitter_manage oc ops J = Done (J, Ended)"
    by (simp add: draining_def jitter_manage_def entries_of_def)
  with Nil show ?case by (simp add: yield_ended)
next
  case (Cons i "is")
  from Cons.prems(6) obtain d pcm pcms' where
    first: "decode_frame ops (jb_channels J) (jb_decoder J) (chunk_content (frames ! i)) False = (d, Inr pcm)"
    and rest: "decode_all ops (jb_channels J) d (map (\<lambda>i. chunk_content (frames ! i)) is) = Some (d', pcms')"
    and pcms: "pcms = pcm # pcms'"
    by (auto split: prod.splits sum.splits)
  have "q = i \<or> q \<notin> set (i # is)" using Cons.prems(4) by simp
  from draining_yields [OF paced Cons.prems(1-3) this Cons.prems(5) first] obtain J' where
    one: "yield_pcm oc ops J [] = Done (J', [], Some (Inr (Some pcm)))"
    and J': "draining start fsize frames is (Suc i) J'" "jb_channels J' = jb_channels J" "jb_decoder J' = d"
    by blast
  have "is \<noteq> [] \<longrightarrow> Suc i = hd is \<or> Suc i \<notin> set is"
    using Cons.prems(2) by (cases "is") auto
  moreover have "sorted_wrt (<) is" "set is \<subseteq> {..<length frames}" "Suc i \<le> length frames"
    using Cons.prems(2,3) by auto
  ultimately have "yield_session oc ops (Suc (length is)) J' [] =
      Done (map (\<lambda>pcm. Some (Inr (Some pcm))) pcms' @ [Some (Inr None)])"
    using Cons.IH [OF J'(1)] rest J'(2,3) by simp
  then show ?case using one pcms by simp
qed

section \<open>Properties\<close>

text \<open>C18: Late frames are not dropped but played after everything else.  When the stream ends
  while the buffer holds frames whose turn is over (their place was concealed or skipped), the
  clock is set back to the oldest of them and all are played, out of order, before the end is
  reported.\<close>

theorem late_frames_played_last:
  assumes "paced start (unat (jb_frame_size_ms J)) frames"
    and "jb_buffer J = entries_of start (unat (jb_frame_size_ms J)) frames late" and "sorted_wrt (<) late"
    and "jb_next_play_ts J = Some (frame_ts start (unat (jb_frame_size_ms J)) turn)"
    and "\<forall>i \<in> set late. i < turn" and "turn \<le> length frames"
    and "\<not> jb_is_eof J" and "0 < jb_playout_delay_ms J"
    and "decode_all ops (jb_channels J) (jb_decoder J) (map (\<lambda>i. chunk_content (frames ! i)) late) = Some (d', pcms)"
  shows "yield_session oc ops (Suc (length late)) J [StreamEnded] =
     Done (map (\<lambda>pcm. Some (Inr (Some pcm))) pcms @ [Some (Inr None)])"
proof -
  let ?fs = "unat (jb_frame_size_ms J)" and ?J = "J\<lparr> jb_is_eof := True \<rparr>"
  have late: "set late \<subseteq> {..<length frames}" "turn \<notin> set late" using assms(5,6) by auto
  have "saturating_sub64 (if jb_buffer J = [] then 0 else fst (last (jb_buffer J)))
      (frame_ts start ?fs turn) = 0"
  proof (cases "late = []")
    case False
    then have last: "last late \<in> set late" "fst (last (jb_buffer J)) = frame_ts start ?fs (last late)"
      by (simp_all add: assms(2) entries_of_def last_map)
    then have le: "last late \<le> turn" using assms(5) by (simp add: less_imp_le)
    then have "last late \<le> length frames" using assms(6) by simp
    then have "frame_ts start ?fs (last late) \<le> frame_ts start ?fs turn"
      using le assms(6) unat_frame_ts [OF assms(1)] by (simp add: word_le_nat_alt)
    then show ?thesis using last(2) by (simp add: saturating_sub64_def)
  qed (simp add: assms(2) entries_of_def saturating_sub64_def)
  moreover have "map_of (jb_buffer J) (frame_ts start ?fs turn) = None"
    using entries_absent [OF assms(1) late(1) assms(6) late(2)] assms(2) by simp
  ultimately have "jitter_manage oc ops J = Done (J, NeedsFrame)"
    using assms(4,7,8) by (auto simp: jitter_manage_def Let_def)
  then have waits: "yield_pcm oc ops J [StreamEnded] = yield_pcm oc ops ?J []"
    using assms(4) by (simp add: yield_stream_ended)
  have "draining start ?fs frames late turn ?J" using assms(2,4) by (simp add: draining_def)
  from draining_session [OF assms(1) this assms(3) late(1) _ assms(6)] assms(9) late(2)
  have "yield_session oc ops (Suc (length late)) ?J [] =
      Done (map (\<lambda>pcm. Some (Inr (Some pcm))) pcms @ [Some (Inr None)])" by simp
  then show ?thesis by (simp add: waits)
qed

text \<open>Frame 1 is overtaken by the playout delay, concealed, arrives late and is played after
  frame 2.\<close>

lemma sample_byte: "decode_frame sample_opus (Suc 0) d [b] False = (Suc d, Inr [unat b])"
  by (simp add: decode_frame_def sample_opus_def)

lemma sample_conceal: "decode_frame sample_opus (Suc 0) d [] True = (Suc d, Inr [])"
  by (simp add: decode_frame_def sample_opus_def)

lemmas sample_steps = jitter_manage_def jitter_play_def jitter_insert_def btree_remove_def
  saturating_sub64_def sample_byte sample_conceal Let_def

theorem late_frames_played_last_witness:
  "\<exists>J. jitter_new (Inr 0) 1 20 20 = Inr J \<and>
     yield_session True sample_opus (Suc (Suc (Suc 2))) J
       (map FrameReceived [sample_frame 0, sample_frame 2, sample_frame 1] @ [StreamEnded]) =
     Done [Some (Inr (Some [0])), Some (Inr (Some [])), Some (Inr (Some [2])), Some (Inr (Some [1])), Some (Inr None)]"
proof -
  define J where "J d m t = \<lparr> jb_decoder = d, jb_buffer = m, jb_frame_size_ms = 20, jb_playout_delay_ms = 20,
      jb_next_play_ts = t, jb_channels = 1, jb_is_eof = False \<rparr>" for d :: nat and m :: frame_map and t
  have ts: "timestamp_val (chunk_timestamp (sample_frame i)) = of_nat (100 + i * 20)"
    "chunk_content (sample_frame i) = [of_nat i]" for i
    by (simp_all add: sample_frame_def)
  note steps = sample_steps J_def ts
  let ?J2 = "J 2 [(140, [2])] (Some 140)" and ?J4 = "J 3 [(120, [1])] (Some 160)"
  have insert: "jitter_insert (J 0 [] None) (sample_frame 0) = J 0 [(100, [0])] (Some 100)"
    "jitter_insert (J (Suc 0) [] (Some 120)) (sample_frame 2) = J (Suc 0) [(140, [2])] (Some 120)"
    "jitter_insert (J 3 [] (Some 160)) (sample_frame 1) = ?J4"
    by (simp_all add: steps)
  have manage: "jitter_manage True sample_opus (J 0 [] None) = Done (J 0 [] None, NeedsFrame)"
    "jitter_manage True sample_opus (J 0 [(100, [0])] (Some 100)) = Done (J (Suc 0) [] (Some 120), Played (Inr [0]))"
    "jitter_manage True sample_opus (J (Suc 0) [] (Some 120)) = Done (J (Suc 0) [] (Some 120), NeedsFrame)"
    "jitter_manage True sample_opus (J (Suc 0) [(140, [2])] (Some 120)) = Done (?J2, Played (Inr []))"
    "jitter_manage True sample_opus ?J2 = Done (J 3 [] (Some 160), Played (Inr [2]))"
    "jitter_manage True sample_opus (J 3 [] (Some 160)) = Done (J 3 [] (Some 160), NeedsFrame)"
    by (simp_all add: steps)
  let ?frames = "[sample_frame 0, sample_frame 1, sample_frame 2]"
  have paced: "paced 100 (unat (jb_frame_size_ms ?J4)) ?frames"
    by (simp add: J_def paced_def sample_frame_def frame_ts_def less_Suc_eq all_conj_distrib)
  have "yield_session True sample_opus (Suc (length [1 :: nat])) ?J4 [StreamEnded] =
      Done (map (\<lambda>pcm. Some (Inr (Some pcm))) [[1]] @ [Some (Inr None)])"
    by (rule late_frames_played_last [OF paced, where turn = 3 and d' = 4])
      (simp_all add: steps entries_of_def frame_ts_def)
  then have "yield_session True sample_opus 2 ?J4 [StreamEnded] = Done [Some (Inr (Some [1])), Some (Inr None)]"
    by (simp add: numeral_2_eq_2 del: yield_session.simps)
  then have "yield_session True sample_opus 2 (J 3 [] (Some 160)) [FrameReceived (sample_frame 1), StreamEnded] =
      Done [Some (Inr (Some [1])), Some (Inr None)]"
    by (simp add: numeral_2_eq_2 yield_receives [OF manage(6)] insert [unfolded One_nat_def])
  moreover have "yield_session True sample_opus (Suc (Suc (Suc n))) (J 0 [] None)
       (FrameReceived (sample_frame 0) # FrameReceived (sample_frame 2) # es) =
     bind_outcome (yield_session True sample_opus n (J 3 [] (Some 160)) es) (\<lambda>rs.
       Done ([Some (Inr (Some [0])), Some (Inr (Some [])), Some (Inr (Some [2]))] @ rs))" for n es
    by (cases "yield_session True sample_opus n (J 3 [] (Some 160)) es")
      (simp_all add: yield_receives [OF manage(1)] yield_receives [OF manage(3)] insert
        yield_played [OF manage(2)] yield_played [OF manage(4)] yield_played [OF manage(5)])
  ultimately have "yield_session True sample_opus (Suc (Suc (Suc 2))) (J 0 [] None)
       (map FrameReceived [sample_frame 0, sample_frame 2, sample_frame 1] @ [StreamEnded]) =
     Done [Some (Inr (Some [0])), Some (Inr (Some [])), Some (Inr (Some [2])), Some (Inr (Some [1])), Some (Inr None)]"
    by (simp only: list.map append.simps bind_outcome.simps)
  then show ?thesis by (intro exI [of _ "J 0 [] None"]) (simp add: jitter_new_def J_def)
qed

end
