(* ===== verification/Peer_Audio.thy ===== *)
theory Peer_Audio
  imports Late_Frames
begin

text \<open>
  The player of the test peer, \<^verbatim>\<open>src/crates/pf2-test/src/audio.rs\<close>, and the loops of
  \<^verbatim>\<open>src/crates/pf2-test/src/server.rs\<close> that play a transfer: the unreliable stream through
  the jitter buffer, the reliable one through the Opus decoder.  Both wait while the player's
  queue is full.
\<close>

section \<open>The player\<close>

text \<open>
  The sink is \<open>rodio\<close>'s and a parameter: its queue's length, appending a buffer of samples,
  what it is after a sleep of the poll interval, and after \<open>sleep_until_end\<close>.
\<close>

definition SAMPLE_RATE :: nat where "SAMPLE_RATE = 48000"

definition CHANNELS :: nat where "CHANNELS = 2"

definition MAX_QUEUED_FRAMES :: nat where "MAX_QUEUED_FRAMES = 25"

text \<open>Two milliseconds.\<close>

definition POLL_INTERVAL :: nat where "POLL_INTERVAL = 2 * 10 ^ 6"

record ('k, 'f) sink_ops =
  sink_len :: "'k \<Rightarrow> nat"
  sink_append :: "'k \<Rightarrow> nat \<Rightarrow> nat \<Rightarrow> 'f list \<Rightarrow> 'k"
  sink_after :: "'k \<Rightarrow> nat \<Rightarrow> 'k"
  sink_sleep_until_end :: "'k \<Rightarrow> 'k"

record 'k player =
  pl_sink :: 'k

text \<open>An error with the context that \<open>anyhow\<close> adds to it, if any.\<close>

type_synonym audio_error = "string option \<times> string"

text \<open>Opening the output and creating the sink on it are the library's.\<close>

definition player_new :: "string + 'o \<Rightarrow> ('o \<Rightarrow> string + 'k) \<Rightarrow> audio_error + 'k player" where
  "player_new try_default try_new =
     and_then (map_err (\<lambda>e. (Some ''failed to open default audio output'', e)) try_default) (\<lambda>handle.
     and_then (map_err (\<lambda>e. (Some ''failed to create rodio sink'', e)) (try_new handle)) (\<lambda>sink.
     Inr \<lparr> pl_sink = sink \<rparr>))"

definition push_pcm :: "('k, 'f) sink_ops \<Rightarrow> 'k player \<Rightarrow> 'f list \<Rightarrow> 'k player" where
  "push_pcm K player pcm = player\<lparr> pl_sink := sink_append K (pl_sink player) CHANNELS SAMPLE_RATE pcm \<rparr>"

partial_function (option) wait_until_below ::
  "('k, 'f) sink_ops \<Rightarrow> nat \<Rightarrow> 'k player \<Rightarrow> 'k player option" where
  "wait_until_below K threshold player =
     (if threshold \<le> sink_len K (pl_sink player)
      then wait_until_below K threshold (player\<lparr> pl_sink := sink_after K (pl_sink player) POLL_INTERVAL \<rparr>)
      else Some player)"

definition wait_drained :: "('k, 'f) sink_ops \<Rightarrow> 'k player \<Rightarrow> 'k player" where
  "wait_drained K player = player\<lparr> pl_sink := sink_sleep_until_end K (pl_sink player) \<rparr>"

text \<open>
  What the sink does: appended buffers are queued and played in order, time shortens the
  queue and empties it in the end.  \<open>played\<close> is everything that was ever appended.
\<close>

locale audio_sink =
  fixes K :: "('k, 'f) sink_ops"
    and played :: "'k \<Rightarrow> 'f list list"
  assumes append_len: "sink_len K (sink_append K s c r pcm) = Suc (sink_len K s)"
    and append_played: "played (sink_append K s c r pcm) = played s @ [pcm]"
    and after_played: "played (sink_after K s d) = played s"
    and after_len: "sink_len K (sink_after K s d) \<le> sink_len K s"
    and after_shrinks: "0 < d \<Longrightarrow> 0 < sink_len K s \<Longrightarrow>
      \<exists>n. sink_len K (((\<lambda>s. sink_after K s d) ^^ n) s) < sink_len K s"
    and drained: "sink_len K (sink_sleep_until_end K s) = 0" "played (sink_sleep_until_end K s) = played s"
begin

definition given :: "'k player \<Rightarrow> 'f list list" where
  "given player = played (pl_sink player)"

lemma given_push: "given (push_pcm K player pcm) = given player @ [pcm]"
  by (simp add: given_def push_pcm_def append_played)

lemma polls_len: "sink_len K (((\<lambda>s. sink_after K s d) ^^ n) s) \<le> sink_len K s"
  by (induction n) (auto intro: order_trans [OF after_len])

text \<open>Waiting for room ends, with the queue below the threshold and nothing lost.\<close>

lemma wait_step:
  "wait_until_below K t player =
     (if t \<le> sink_len K (pl_sink player)
      then wait_until_below K t (player\<lparr> pl_sink := sink_after K (pl_sink player) POLL_INTERVAL \<rparr>)
      else Some player)"
  by (rule wait_until_below.simps)

lemma wait_polls:
  "\<forall>m < n. t \<le> sink_len K (((\<lambda>s. sink_after K s POLL_INTERVAL) ^^ m) (pl_sink player)) \<Longrightarrow>
   wait_until_below K t player =
     wait_until_below K t (player\<lparr> pl_sink := ((\<lambda>s. sink_after K s POLL_INTERVAL) ^^ n) (pl_sink player) \<rparr>)"
proof (induction n)
  case (Suc n)
  let ?p = "player\<lparr> pl_sink := ((\<lambda>s. sink_after K s POLL_INTERVAL) ^^ n) (pl_sink player) \<rparr>"
  have "wait_until_below K t player = wait_until_below K t ?p" using Suc by simp
  also have "t \<le> sink_len K (pl_sink ?p)" using Suc.prems by simp
  then have "wait_until_below K t ?p = wait_until_below K t (?p\<lparr> pl_sink := sink_after K (pl_sink ?p) POLL_INTERVAL \<rparr>)"
    by (simp add: wait_step [of t ?p])
  finally show ?case by simp
qed simp

lemma polls_reach:
  assumes "0 < t"
  shows "\<exists>n. sink_len K (((\<lambda>s. sink_after K s POLL_INTERVAL) ^^ n) s) < t"
proof (induction "sink_len K s" arbitrary: s rule: less_induct)
  case less
  show ?case
  proof (cases "sink_len K s < t")
    case True
    then show ?thesis by (intro exI [of _ 0]) simp
  next
    case False
    then obtain m where m: "sink_len K (((\<lambda>s. sink_after K s POLL_INTERVAL) ^^ m) s) < sink_len K s"
      using after_shrinks [of POLL_INTERVAL s] assms by (auto simp: POLL_INTERVAL_def)
    then obtain n where "sink_len K (((\<lambda>s. sink_after K s POLL_INTERVAL) ^^ n)
        (((\<lambda>s. sink_after K s POLL_INTERVAL) ^^ m) s)) < t"
      using less by blast
    then show ?thesis by (intro exI [of _ "n + m"]) (simp add: funpow_add)
  qed
qed

lemma polls_played: "played (((\<lambda>s. sink_after K s d) ^^ n) s) = played s"
  by (induction n) (simp_all add: after_played)

lemma wait_until_below_ends:
  assumes "0 < t"
  obtains player' where "wait_until_below K t player = Some player'"
    and "sink_len K (pl_sink player') < t" and "sink_len K (pl_sink player') \<le> sink_len K (pl_sink player)"
    and "given player' = given player"
proof -
  let ?len = "\<lambda>n. sink_len K (((\<lambda>s. sink_after K s POLL_INTERVAL) ^^ n) (pl_sink player))"
  define n where "n = (LEAST n. ?len n < t)"
  have least: "?len n < t" "\<forall>m < n. t \<le> ?len m"
    using LeastI_ex [OF polls_reach [OF assms, of "pl_sink player"]] not_less_Least [of _ "\<lambda>n. ?len n < t"]
    by (auto simp: n_def not_less)
  let ?p = "player\<lparr> pl_sink := ((\<lambda>s. sink_after K s POLL_INTERVAL) ^^ n) (pl_sink player) \<rparr>"
  have "wait_until_below K t player = Some ?p"
    using wait_polls [OF least(2)] least(1) by (simp add: wait_step [of t ?p])
  then show thesis using least(1) by (intro that [of ?p]) (simp_all add: polls_len given_def polls_played)
qed

end

text \<open>A sink that plays one buffer per millisecond that passes, or part of one.\<close>

definition steady_sink :: "(nat \<times> 'f list list, 'f) sink_ops" where
  "steady_sink = \<lparr> sink_len = fst, sink_append = \<lambda>(n, h) c r pcm. (Suc n, h @ [pcm]),
     sink_after = \<lambda>(n, h) d. (n - (d + 10 ^ 6 - 1) div 10 ^ 6, h), sink_sleep_until_end = \<lambda>(n, h). (0, h) \<rparr>"

interpretation steady: audio_sink steady_sink snd
proof
  fix s :: "nat \<times> 'f list list" and c r d :: nat and pcm :: "'f list"
  show "sink_len steady_sink (sink_append steady_sink s c r pcm) = Suc (sink_len steady_sink s)"
    "snd (sink_append steady_sink s c r pcm) = snd s @ [pcm]"
    "snd (sink_after steady_sink s d) = snd s"
    "sink_len steady_sink (sink_after steady_sink s d) \<le> sink_len steady_sink s"
    "sink_len steady_sink (sink_sleep_until_end steady_sink s) = 0"
    "snd (sink_sleep_until_end steady_sink s) = snd s"
    by (cases s; simp add: steady_sink_def)+
  assume "0 < d" "0 < sink_len steady_sink s"
  then have "sink_len steady_sink (sink_after steady_sink s d) < sink_len steady_sink s"
    by (cases s) (simp add: steady_sink_def div_greater_zero_iff)
  then show "\<exists>n. sink_len steady_sink (((\<lambda>s. sink_after steady_sink s d) ^^ n) s) < sink_len steady_sink s"
    by (intro exI [of _ 1]) simp
qed

section \<open>Playing the unreliable stream\<close>

definition FRAME_MS :: u64 where "FRAME_MS = 20"

definition PLAYOUT_DELAY_MS :: u64 where "PLAYOUT_DELAY_MS = 100"

text \<open>What the jitter buffer's receive call under its timeout makes of the stream's calls.\<close>

fun received_event :: "chunk option option \<Rightarrow> jitter_event" where
  "received_event None = ReceiveElapsed"
| "received_event (Some (Some chunk)) = FrameReceived chunk"
| "received_event (Some None) = StreamEnded"

fun timed_recvs ::
  "unreliable_recv \<Rightarrow> credit_coordinator \<Rightarrow> ((bool \<times> bool) \<times> unreliable_event) list list \<Rightarrow>
   unreliable_recv \<times> credit_coordinator \<times> recv_effect list \<times> jitter_event list" where
  "timed_recvs u c [] = (u, c, [], [])"
| "timed_recvs u c (call # calls) =
     (case unreliable_recv_call u c call of
        (u, c, es, value) \<Rightarrow>
          (case timed_recvs u c calls of
             (u, c, es', events) \<Rightarrow> (u, c, es @ es', received_event value # events)))"

text \<open>
  The loop of \<open>play_unreliable\<close>; the flag tells whether the loop was left or waits for
  more events.  The end and an error both leave it.
\<close>

partial_function (option) play_jitter ::
  "bool \<Rightarrow> ('d, 's :: zero) opus_ops \<Rightarrow> ('k, 's) sink_ops \<Rightarrow> 'k player \<Rightarrow> 'd jitter_buffer \<Rightarrow>
   jitter_event list \<Rightarrow> ('k player \<times> bool) outcome option" where
  "play_jitter overflow_checks ops K player J events =
     Option.bind (wait_until_below K MAX_QUEUED_FRAMES player) (\<lambda>player.
       case yield_pcm overflow_checks ops J events of
         Panic \<Rightarrow> Some Panic
       | Done (J, events, result) \<Rightarrow>
           (case result of
              None \<Rightarrow> Some (Done (player, False))
            | Some (Inl e) \<Rightarrow> Some (Done (player, True))
            | Some (Inr None) \<Rightarrow> Some (Done (player, True))
            | Some (Inr (Some pcm)) \<Rightarrow>
                play_jitter overflow_checks ops K (push_pcm K player pcm) J events))"

definition play_unreliable ::
  "bool \<Rightarrow> ('d, 's :: zero) opus_ops \<Rightarrow> ('k, 's) sink_ops \<Rightarrow> string + 'd \<Rightarrow> 'k player \<Rightarrow>
   jitter_event list \<Rightarrow> (audio_error + 'k player \<times> bool) outcome option" where
  "play_unreliable overflow_checks ops K decoder player events =
     (case jitter_new decoder CHANNELS FRAME_MS PLAYOUT_DELAY_MS of
        Inl e \<Rightarrow> Some (Done (Inl (Some ''create jitter buffer'', e)))
      | Inr J \<Rightarrow>
          map_option (\<lambda>r. bind_outcome r (\<lambda>p. Done (Inr p)))
            (play_jitter overflow_checks ops K player J events))"

section \<open>Playing the reliable stream\<close>

text \<open>Samples are converted to floats (\<open>conv\<close>) and pushed, decoded chunk by decoded chunk.\<close>

fun play_chunks ::
  "('k, 'f) sink_ops \<Rightarrow> ('s \<Rightarrow> 'f) \<Rightarrow> 'k player \<Rightarrow> 's list list \<Rightarrow> 'k player option" where
  "play_chunks K conv player [] = Some player"
| "play_chunks K conv player (chunk # chunks) =
     Option.bind (wait_until_below K MAX_QUEUED_FRAMES player) (\<lambda>player.
       play_chunks K conv (push_pcm K player (map conv chunk)) chunks)"

text \<open>
  The loop over what \<open>recv\<close> of the decoder returns: an error is returned, \<open>None\<close> ends the
  loop.  The last component is \<open>None\<close> while it waits for the stream.
\<close>

fun play_decoded ::
  "('d, 's :: zero) opus_ops \<Rightarrow> ('k, 'f) sink_ops \<Rightarrow> ('s \<Rightarrow> 'f) \<Rightarrow> 'k player \<Rightarrow> 'd \<Rightarrow>
   chunk list option list \<Rightarrow> ('k player \<times> (audio_error + unit) option) option" where
  "play_decoded ops K conv player d [] = Some (player, None)"
| "play_decoded ops K conv player d (received # rs) =
     (case opus_recv ops CHANNELS d received of
        (d, Inl e) \<Rightarrow> Some (player, Some (Inl (None, e)))
      | (d, Inr None) \<Rightarrow> Some (player, Some (Inr ()))
      | (d, Inr (Some chunks)) \<Rightarrow>
          Option.bind (play_chunks K conv player chunks) (\<lambda>player.
            play_decoded ops K conv player d rs))"

definition play_reliable ::
  "('d, 's :: zero) opus_ops \<Rightarrow> ('k, 'f) sink_ops \<Rightarrow> ('s \<Rightarrow> 'f) \<Rightarrow> string + 'd \<Rightarrow> 'k player \<Rightarrow>
   chunk list option list \<Rightarrow> ('k player \<times> (audio_error + unit) option) option" where
  "play_reliable ops K conv decoder player received =
     (case decoder of
        Inl e \<Rightarrow> Some (player, Some (Inl (Some ''create opus decoder'', e)))
      | Inr d \<Rightarrow> play_decoded ops K conv player d received)"

text \<open>The unreliable half of a dual transfer is read and dropped until it ends; the flag tells
  whether it has.\<close>

fun drain_unreliable ::
  "unreliable_recv \<Rightarrow> credit_coordinator \<Rightarrow> ((bool \<times> bool) \<times> unreliable_event) list list \<Rightarrow>
   unreliable_recv \<times> credit_coordinator \<times> recv_effect list \<times> bool" where
  "drain_unreliable u c [] = (u, c, [], False)"
| "drain_unreliable u c (call # calls) =
     (case unreliable_recv_call u c call of
        (u, c, es, Some (Some chunk)) \<Rightarrow>
          (case drain_unreliable u c calls of (u, c, es', over) \<Rightarrow> (u, c, es @ es', over))
      | (u, c, es, Some None) \<Rightarrow> (u, c, es, True)
      | (u, c, es, None) \<Rightarrow> (u, c, es, False))"

section \<open>What the player is given\<close>

context audio_sink
begin

lemma room: "0 < MAX_QUEUED_FRAMES"
  by (simp add: MAX_QUEUED_FRAMES_def)

text \<open>After a push the queue holds at most \<open>MAX_QUEUED_FRAMES\<close> buffers.\<close>

lemma push_bounded:
  assumes "wait_until_below K MAX_QUEUED_FRAMES player = Some player'"
  shows "sink_len K (pl_sink (push_pcm K player' pcm)) \<le> MAX_QUEUED_FRAMES"
proof -
  obtain p where "wait_until_below K MAX_QUEUED_FRAMES player = Some p" "sink_len K (pl_sink p) < MAX_QUEUED_FRAMES"
    using wait_until_below_ends [OF room] by metis
  with assms show ?thesis by (simp add: push_pcm_def append_len)
qed

lemma play_chunks_given:
  "\<exists>player'. play_chunks K conv player chunks = Some player' \<and>
     given player' = given player @ map (map conv) chunks"
proof (induction chunks arbitrary: player)
  case (Cons chunk chunks)
  obtain p where "wait_until_below K MAX_QUEUED_FRAMES player = Some p" "given p = given player"
    by (rule wait_until_below_ends [OF room])
  then show ?case using Cons.IH [of "push_pcm K p (map conv chunk)"] by (auto simp: given_push)
qed simp

lemma play_decoded_given:
  assumes "decode_all ops CHANNELS d (map chunk_content (concat batches)) = Some (d', pcms)"
  shows "\<exists>player'. play_decoded ops K conv player d (map Some batches @ [None]) = Some (player', Some (Inr ())) \<and>
     given player' = given player @ map (map conv) pcms"
  using assms
proof (induction batches arbitrary: d player pcms)
  case Nil
  then show ?case by (simp add: opus_recv_def)
next
  case (Cons b batches)
  obtain d1 pcms1 pcms2 where
    first: "decode_all ops CHANNELS d (map chunk_content b) = Some (d1, pcms1)"
    and rest: "decode_all ops CHANNELS d1 (map chunk_content (concat batches)) = Some (d', pcms2)"
    and pcms: "pcms = pcms1 @ pcms2"
    using Cons.prems by (auto simp: decode_all_append split: option.splits)
  obtain p where p: "play_chunks K conv player pcms1 = Some p" "given p = given player @ map (map conv) pcms1"
    using play_chunks_given by blast
  from Cons.IH [OF rest, of p] p opus_recv_all [OF first] show ?case by (auto simp: pcms)
qed

end

text \<open>The loop over the jitter buffer pushes what the calls yield, up to the end.\<close>

lemma play_jitter_given:
  fixes K :: "('k, 's :: zero) sink_ops"
  assumes sink: "audio_sink K played"
    and "yield_session oc ops (Suc (length pcms)) J events =
      Done (map (\<lambda>pcm. Some (Inr (Some pcm))) pcms @ [Some (Inr None)])"
  shows "\<exists>player'. play_jitter oc ops K player J events = Some (Done (player', True)) \<and>
     played (pl_sink player') = played (pl_sink player) @ pcms"
  using assms(2)
proof (induction pcms arbitrary: player J events)
  case Nil
  then obtain J' es where "yield_pcm oc ops J events = Done (J', es, Some (Inr None))" by auto
  moreover obtain p where "wait_until_below K MAX_QUEUED_FRAMES player = Some p"
    "played (pl_sink p) = played (pl_sink player)"
    by (rule audio_sink.wait_until_below_ends [OF sink audio_sink.room [OF sink], of player])
      (simp add: audio_sink.given_def [OF sink])
  ultimately show ?case by (simp add: play_jitter.simps [of oc ops K player J events])
next
  case (Cons pcm pcms)
  then obtain J' es where one: "yield_pcm oc ops J events = Done (J', es, Some (Inr (Some pcm)))"
    and rest: "yield_session oc ops (Suc (length pcms)) J' es =
      Done (map (\<lambda>pcm. Some (Inr (Some pcm))) pcms @ [Some (Inr None)])"
    by (auto simp del: yield_session.simps simp: yield_session.simps(2) [of oc ops "Suc (length pcms)"])
  obtain p where p: "wait_until_below K MAX_QUEUED_FRAMES player = Some p"
    "played (pl_sink p) = played (pl_sink player)"
    by (rule audio_sink.wait_until_below_ends [OF sink audio_sink.room [OF sink], of player])
      (simp add: audio_sink.given_def [OF sink])
  from Cons.IH [OF rest, of "push_pcm K p pcm"] obtain player' where
    "play_jitter oc ops K (push_pcm K p pcm) J' es = Some (Done (player', True))"
    "played (pl_sink player') = played (pl_sink player) @ pcm # pcms"
    using audio_sink.given_push [OF sink, of p pcm] p(2) by (auto simp: audio_sink.given_def [OF sink])
  then show ?case using one p(1) by (simp add: play_jitter.simps [of oc ops K player J events])
qed

end
