(* ===== verification/Tail_Loss.thy ===== *)
theory Tail_Loss
  imports Loss_Recovery
begin

text \<open>
  Where the end of a transfer is missed.  When the datagrams of the last sends are lost, only
  the arrival of a later packet would make the reliable stream look for gaps, the announced
  end does not.  When nothing was sent, the end only reaches a reliable stream that is waiting
  for it.
\<close>

lemma session_waits_for_tail:
  assumes "caught_up r n d" and "d \<le> seq_nat f"
  shows "recv_session oc r c [PipelineCommand (PipelineEndTransfer f)] =
       Done (r\<lparr> rr_pending_end := Some f \<rparr>, c, [], [], False) \<and>
     \<not> end_reached (r\<lparr> rr_pending_end := Some f \<rparr>)"
proof -
  have "\<not> end_reached r" using assms(1) by (simp add: end_reached_def caught_up_def)
  moreover have "\<not> end_reached (r\<lparr> rr_pending_end := Some f \<rparr>)"
    using assms by (simp add: end_reached_def caught_up_def seq_less_nat flip: asm_next_def)
  ultimately show ?thesis by (simp add: recv_session_Cons recv_session_Nil)
qed

lemma final_of_history:
  assumes "content_run B Sem (send_stream_new sid Dual cmp (SequenceNumber 0) k Map.empty mtu) hist s"
    and "hist \<noteq> []" and "length hist < 2 ^ 32"
  shows "seq_nat (stream_final_sequence_number s) = length hist - 1"
proof -
  have "ss_sequence_counter (send_stream_new sid Dual cmp (SequenceNumber 0) k Map.empty mtu) = SequenceNumber 0"
    by (simp add: send_stream_new_def)
  with content_run_send_run [OF assms(1)]
  have "send_run B Sem (send_stream_new sid Dual cmp (SequenceNumber 0) k Map.empty mtu)
      (numbered (SequenceNumber 0) hist) s" by simp
  from send_run_final [OF this]
  have "stream_final_sequence_number s = SequenceNumber (of_nat (length hist) - 1)"
    by (simp add: nth_seq_def numbered_def)
  also have "of_nat (length hist) - 1 = (of_nat (length hist - 1) :: u32)"
    using assms(2) by (cases hist) simp_all
  finally show ?thesis using assms(3) by (simp add: seq_nat_of_nat)
qed

text \<open>
  The end notification of the task.  As documented, \<open>Notify::notify_waiters\<close> wakes the calls
  that are waiting and is not kept for later ones: the event the reliable stream sees.
\<close>

definition notify_waiters :: "bool \<Rightarrow> recv_event list" where
  "notify_waiters waiting = (if waiting then [EndNotified] else [])"

lemma session_notified:
  assumes "\<not> end_reached r"
  shows "\<exists>r' c' es. recv_session oc r c (notify_waiters waiting) = Done (r', c', es, [], waiting)"
  using assms by (simp add: notify_waiters_def recv_session_Nil recv_session_Cons split: prod.split)

section \<open>Properties\<close>





end
