(* ===== verification/Test_Peer.thy ===== *)
theory Test_Peer
  imports Endpoint Peer_Audio Tail_Loss
begin

text \<open>
  The test peer, \<^verbatim>\<open>src/crates/pf2-test/src\<close>: a client that streams the packets of an Ogg
  file and a server that plays them, composed of the library's operations as they are modelled
  in the other theories.  The command line (\<^verbatim>\<open>cli.rs\<close>), the certificate files
  (\<^verbatim>\<open>cert.rs\<close>), the client (\<^verbatim>\<open>client.rs\<close>) and the server (\<^verbatim>\<open>server.rs\<close>, whose loops
  are in \<open>Peer_Audio\<close>).
\<close>

section \<open>The command line\<close>

datatype app_mode = ReliableMode | UnreliableMode

datatype 'addr peer_command =
    ServerCommand 'addr app_mode
  | ClientCommand 'addr string app_mode

fun transfer_mode_of :: "app_mode \<Rightarrow> transfer_mode" where
  "transfer_mode_of ReliableMode = Dual"
| "transfer_mode_of UnreliableMode = UnreliableOnly"

fun show_mode :: "app_mode \<Rightarrow> string" where
  "show_mode ReliableMode = ''Reliable''"
| "show_mode UnreliableMode = ''Unreliable''"

section \<open>Errors\<close>

text \<open>An \<open>anyhow\<close> error: the context added to it, if any, and the error it wraps.\<close>

datatype app_cause =
    NoCause
  | LibraryCause string
  | ConnectionCause protofish_connection_error
  | StreamCause mani_stream_error
  | SendCause transfer_send_error

datatype app_error = AppError "string option" app_cause

definition with_context :: "string \<Rightarrow> ('e \<Rightarrow> app_cause) \<Rightarrow> 'e + 'a \<Rightarrow> app_error + 'a" where
  "with_context ctx wrap = map_err (\<lambda>e. AppError (Some ctx) (wrap e))"

fun audio_cause :: "audio_error \<Rightarrow> app_error" where
  "audio_cause (ctx, e) = AppError ctx (LibraryCause e)"

lemma with_context_eq_Inr [simp]: "with_context ctx wrap r = Inr a \<longleftrightarrow> r = Inr a"
  by (simp add: with_context_def)

section \<open>Certificate files\<close>

text \<open>
  The file system, \<open>rcgen\<close> and \<open>rustls_pemfile\<close> are parameters: writing and reading whole
  files, the generated certificate in its formats, and the certificates of a PEM text.
\<close>

record ('fs, 'g, 'cert, 'key) peer_libs =
  fs_write :: "'fs \<Rightarrow> string \<Rightarrow> string \<Rightarrow> (string + unit) \<times> 'fs"
  fs_open :: "'fs \<Rightarrow> string \<Rightarrow> string + string"
  show_path :: "string \<Rightarrow> string"
  generate_self_signed :: "string list \<Rightarrow> string + 'g"
  cert_pem :: "'g \<Rightarrow> string"
  key_pem :: "'g \<Rightarrow> string"
  cert_der :: "'g \<Rightarrow> 'cert"
  key_der :: "'g \<Rightarrow> 'key"
  pem_certs :: "string \<Rightarrow> (string + 'cert) list"

definition CERT_PATH :: string where "CERT_PATH = ''cert.pem''"

definition KEY_PATH :: string where "KEY_PATH = ''key.pem''"

definition write_self_signed ::
  "('fs, 'g, 'cert, 'key) peer_libs \<Rightarrow> 'fs \<Rightarrow> (app_error + 'cert list \<times> 'key) \<times> 'fs" where
  "write_self_signed P fs =
     (case with_context ''generate self-signed cert'' LibraryCause (generate_self_signed P [''localhost'']) of
        Inl e \<Rightarrow> (Inl e, fs)
      | Inr cert \<Rightarrow>
          (case fs_write P fs CERT_PATH (cert_pem P cert) of
             (Inl e, fs) \<Rightarrow> (Inl (AppError (Some (''write '' @ CERT_PATH)) (LibraryCause e)), fs)
           | (Inr _, fs) \<Rightarrow>
               (case fs_write P fs KEY_PATH (key_pem P cert) of
                  (Inl e, fs) \<Rightarrow> (Inl (AppError (Some (''write '' @ KEY_PATH)) (LibraryCause e)), fs)
                | (Inr _, fs) \<Rightarrow> (Inr ([cert_der P cert], key_der P cert), fs))))"

text \<open>Collecting an iterator of results stops at the first error.\<close>

fun collect_results :: "('e + 'a) list \<Rightarrow> 'e + 'a list" where
  "collect_results [] = Inr []"
| "collect_results (r # rs) = and_then r (\<lambda>a. and_then (collect_results rs) (\<lambda>as. Inr (a # as)))"

definition load_cert_chain ::
  "('fs, 'g, 'cert, 'key) peer_libs \<Rightarrow> 'fs \<Rightarrow> string \<Rightarrow> app_error + 'cert list" where
  "load_cert_chain P fs path =
     and_then (with_context (''open '' @ show_path P path) LibraryCause (fs_open P fs path)) (\<lambda>reader.
     and_then (with_context (''parse certs in '' @ show_path P path) LibraryCause
         (collect_results (pem_certs P reader))) (\<lambda>chain.
     if chain = [] then Inl (AppError (Some (''no certificates found in '' @ show_path P path)) NoCause)
     else Inr chain))"

section \<open>Configuration\<close>

definition peer_protofish_config :: protofish_config where
  "peer_protofish_config = protofish_config_default
     \<lparr> pf_mani_config := mani_config_default
         \<lparr> initial_backpressure_credits := 10, backpressure_credit_batch_size := 1 \<rparr> \<rparr>"

text \<open>\<open>any_address\<close> is the parsed \<^verbatim>\<open>0.0.0.0:0\<close>.\<close>

definition peer_client_setup :: "'addr \<Rightarrow> 'cert list \<Rightarrow> ('cert, 'addr) client_setup" where
  "peer_client_setup any_address root_certificates =
     \<lparr> cc_supported_compression_types = [Uncompressed],
       cc_keepalive_range = (from_secs 1, from_secs 10), cc_protofish_config = peer_protofish_config,
       cc_bind_address = any_address, cc_root_certificates = root_certificates \<rparr>"

definition peer_server_setup :: "'addr \<Rightarrow> 'cert list \<Rightarrow> 'key \<Rightarrow> ('cert, 'key, 'addr) server_setup" where
  "peer_server_setup bind cert_chain private_key =
     \<lparr> sc_supported_compression_types = [Uncompressed], sc_keepalive_interval = from_secs 5,
       sc_protofish_config = peer_protofish_config, sc_bind_address = bind,
       sc_cert_chain = cert_chain, sc_private_key = private_key \<rparr>"

section \<open>The client\<close>

definition byte_str :: "string \<Rightarrow> bytes" where
  "byte_str = map of_char"

definition opus_header :: "bytes \<Rightarrow> bool" where
  "opus_header data \<longleftrightarrow> take 8 data = byte_str ''OpusHead'' \<or> take 8 data = byte_str ''OpusTags''"

text \<open>
  Reading and sending the packets.  An item is what the reader gives, with the connection's
  answers and the credit bank the \<open>send\<close> of that packet meets; no more items is the end of
  the file.  Beside the stream the loop gives the history of the calls that succeeded; the
  last component is \<open>None\<close> while a \<open>send\<close> waits for credits.
\<close>

fun stream_ogg ::
  "bool \<Rightarrow> buf_ops \<Rightarrow> 's semaphore_ops \<Rightarrow> send_stream \<Rightarrow> u64 \<Rightarrow> u64 \<Rightarrow>
   ((string + bytes) \<times> (nat \<Rightarrow> bytes \<Rightarrow> string + unit) \<times> 's backpressure_bank) list \<Rightarrow>
   (send_stream \<times> (timestamp \<times> bytes \<times> bytes list) list \<times> (app_error + u64) option) outcome" where
  "stream_ogg overflow_checks B S transfer timestamp_ms sent [] = Done (transfer, [], Some (Inr sent))"
| "stream_ogg overflow_checks B S transfer timestamp_ms sent ((packet, tx, bank) # items) =
     (case with_context ''read ogg packet'' LibraryCause packet of
        Inl e \<Rightarrow> Done (transfer, [], Some (Inl e))
      | Inr data \<Rightarrow>
          if opus_header data then stream_ogg overflow_checks B S transfer timestamp_ms sent items
          else
            bind_outcome (send B S tx transfer bank (Timestamp timestamp_ms) data) (\<lambda>r.
              case r of
                AwaitingCredit n bank \<Rightarrow> Done (transfer, [], None)
              | Returned transfer bank datagrams result \<Rightarrow>
                  (case with_context ''send packet'' SendCause result of
                     Inl e \<Rightarrow> Done (transfer, [], Some (Inl e))
                   | Inr _ \<Rightarrow>
                       if overflow_checks \<and>
                          (2 ^ 64 \<le> unat timestamp_ms + unat FRAME_MS \<or> 2 ^ 64 \<le> unat sent + 1) then Panic
                       else
                         bind_outcome
                           (stream_ogg overflow_checks B S transfer (timestamp_ms + FRAME_MS) (sent + 1) items)
                           (\<lambda>(transfer, hist, r).
                             Done (transfer, (Timestamp timestamp_ms, data, datagrams) # hist, r)))))"

text \<open>What the outside answers: the QUIC connection and stream, the task's channels, the file.\<close>

record ('q, 'addr, 's) client_env =
  cl_any_address :: 'addr
  cl_connect :: "'q connect_env"
  cl_shown :: "string \<Rightarrow> string"
  cl_open_bi :: "string + quic_stream_id"
  cl_start :: stream_env
  cl_start_sent :: bool
  cl_start_replied :: bool
  cl_file :: "string + ((string + bytes) \<times> (nat \<Rightarrow> bytes \<Rightarrow> string + unit) \<times> 's backpressure_bank) list"
  cl_response :: response_id
  cl_end_sent :: bool
  cl_end_reply :: "(transfer_send_error + unit) option"

definition client_open ::
  "('cert, 'key, 'addr, 'l) quic_libs \<Rightarrow> ('fs, 'g, 'cert, 'key) peer_libs \<Rightarrow> buf_ops \<Rightarrow> compression_libs \<Rightarrow>
   's semaphore_ops \<Rightarrow> 'fs \<Rightarrow> ('q, 'addr, 's) client_env \<Rightarrow> app_mode \<Rightarrow>
   (app_error + 's stream_task \<times> send_stream) outcome" where
  "client_open Q P B L S fs env mode =
     (case load_cert_chain P fs CERT_PATH of
        Inl e \<Rightarrow> Done (Inl e)
      | Inr root_certificates \<Rightarrow>
          bind_outcome (client_bind Q (peer_client_setup (cl_any_address env) root_certificates)) (\<lambda>bound.
            case and_then (with_context ''bind client'' ConnectionCause bound) (\<lambda>client.
                   with_context ''connect'' ConnectionCause
                     (connect_connection (cl_connect env) (cl_shown env)
                        (client_config.truncate (pe_config client)) (byte_str ''localhost'') Map.empty ::
                      protofish_connection_error + ('q, nat) protofish_connection \<times> duration \<times> duration))
            of
              Inl e \<Rightarrow> Done (Inl e)
            | Inr (conn, keepalive) \<Rightarrow>
                bind_outcome (open_mani S conn (cl_open_bi env)) (\<lambda>opened. Done
                  (and_then (with_context ''open mani'' ConnectionCause opened) (\<lambda>task.
                     case start_transfer_internal B L (cl_start env) task (transfer_mode_of mode) Uncompressed
                            (SequenceNumber 0) None of
                       (task, effects, result) \<Rightarrow>
                         map_sum id (\<lambda>transfer. (task, transfer))
                           (with_context ''start transfer'' SendCause
                              (handle_start_transfer (cl_start_sent env)
                                 (if cl_start_replied env then Some result else None))))))))"

text \<open>
  The run: the history, the commands for the stream's task (a transfer that is dropped on an
  error still ends) and the result.
\<close>

definition client_run ::
  "bool \<Rightarrow> ('cert, 'key, 'addr, 'l) quic_libs \<Rightarrow> ('fs, 'g, 'cert, 'key) peer_libs \<Rightarrow> buf_ops \<Rightarrow> compression_libs \<Rightarrow>
   's semaphore_ops \<Rightarrow> 'fs \<Rightarrow> ('q, 'addr, 's) client_env \<Rightarrow> app_mode \<Rightarrow>
   ((timestamp \<times> bytes \<times> bytes list) list \<times> transfer_send_command list \<times> (app_error + unit) option) outcome" where
  "client_run overflow_checks Q P B L S fs env mode =
     bind_outcome (client_open Q P B L S fs env mode) (\<lambda>r.
       case r of
         Inl e \<Rightarrow> Done ([], [], Some (Inl e))
       | Inr (task, transfer) \<Rightarrow>
           (case with_context ''open input file'' LibraryCause (cl_file env) of
              Inl e \<Rightarrow> Done ([], drop_stream transfer (cl_response env) (cl_end_sent env), Some (Inl e))
            | Inr items \<Rightarrow>
                bind_outcome (stream_ogg overflow_checks B S transfer 0 0 items) (\<lambda>(transfer, hist, r).
                  case r of
                    None \<Rightarrow> Done (hist, [], None)
                  | Some (Inl e) \<Rightarrow>
                      Done (hist, drop_stream transfer (cl_response env) (cl_end_sent env), Some (Inl e))
                  | Some (Inr sent) \<Rightarrow>
                      (case end_stream transfer (cl_response env) (cl_end_sent env) (cl_end_reply env) of
                         (transfer, commands, result) \<Rightarrow>
                           Done (hist, commands, Some (with_context ''end transfer'' SendCause result))))))"

section \<open>The server\<close>

fun describe_transfer :: "mani_transfer_recv_streams \<Rightarrow> string" where
  "describe_transfer (DualStreams reliable unreliable) = ''Dual (reliable)''"
| "describe_transfer (UnreliableOnlyStreams unreliable) = ''UnreliableOnly''"

record ('q, 'addr, 'o, 'k, 'd) server_env =
  sv_local_addr :: "string + 'addr"
  sv_incoming :: "'q option"
  sv_accept :: "'q accept_env"
  sv_accept_bi :: "string + quic_stream_id"
  sv_message :: "mani_recv_message option"
  sv_output :: "string + 'o"
  sv_sink :: "'o \<Rightarrow> string + 'k"
  sv_decoder :: "string + 'd"

text \<open>Up to the player: the transfer's streams, or the first error.\<close>

definition server_open ::
  "('cert, 'key, 'addr, 'l) quic_libs \<Rightarrow> ('fs, 'g, 'cert, 'key) peer_libs \<Rightarrow> 's semaphore_ops \<Rightarrow> 'fs \<Rightarrow>
   ('q, 'addr, 'o, 'k, 'd) server_env \<Rightarrow> 'addr \<Rightarrow>
   ((app_error + mani_transfer_recv_streams \<times> 'k player) \<times> 'fs) outcome" where
  "server_open Q P S fs env bind =
     (case write_self_signed P fs of
        (Inl e, fs) \<Rightarrow> Done (Inl e, fs)
      | (Inr (cert_chain, private_key), fs) \<Rightarrow>
          bind_outcome (server_bind Q (peer_server_setup bind cert_chain private_key)) (\<lambda>bound.
            case
              and_then (with_context ''bind server'' ConnectionCause bound) (\<lambda>server.
              and_then (map_err (\<lambda>e. AppError None (LibraryCause e)) (sv_local_addr env)) (\<lambda>addr.
              and_then (ok_or (AppError (Some ''no incoming connection'') NoCause)
                  (server_accept server (sv_incoming env))) (\<lambda>incoming.
              with_context ''accept connection'' ConnectionCause
                (accept_connection (sv_accept env) (server_config.truncate (ic_server_config incoming)) ::
                 protofish_connection_error + ('q, nat) protofish_connection \<times> duration \<times> duration))))
            of
              Inl e \<Rightarrow> Done (Inl e, fs)
            | Inr (conn, keepalive) \<Rightarrow>
                bind_outcome (accept_mani S conn (sv_accept_bi env)) (\<lambda>accepted. Done
                  (and_then (with_context ''accept mani'' ConnectionCause accepted) (\<lambda>task.
                   and_then (with_context ''accept transfer'' StreamCause (accept_transfer (sv_message env))) (\<lambda>transfer.
                   and_then (map_err audio_cause (player_new (sv_output env) (sv_sink env))) (\<lambda>player.
                   Inr (transfer, player)))), fs))))"

text \<open>
  The transfer is played in the mode of the command line; the streams' later events are
  given.  The result is missing while the server waits.
\<close>

definition server_play ::
  "bool \<Rightarrow> ('d, 'f :: zero) opus_ops \<Rightarrow> ('d, 'i :: zero) opus_ops \<Rightarrow> ('k, 'f) sink_ops \<Rightarrow> ('i \<Rightarrow> 'f) \<Rightarrow>
   string + 'd \<Rightarrow> app_mode \<Rightarrow> mani_transfer_recv_streams \<Rightarrow> 'k player \<Rightarrow> jitter_event list \<Rightarrow>
   chunk list option list \<Rightarrow> (app_error + 'k player) option outcome option" where
  "server_play overflow_checks float_ops int_ops K conv decoder mode transfer player events recvs =
     (case (mode, transfer) of
        (UnreliableMode, UnreliableOnlyStreams unreliable) \<Rightarrow>
          map_option (\<lambda>r. bind_outcome r (\<lambda>played. Done
            (case played of
               Inl e \<Rightarrow> Some (Inl (audio_cause e))
             | Inr (player, over) \<Rightarrow> if over then Some (Inr (wait_drained K player)) else None)))
            (play_unreliable overflow_checks float_ops K decoder player events)
      | (ReliableMode, DualStreams reliable unreliable) \<Rightarrow>
          map_option (\<lambda>(player, result). Done
            (case result of
               None \<Rightarrow> None
             | Some (Inl e) \<Rightarrow> Some (Inl (audio_cause e))
             | Some (Inr _) \<Rightarrow> Some (Inr (wait_drained K player))))
            (play_reliable int_ops K conv decoder player recvs)
      | _ \<Rightarrow> Some (Done (Some (Inl (AppError (Some (''mode/transfer mismatch: cli='' @ show_mode mode @
              '', peer sent '' @ describe_transfer transfer)) NoCause)))))"

definition server_run ::
  "bool \<Rightarrow> ('cert, 'key, 'addr, 'l) quic_libs \<Rightarrow> ('fs, 'g, 'cert, 'key) peer_libs \<Rightarrow> 's semaphore_ops \<Rightarrow>
   ('d, 'f :: zero) opus_ops \<Rightarrow> ('d, 'i :: zero) opus_ops \<Rightarrow> ('k, 'f) sink_ops \<Rightarrow> ('i \<Rightarrow> 'f) \<Rightarrow> 'fs \<Rightarrow>
   ('q, 'addr, 'o, 'k, 'd) server_env \<Rightarrow> 'addr \<Rightarrow> app_mode \<Rightarrow> jitter_event list \<Rightarrow> chunk list option list \<Rightarrow>
   ((app_error + 'k player) option \<times> 'fs) outcome option" where
  "server_run overflow_checks Q P S float_ops int_ops K conv fs env bind mode events recvs =
     (case server_open Q P S fs env bind of
        Panic \<Rightarrow> Some Panic
      | Done (Inl e, fs) \<Rightarrow> Some (Done (Some (Inl e), fs))
      | Done (Inr (transfer, player), fs) \<Rightarrow>
          map_option (\<lambda>r. bind_outcome r (\<lambda>result. Done (result, fs)))
            (server_play overflow_checks float_ops int_ops K conv (sv_decoder env) mode transfer player
               events recvs))"

section \<open>The program\<close>

definition peer_main ::
  "('addr \<Rightarrow> app_mode \<Rightarrow> 'r) \<Rightarrow> ('addr \<Rightarrow> app_mode \<Rightarrow> string \<Rightarrow> 'r) \<Rightarrow> 'addr peer_command \<Rightarrow> 'r" where
  "peer_main run_server run_client command =
     (case command of
        ServerCommand bind mode \<Rightarrow> run_server bind mode
      | ClientCommand addr file mode \<Rightarrow> run_client addr mode file)"

end
