(* ===== verification/Peer_Transfer.thy ===== *)
theory Peer_Transfer
  imports Test_Peer
begin

text \<open>
  What a run of the test peer does end to end: the client's calls of \<open>send\<close> carry the packets
  of the file at the pace of the clock, and the server plays them.
\<close>

section \<open>The client's calls\<close>

text \<open>The audio packets of what the reader gives.\<close>

definition audio_packets ::
  "((string + bytes) \<times> (nat \<Rightarrow> bytes \<Rightarrow> string + unit) \<times> 's backpressure_bank) list \<Rightarrow> bytes list" where
  "audio_packets items = filter (\<lambda>data. \<not> opus_header data) (concat (map (\<lambda>(packet, env).
     case packet of Inl e \<Rightarrow> [] | Inr data \<Rightarrow> [data]) items))"

lemma audio_packets_Nil [simp]: "audio_packets [] = []"
  by (simp add: audio_packets_def)

lemma audio_packets_Cons [simp]:
  "audio_packets ((Inr data, env) # items) =
     (if opus_header data then audio_packets items else data # audio_packets items)"
  by (simp add: audio_packets_def)

lemma content_run_Cons:
  assumes "send B S tx s0 bank ts content = Done (Returned s1 bank' sent (Inr ()))" and "length sent < 2 ^ 16"
    and "content_run B S s1 hist s"
  shows "content_run B S s0 ((ts, content, sent) # hist) s"
  using assms(3)
proof (induction rule: content_run.induct)
  case no_content
  then show ?case using content_run.more_content [OF content_run.no_content assms(1,2)] by simp
next
  case (more_content hist s tx bank ts content s' bank' sent)
  from content_run.more_content [OF more_content.IH more_content.hyps(2,3)] show ?case by simp
qed

lemma stream_ogg_run:
  assumes "stream_ogg oc B S s ts n items = Done (s', hist, Some (Inr n'))"
    and "\<forall>h \<in> set hist. length (snd (snd h)) < 2 ^ 16"
  shows "content_run B S s hist s' \<and> map (fst \<circ> snd) hist = audio_packets items \<and>
     (\<forall>i < length hist. fst (hist ! i) = Timestamp (ts + of_nat (i * 20))) \<and>
     n' = n + of_nat (length hist)"
  using assms
proof (induction items arbitrary: s ts n hist)
  case Nil
  then show ?case by (simp add: content_run.no_content)
next
  case (Cons item items)
  obtain packet tx bank where item: "item = (packet, tx, bank)" by (cases item)
  from Cons.prems(1) obtain data where data: "packet = Inr data"
    by (cases packet) (auto simp: item with_context_def)
  show ?case
  proof (cases "opus_header data")
    case True
    then show ?thesis using Cons by (simp add: item data with_context_def)
  next
    case False
    obtain s1 bank1 sent hist1 where
      send: "send B S tx s bank (Timestamp ts) data = Done (Returned s1 bank1 sent (Inr ()))"
      and rest: "stream_ogg oc B S s1 (ts + FRAME_MS) (n + 1) items = Done (s', hist1, Some (Inr n'))"
      and hist: "hist = (Timestamp ts, data, sent) # hist1"
    proof (cases "send B S tx s bank (Timestamp ts) data")
      case Panic
      then show ?thesis using Cons.prems(1) False by (simp add: item data with_context_def)
    next
      case (Done r)
      show ?thesis
      proof (cases r)
        case (Returned s1 bank1 sent result)
        then show ?thesis using Cons.prems(1) False Done that
          by (cases result) (auto simp: item data with_context_def split: if_splits)
      next
        case (AwaitingCredit m b)
        then show ?thesis using Cons.prems(1) False Done by (simp add: item data with_context_def)
      qed
    qed
    from Cons.prems(2) have short: "length sent < 2 ^ 16" "\<forall>h \<in> set hist1. length (snd (snd h)) < 2 ^ 16"
      by (simp_all add: hist)
    note IH = Cons.IH [OF rest short(2)]
    have "fst (hist ! i) = Timestamp (ts + of_nat (i * 20))" if "i < length hist" for i
      using IH that by (cases i) (simp_all add: hist FRAME_MS_def algebra_simps)
    with IH content_run_Cons [OF send short(1)] False show ?thesis by (simp add: item data hist)
  qed
qed

lemma start_transfer_stream:
  assumes "start_transfer_internal B L env task mode Uncompressed initial sz = (task', es, Inr transfer)"
  shows "\<exists>k mtu. transfer = send_stream_new (st_id task) mode NoCompression initial k Map.empty mtu"
  using assms by (auto simp: start_transfer_internal_def split: prod.splits sum.splits)

lemma open_mani_id:
  assumes "open_mani S conn opened = Done (Inr task)"
  shows "\<exists>i. opened = Inr i \<and> st_id task = mani_id_of i"
  using assms
  by (auto simp: open_mani_def new_mani_def stream_pair_def Let_def split: sum.splits if_splits)

lemma client_open_stream:
  fixes env :: "('q, 'addr, 's) client_env"
  assumes "client_open Q P B L S fs env mode = Done (Inr (task, transfer))"
  shows "\<exists>i k mtu. cl_open_bi env = Inr i \<and>
     transfer = send_stream_new (mani_id_of i) (transfer_mode_of mode) NoCompression (SequenceNumber 0) k Map.empty mtu"
proof -
  obtain roots where roots: "load_cert_chain P fs CERT_PATH = Inr roots"
    using assms by (cases "load_cert_chain P fs CERT_PATH") (simp_all add: client_open_def)
  obtain bound where bound: "client_bind Q (peer_client_setup (cl_any_address env) roots) = Done bound"
    using assms roots
    by (cases "client_bind Q (peer_client_setup (cl_any_address env) roots)") (simp_all add: client_open_def)
  let ?conn = "and_then (with_context ''bind client'' ConnectionCause bound) (\<lambda>client.
      with_context ''connect'' ConnectionCause
        (connect_connection (cl_connect env) (cl_shown env)
          (client_config.truncate (pe_config client)) (byte_str ''localhost'') Map.empty ::
         protofish_connection_error + ('q, nat) protofish_connection \<times> duration \<times> duration))"
  obtain conn keepalive where conn: "?conn = Inr (conn, keepalive)"
    using assms roots bound by (cases ?conn) (auto simp: client_open_def simp del: and_then_eq_Inr)
  from assms have open0: "bind_outcome (open_mani S conn (cl_open_bi env)) (\<lambda>opened. Done
      (and_then (with_context ''open mani'' ConnectionCause opened) (\<lambda>task.
         case start_transfer_internal B L (cl_start env) task (transfer_mode_of mode) Uncompressed
                (SequenceNumber 0) None of
           (task, effects, result) \<Rightarrow>
             map_sum id (\<lambda>transfer. (task, transfer))
               (with_context ''start transfer'' SendCause
                  (handle_start_transfer (cl_start_sent env)
                     (if cl_start_replied env then Some result else None)))))) = Done (Inr (task, transfer))"
    by (simp only: client_open_def roots bound conn bind_outcome.simps sum.case prod.case)
  obtain opened where opened: "open_mani S conn (cl_open_bi env) = Done opened"
    using open0 by (cases "open_mani S conn (cl_open_bi env)") simp_all
  obtain task0 where task0: "opened = Inr task0"
    using open0 opened by (cases opened) (simp_all add: with_context_def)
  obtain task' es result where
    start: "start_transfer_internal B L (cl_start env) task0 (transfer_mode_of mode) Uncompressed
              (SequenceNumber 0) None = (task', es, result)"
    by (metis prod_cases3)
  have "result = Inr transfer"
    using open0 opened task0 start
    by (cases result) (auto simp: with_context_def handle_start_transfer_def split: if_splits)
  with start start_transfer_stream have
    "\<exists>k mtu. transfer = send_stream_new (st_id task0) (transfer_mode_of mode) NoCompression (SequenceNumber 0) k Map.empty mtu"
    by blast
  with open_mani_id opened task0 show ?thesis by metis
qed

text \<open>A run of the client that returns \<open>Ok\<close>.\<close>

lemma client_run_history:
  assumes run: "client_run oc Q P B L S fs env mode = Done (hist, commands, Some (Inr ()))"
    and short: "\<forall>h \<in> set hist. length (snd (snd h)) < 2 ^ 16"
  shows "\<exists>i items k mtu s. cl_open_bi env = Inr i \<and> cl_file env = Inr items \<and>
     content_run B S (send_stream_new (mani_id_of i) (transfer_mode_of mode) NoCompression (SequenceNumber 0)
       k Map.empty mtu) hist s \<and>
     map (fst \<circ> snd) hist = audio_packets items \<and>
     (\<forall>i < length hist. fst (hist ! i) = Timestamp (of_nat (i * 20))) \<and>
     commands = [EndTransferCommand (stream_final_sequence_number s) (cl_response env)]"
proof -
  obtain task transfer where opened: "client_open Q P B L S fs env mode = Done (Inr (task, transfer))"
  proof (cases "client_open Q P B L S fs env mode")
    case (Done r)
    then show ?thesis using run that by (cases r) (auto simp: client_run_def)
  qed (use run in \<open>simp add: client_run_def\<close>)
  obtain items where items: "cl_file env = Inr items"
    using run opened by (cases "cl_file env") (auto simp: client_run_def with_context_def)
  obtain s h r where loop: "stream_ogg oc B S transfer 0 0 items = Done (s, h, r)"
    using run opened items by (auto simp: client_run_def with_context_def)
  obtain sent where sent: "r = Some (Inr sent)"
    using run opened items loop
    by (auto simp: client_run_def with_context_def split: option.splits sum.splits)
  have ended: "h = hist" "snd (end_stream s (cl_response env) (cl_end_sent env) (cl_end_reply env)) = (commands, Inr ())"
    using run opened items loop sent
    by (auto simp: client_run_def with_context_def split: prod.splits)
  then have "commands = [EndTransferCommand (stream_final_sequence_number s) (cl_response env)]"
    by (auto simp: end_stream_def Let_def split: if_splits option.splits)
  with client_open_stream [OF opened] stream_ogg_run [OF loop [unfolded sent]] items short ended(1)
  show ?thesis by auto
qed

section \<open>To the player\<close>

text \<open>The calls of \<open>recv\<close> on the unreliable stream, one per packet and one at the end.\<close>

lemma timed_recvs_packets:
  "\<exists>u' c' es. timed_recvs u c (map (\<lambda>p. [((False, idle), UnreliablePacket p)]) ps @
       [[((True, True), UnreliableChannelClosed)]]) =
     (u', c', es, map (\<lambda>p. FrameReceived (chunk_of_packet p)) ps @ [StreamEnded])"
proof (induction ps arbitrary: u c)
  case (Cons p ps)
  obtain c1 es1 where "credit_effects (record_unreliable c 1) = (c1, es1)" by fastforce
  moreover obtain u' c' es where "timed_recvs u c1 (map (\<lambda>p. [((False, idle), UnreliablePacket p)]) ps @
       [[((True, True), UnreliableChannelClosed)]]) =
     (u', c', es, map (\<lambda>p. FrameReceived (chunk_of_packet p)) ps @ [StreamEnded])"
    using Cons.IH by blast
  ultimately show ?case by simp
qed (simp split: prod.split)

lemma paced_history:
  assumes "\<forall>i < length hist. fst (hist ! i) = Timestamp (of_nat (i * 20))" and "length hist * 20 < 2 ^ 64"
  shows "paced 0 (unat FRAME_MS) (chunks_of hist)"
  using assms by (simp add: paced_def chunks_of_def FRAME_MS_def frame_ts_def case_prod_beta')

lemma chunk_of_delivery:
  "j < length hist \<Longrightarrow> chunk_of_packet (delivery_of sid seq hist j) = chunks_of hist ! j"
  by (simp add: chunk_of_packet_def delivery_of_def chunks_of_def case_prod_beta')

lemma content_of_chunks: "map chunk_content (chunks_of hist) = map (fst \<circ> snd) hist"
  by (simp add: chunks_of_def case_prod_beta' comp_def)

text \<open>The datagrams of a history's sends, whole sends in any order, through the router and the
  receiver task to any of its channels.\<close>

lemma whole_sends_received:
  assumes B: "byte_buf B" and run: "content_run B S (send_stream_new sid mode NoCompression seq k Map.empty mtu) hist s"
    and registered: "dr_senders router sid = Some channel" and groups: "0 < groups" and l: "l < m"
    and arrivals: "set arrivals \<subseteq> {..<length hist}"
  shows "\<exists>ps deliveries.
     router_run B router (map (DatagramRead now True) (concat (map (\<lambda>j. snd (snd (hist ! j))) arrivals))) =
       Done (router, map (\<lambda>p. (channel, p)) ps) \<and>
     receive_all B (packet_receiver_new m NoCompression groups) (all_alive ps) =
       Done (packet_receiver_new m NoCompression groups, deliveries, False) \<and>
     on_channel l deliveries = map (delivery_of sid seq hist) arrivals"
proof -
  let ?s0 = "send_stream_new sid mode NoCompression seq k Map.empty mtu"
  let ?r = "packet_receiver_new m NoCompression groups"
  have s0: "ss_compression ?s0 = NoCompression" "ss_id ?s0 = sid" "ss_sequence_counter ?s0 = seq"
    by (simp_all add: send_stream_new_def)
  have r: "pr_fragment_buffers ?r = Map.empty" "0 < pr_max_fragment_groups ?r" "0 < pr_senders ?r" "pr_senders ?r = m"
    "lossless (compress (ss_compression ?s0)) (decompress (pr_compression ?r))"
    using no_compression.lossless_axioms groups l by (simp_all add: packet_receiver_new_def s0)
  have "\<forall>j \<in> {..<length hist}. \<exists>ps. snd (snd (hist ! j)) = map (serialize_packet B) ps \<and> (\<forall>p \<in> set ps. pkt_stream_id p = sid) \<and>
      receive_all B ?r (all_alive ps) = Done (?r, map (\<lambda>i. (i, delivery_of sid seq hist j)) [0 ..< m], False)"
    using content_run_received [OF run _ B r(5,1,2,3)] unfolding r(4) s0 by (intro ballI) simp
  from bchoice [OF this] obtain g where
    g: "\<And>j. j \<in> set arrivals \<Longrightarrow> snd (snd (hist ! j)) = map (serialize_packet B) (g j)"
    "\<And>j. j \<in> set arrivals \<Longrightarrow> \<forall>p \<in> set (g j). pkt_stream_id p = sid"
    "\<And>j. j \<in> set arrivals \<Longrightarrow>
      receive_all B ?r (all_alive (g j)) = Done (?r, map (\<lambda>i. (i, delivery_of sid seq hist j)) [0 ..< m], False)"
    using arrivals by blast
  let ?ps = "concat (map g arrivals)"
  have "concat (map (\<lambda>j. snd (snd (hist ! j))) arrivals) = map (serialize_packet B) ?ps"
    using g(1) by (simp add: map_concat comp_def cong: map_cong)
  moreover have "\<forall>p \<in> set ?ps. pkt_stream_id p = sid" using g(2) by auto
  note router_run_delivers [OF B registered this]
  moreover have "on_channel l (concat (map (\<lambda>j. map (\<lambda>i. (i, delivery_of sid seq hist j)) [0 ..< m]) arrivals)) =
      map (delivery_of sid seq hist) arrivals"
    by (rule on_channel_copies_at [OF l])
  moreover have "receive_all B ?r (all_alive ?ps) =
      Done (?r, concat (map (\<lambda>j. map (\<lambda>i. (i, delivery_of sid seq hist j)) [0 ..< m]) arrivals), False)"
    by (rule receive_groups) (rule g(3))
  ultimately show ?thesis
    by (intro exI [of _ ?ps] exI [of _ "concat (map (\<lambda>j. map (\<lambda>i. (i, delivery_of sid seq hist j)) [0 ..< m]) arrivals)"])
      (simp only: map_map comp_def simp_thms)
qed

text \<open>A history's sends, in an order that the playout delay absorbs, as what the jitter buffer yields.\<close>

lemma history_yielded:
  assumes B: "byte_buf B"
    and hist: "content_run B S (send_stream_new sid mode NoCompression (SequenceNumber 0) k Map.empty mtu) hist s"
    and contents: "map (fst \<circ> snd) hist = packets"
    and pace: "\<forall>i < length hist. fst (hist ! i) = Timestamp (of_nat (i * 20))" "length hist * 20 < 2 ^ 64"
    and arrivals: "arrivals \<noteq> []" "hd arrivals = 0" "distinct arrivals" "set arrivals = {..<length hist}"
      "sorted_wrt (\<lambda>i j. i < j + 5) arrivals"
    and registered: "dr_senders router sid = Some channel" and groups: "0 < groups" and l: "l < m"
    and dec: "decode_all ops CHANNELS d packets = Some (d', pcms)"
  obtains ps deliveries u' c' es events J where
     "router_run B router (map (DatagramRead now True) (concat (map (\<lambda>j. snd (snd (hist ! j))) arrivals))) =
       Done (router, map (\<lambda>p. (channel, p)) ps)"
     "receive_all B (packet_receiver_new m NoCompression groups) (all_alive ps) =
       Done (packet_receiver_new m NoCompression groups, deliveries, False)"
     "timed_recvs u c (map (\<lambda>p. [((False, idle), UnreliablePacket p)]) (on_channel l deliveries) @
         [[((True, True), UnreliableChannelClosed)]]) = (u', c', es, events)"
     "jitter_new (Inr d) CHANNELS FRAME_MS PLAYOUT_DELAY_MS = Inr J"
     "yield_session oc ops (Suc (length pcms)) J events =
       Done (map (\<lambda>pcm. Some (Inr (Some pcm))) pcms @ [Some (Inr None)])"
proof -
  have "set arrivals \<subseteq> {..<length hist}" using arrivals(4) by simp
  from whole_sends_received [OF B hist registered groups l this] obtain ps deliveries where
    router: "router_run B router (map (DatagramRead now True) (concat (map (\<lambda>j. snd (snd (hist ! j))) arrivals))) =
       Done (router, map (\<lambda>p. (channel, p)) ps)"
    and task: "receive_all B (packet_receiver_new m NoCompression groups) (all_alive ps) =
       Done (packet_receiver_new m NoCompression groups, deliveries, False)"
    and channel: "on_channel l deliveries = map (delivery_of sid (SequenceNumber 0) hist) arrivals"
    by blast
  have frames: "map (\<lambda>p. FrameReceived (chunk_of_packet p)) (on_channel l deliveries) =
      map (\<lambda>j. FrameReceived (chunks_of hist ! j)) arrivals"
    using arrivals(4) by (simp add: channel comp_def chunk_of_delivery)
  obtain u' c' es where recvs: "timed_recvs u c (map (\<lambda>p. [((False, idle), UnreliablePacket p)]) (on_channel l deliveries) @
         [[((True, True), UnreliableChannelClosed)]]) =
      (u', c', es, map (\<lambda>j. FrameReceived (chunks_of hist ! j)) arrivals @ [StreamEnded])"
    using timed_recvs_packets [of u c idle "on_channel l deliveries"] unfolding frames by blast
  obtain J where J: "jitter_new (Inr d) CHANNELS FRAME_MS PLAYOUT_DELAY_MS = Inr J" by (simp add: jitter_new_def)
  have len: "length (chunks_of hist) = length hist" by (simp add: chunks_of_def)
  have "length pcms = length packets" using decode_all_length [OF dec] .
  then have n: "length pcms = length (chunks_of hist)" using arg_cong [OF contents, of length] len by simp
  have "yield_session oc ops (Suc (length (chunks_of hist))) J
       (map (\<lambda>j. FrameReceived (chunks_of hist ! j)) arrivals @ [StreamEnded]) =
     Done (map (\<lambda>pcm. Some (Inr (Some pcm))) pcms @ [Some (Inr None)])"
    using arrivals(4,5) dec contents
    by (intro jitter_in_order [OF J paced_history [OF pace] arrivals(1-3), where w = 5])
      (simp_all add: len content_of_chunks FRAME_MS_def PLAYOUT_DELAY_MS_def)
  from that [OF router task recvs J this [folded n]] show ?thesis .
qed

text \<open>All sends in their order.\<close>

lemma arrivals_in_order: "arrivals_of hist = concat (map (\<lambda>j. snd (snd (hist ! j))) [0 ..< length hist])"
proof -
  have "map (\<lambda>(ts, content, ds). ds) hist = map (\<lambda>j. snd (snd (hist ! j))) [0 ..< length hist]"
    by (intro nth_equalityI) (simp_all add: case_prod_beta')
  then show ?thesis by (simp add: arrivals_of_def)
qed

lemma seqs_of_deliveries:
  "length hist < 2 ^ 32 \<Longrightarrow>
   seqs_of (map (delivery_of sid (SequenceNumber 0) hist) [0 ..< length hist]) = [0 ..< length hist]"
  by (intro nth_equalityI) (simp_all add: delivery_of_def nth_seq_def seq_nat_of_nat)

lemma content_of_deliveries:
  "map chunk_content (map chunk_of_packet (map (delivery_of sid seq hist) [0 ..< length hist])) =
     map (fst \<circ> snd) hist"
  by (intro nth_equalityI) (simp_all add: chunk_of_packet_def delivery_of_def)

section \<open>The certificate and the mode\<close>

text \<open>What is asked of the files and of the PEM format: a written file is read back, others stay,
  and the text of a generated certificate holds just that certificate.\<close>

locale peer_files =
  fixes P :: "('fs, 'g, 'cert, 'key) peer_libs"
  assumes read_written: "fs_write P fs path text = (Inr u, fs') \<Longrightarrow> fs_open P fs' path = Inr text"
    and read_other: "fs_write P fs path text = (Inr u, fs') \<Longrightarrow> other \<noteq> path \<Longrightarrow> fs_open P fs' other = fs_open P fs other"
    and pem_of_generated: "generate_self_signed P names = Inr g \<Longrightarrow> pem_certs P (cert_pem P g) = [Inr (cert_der P g)]"
begin

lemma written_chain_loaded:
  assumes "write_self_signed P fs = (Inr (chain, key), fs')"
  shows "load_cert_chain P fs' CERT_PATH = Inr chain"
proof -
  obtain g where g: "generate_self_signed P [''localhost''] = Inr g"
    using assms by (cases "generate_self_signed P [''localhost'']") (auto simp: write_self_signed_def with_context_def)
  then obtain fs1 u v where
    first: "fs_write P fs CERT_PATH (cert_pem P g) = (Inr u, fs1)"
    and second: "fs_write P fs1 KEY_PATH (key_pem P g) = (Inr v, fs')"
    and chain: "chain = [cert_der P g]"
    using assms by (auto simp: write_self_signed_def with_context_def split: prod.splits sum.splits)
  have "fs_open P fs' CERT_PATH = Inr (cert_pem P g)"
    using read_written [OF first] read_other [OF second, of CERT_PATH] by (simp add: CERT_PATH_def KEY_PATH_def)
  then show ?thesis
    using pem_of_generated [OF g] by (simp add: load_cert_chain_def with_context_def chain)
qed

end

text \<open>The streams a receiving task hands to the application, by the mode of the transfer.\<close>

lemma streams_of_mode:
  assumes "handle_transfer_start B L env t start = Done (t', es, go)"
    and "ForwardMessage (TransferMessage streams) \<in> set es" and "start_mode start = transfer_mode_of mode"
  shows "(case streams of DualStreams r u \<Rightarrow> mode = ReliableMode | UnreliableOnlyStreams u \<Rightarrow> mode = UnreliableMode)"
  using assms
  by (cases mode; cases "st_role t")
    (auto simp: handle_transfer_start_def Let_def create_stream_pair_def dropped_ack_def write_effect_def
      split: option.splits if_splits sum.splits prod.splits mani_stream_role.splits)

section \<open>Properties\<close>

text \<open>C4: The test peer plays the file it is given.  When a client run in unreliable mode
  returns \<open>Ok\<close> and the datagrams of its sends arrive whole, in an order in which no send
  overtakes another by five or more and the first is first, then router, receiver task,
  unreliable stream and jitter buffer hand the server's player the decoded audio packets of
  the file, every one once, in order, headers left out; the loop waits for room in the player's
  queue and ends with the stream.\<close>

theorem peer_plays_file:
  fixes K :: "('k, 'f :: zero) sink_ops"
  assumes B: "byte_buf B" and sink: "audio_sink K played"
    and run: "client_run oc Q P B L S fs env UnreliableMode = Done (hist, commands, Some (Inr ()))"
    and outside: "cl_open_bi env = Inr i" "cl_file env = Inr items"
    and sizes: "\<forall>h \<in> set hist. length (snd (snd h)) < 2 ^ 16" "length hist * 20 < 2 ^ 64"
    and arrivals: "arrivals \<noteq> []" "hd arrivals = 0" "distinct arrivals" "set arrivals = {..<length hist}"
      "sorted_wrt (\<lambda>i j. i < j + 5) arrivals"
    and registered: "dr_senders router (mani_id_of i) = Some channel" and groups: "0 < groups"
    and dec: "decode_all ops CHANNELS d (audio_packets items) = Some (d', pcms)"
  shows "\<exists>ps deliveries u' c' es events player'.
     router_run B router (map (DatagramRead now True) (concat (map (\<lambda>j. snd (snd (hist ! j))) arrivals))) =
       Done (router, map (\<lambda>p. (channel, p)) ps) \<and>
     receive_all B (packet_receiver_new 1 NoCompression groups) (all_alive ps) =
       Done (packet_receiver_new 1 NoCompression groups, deliveries, False) \<and>
     timed_recvs u c (map (\<lambda>p. [((False, idle), UnreliablePacket p)]) (on_channel 0 deliveries) @
         [[((True, True), UnreliableChannelClosed)]]) = (u', c', es, events) \<and>
     play_unreliable oc ops K (Inr d) player events = Some (Done (Inr (player', True))) \<and>
     played (pl_sink player') = played (pl_sink player) @ pcms"
proof -
  obtain k mtu s where
    hist: "content_run B S (send_stream_new (mani_id_of i) UnreliableOnly NoCompression (SequenceNumber 0)
       k Map.empty mtu) hist s"
    and contents: "map (fst \<circ> snd) hist = audio_packets items"
    and pace: "\<forall>i < length hist. fst (hist ! i) = Timestamp (of_nat (i * 20))"
    using client_run_history [OF run sizes(1)] outside by auto
  from history_yielded [OF B hist contents pace sizes(2) arrivals registered groups zero_less_one dec, of _ u c idle oc]
  obtain ps deliveries u' c' es events J where
    received: "router_run B router (map (DatagramRead now True) (concat (map (\<lambda>j. snd (snd (hist ! j))) arrivals))) =
       Done (router, map (\<lambda>p. (channel, p)) ps)"
     "receive_all B (packet_receiver_new 1 NoCompression groups) (all_alive ps) =
       Done (packet_receiver_new 1 NoCompression groups, deliveries, False)"
     "timed_recvs u c (map (\<lambda>p. [((False, idle), UnreliablePacket p)]) (on_channel 0 deliveries) @
         [[((True, True), UnreliableChannelClosed)]]) = (u', c', es, events)"
    and J: "jitter_new (Inr d) CHANNELS FRAME_MS PLAYOUT_DELAY_MS = Inr J"
    and yielded: "yield_session oc ops (Suc (length pcms)) J events =
       Done (map (\<lambda>pcm. Some (Inr (Some pcm))) pcms @ [Some (Inr None)])"
    by blast
  from play_jitter_given [OF sink yielded] obtain player' where
    "play_jitter oc ops K player J events = Some (Done (player', True))"
    and played: "played (pl_sink player') = played (pl_sink player) @ pcms"
    by blast
  then have "play_unreliable oc ops K (Inr d) player events = Some (Done (Inr (player', True)))"
    by (simp add: play_unreliable_def J)
  with received played show ?thesis by blast
qed

text \<open>C10: In reliable mode the file is played too.  When a client run in reliable mode returns \<open>Ok\<close>
  and the datagrams of its sends arrive in order, router, receiver task and reliable stream give
  the decoder batches that hold every audio packet of the file in order, the end that the client
  announced ends the stream, and the player is given every packet decoded and converted.\<close>

theorem peer_plays_file_reliably:
  fixes K :: "('k, 'f) sink_ops" and ops :: "('d, 'i :: zero) opus_ops"
  assumes B: "byte_buf B" and sink: "audio_sink K played"
    and run: "client_run oc Q P B L S fs env ReliableMode = Done (hist, commands, Some (Inr ()))"
    and outside: "cl_open_bi env = Inr i" "cl_file env = Inr items"
    and sizes: "\<forall>h \<in> set hist. length (snd (snd h)) < 2 ^ 16" "hist \<noteq> []" "length hist < 2 ^ 32"
    and registered: "dr_senders router (mani_id_of i) = Some channel" and room: "0 < groups" "0 < n"
    and dec: "decode_all ops CHANNELS d (audio_packets items) = Some (d', pcms)"
  shows "\<exists>f ps deliveries r c' es batches player'.
     commands = [EndTransferCommand f (cl_response env)] \<and>
     router_run B router (map (DatagramRead now True) (arrivals_of hist)) =
       Done (router, map (\<lambda>p. (channel, p)) ps) \<and>
     receive_all B (packet_receiver_new 2 NoCompression groups) (all_alive ps) =
       Done (packet_receiver_new 2 NoCompression groups, deliveries, False) \<and>
     recv_session oc (reliable_recv_new (mani_id_of i) n) c
         (map PacketReceived (on_channel 0 deliveries) @ [PipelineCommand (PipelineEndTransfer f)]) =
       Done (r, c', es, batches, True) \<and>
     play_reliable ops K conv (Inr d) player (map Some batches @ [None]) = Some (player', Some (Inr ())) \<and>
     played (pl_sink player') = played (pl_sink player) @ map (map conv) pcms"
proof -
  obtain k mtu s where
    hist: "content_run B S (send_stream_new (mani_id_of i) Dual NoCompression (SequenceNumber 0)
       k Map.empty mtu) hist s"
    and contents: "map (fst \<circ> snd) hist = audio_packets items"
    and commands: "commands = [EndTransferCommand (stream_final_sequence_number s) (cl_response env)]"
    using client_run_history [OF run sizes(1)] outside by auto
  let ?seq = "delivery_of (mani_id_of i) (SequenceNumber 0) hist"
  have "set [0 ..< length hist] \<subseteq> {..<length hist}" by auto
  from whole_sends_received [OF B hist registered room(1) _ this, of 0 2] obtain ps deliveries where
    router: "router_run B router (map (DatagramRead now True) (arrivals_of hist)) =
       Done (router, map (\<lambda>p. (channel, p)) ps)"
    and task: "receive_all B (packet_receiver_new 2 NoCompression groups) (all_alive ps) =
       Done (packet_receiver_new 2 NoCompression groups, deliveries, False)"
    and channel: "on_channel 0 deliveries = map ?seq [0 ..< length hist]"
    unfolding arrivals_in_order by force
  have seqs: "seqs_of (on_channel 0 deliveries) = [0 ..< length (on_channel 0 deliveries)]"
    using seqs_of_deliveries [OF sizes(3)] by (simp add: channel)
  have len: "length (on_channel 0 deliveries) = length hist" by (simp add: channel)
  have "seq_nat (stream_final_sequence_number s) < length (on_channel 0 deliveries)"
    using final_of_history [OF hist sizes(2,3)] sizes(2) by (simp add: len)
  from in_order_session [OF seqs _ room(2) this, of oc "mani_id_of i" c] sizes(3) len
  obtain r c' es batches where
    session: "recv_session oc (reliable_recv_new (mani_id_of i) n) c
         (map PacketReceived (on_channel 0 deliveries) @
           [PipelineCommand (PipelineEndTransfer (stream_final_sequence_number s))]) =
       Done (r, c', es, batches, True)"
    and batches: "concat batches = map chunk_of_packet (on_channel 0 deliveries)" by auto
  have "map chunk_content (concat batches) = audio_packets items"
    unfolding batches channel content_of_deliveries by (rule contents)
  with dec have "decode_all ops CHANNELS d (map chunk_content (concat batches)) = Some (d', pcms)" by simp
  from audio_sink.play_decoded_given [OF sink this, of conv player] obtain player' where
    "play_reliable ops K conv (Inr d) player (map Some batches @ [None]) = Some (player', Some (Inr ()))"
    "played (pl_sink player') = played (pl_sink player) @ map (map conv) pcms"
    by (auto simp: play_reliable_def audio_sink.given_def [OF sink])
  with commands router task session show ?thesis by blast
qed

text \<open>Libraries that take everything, a file system that is a map, and a file of two packets
  after its header.\<close>

definition sample_quic :: "(nat, nat, nat, nat) quic_libs" where
  "sample_quic = \<lparr> with_single_cert = \<lambda>chain key. Inr 0, empty_root_store = 0, root_store_add = \<lambda>store cert. Inr 0,
     with_root_certificates = \<lambda>store. 0, with_alpn = \<lambda>crypto protocols. 0, quic_server_crypto = Inr,
     quic_client_crypto = Inr, server_with_crypto = \<lambda>crypto. 0, client_config_of = \<lambda>crypto. 0,
     transport_default = 0, max_idle_timeout = \<lambda>transport timeout. 0, idle_timeout_try_from = \<lambda>d. Some d,
     idle_timeout_of_u32 = unat, transport_config = \<lambda>config transport. 0, endpoint_server = \<lambda>config addr. Inr 0,
     endpoint_client = \<lambda>addr. Inr 0, set_default_client_config = \<lambda>endpoint config. 0, show_addr = \<lambda>addr. ''addr'',
     endpoint_close = \<lambda>endpoint code reason. 0 \<rparr>"

definition sample_peer_libs :: "(string \<Rightarrow> string option, nat, nat, nat) peer_libs" where
  "sample_peer_libs = \<lparr> fs_write = \<lambda>fs path contents. (Inr (), fs(path \<mapsto> contents)),
     fs_open = \<lambda>fs path. (case fs path of None \<Rightarrow> Inl ''No such file'' | Some contents \<Rightarrow> Inr contents),
     show_path = \<lambda>path. path, generate_self_signed = \<lambda>names. Inr 7, cert_pem = \<lambda>g. ''C'', key_pem = \<lambda>g. ''K'',
     cert_der = \<lambda>g. g, key_der = \<lambda>g. g, pem_certs = \<lambda>text. if text = ''C'' then [Inr 7] else [] \<rparr>"

definition sample_client :: "(nat, nat, nat \<times> bool) client_env" where
  "sample_client = \<lparr> cl_any_address = 0, cl_connect = sample_connect_env, cl_shown = \<lambda>e. e,
     cl_open_bi = Inr \<lparr> qs_initiator = ClientSide, qs_index = 0 \<rparr>, cl_start = open_env, cl_start_sent = True,
     cl_start_replied = True,
     cl_file = Inr (map (\<lambda>data. (Inr data, \<lambda>i d. Inr (), \<lparr> bank_sem = (5, False) \<rparr>))
       [byte_str ''OpusHead'', [5], [6]]),
     cl_response = 0, cl_end_sent = True, cl_end_reply = Some (Inr ()) \<rparr>"

lemma sample_client_open:
  "\<exists>task. client_open sample_quic sample_peer_libs be_ops stored_libs counting_ops [CERT_PATH \<mapsto> ''C'']
     sample_client mode =
   Done (Inr (task, send_stream_new (ManiStreamId 0) (transfer_mode_of mode) NoCompression (SequenceNumber 0) 1024 Map.empty None))"
proof -
  have load: "load_cert_chain sample_peer_libs [CERT_PATH \<mapsto> ''C''] CERT_PATH = Inr [7]"
    by (simp add: load_cert_chain_def sample_peer_libs_def with_context_def)
  obtain bound where bind: "client_bind sample_quic (peer_client_setup 0 [7]) = Done (Inr bound)"
      "pe_config bound = peer_client_setup 0 [7]"
    by (simp add: client_bind_def peer_client_setup_def sample_quic_def idle_transport_def duration_mul_def
        peer_protofish_config_def protofish_config_default_def from_secs_def Let_def)
  obtain conn :: "(nat, nat) protofish_connection" and keepalive where
    connect: "connect_connection sample_connect_env (\<lambda>e. e) (client_config.truncate (pe_config bound))
        (byte_str ''localhost'') Map.empty = Inr (conn, keepalive)"
      "pc_protofish_config conn = peer_protofish_config"
    by (simp add: connect_connection_def client_handshake_def sample_connect_env_def establish_def bind(2)
        peer_client_setup_def client_config.defs Let_def)
  obtain task where opened: "open_mani counting_ops conn (Inr \<lparr> qs_initiator = ClientSide, qs_index = 0 \<rparr>) = Done (Inr task)"
      "st_id task = ManiStreamId 0" "st_max_retransmission_buffer_size task = 1024" "st_max_datagram_size task = None"
    by (simp add: open_mani_def new_mani_def connect(2) peer_protofish_config_def protofish_config_default_def
        mani_config_default_def stream_pair_def bank_new_def counting_ops_def Let_def mani_id_of_def
        from_millis_def)
  show ?thesis
    using load bind connect opened
    by (simp add: client_open_def sample_client_def with_context_def start_transfer_internal_def write_effect_ok
        handle_start_transfer_def open_env_def)
qed

lemma sample_send:
  assumes "ss_compression s = NoCompression" and "ss_max_datagram_size s = None"
  shows "\<exists>s' bank' sent. send be_ops counting_ops (\<lambda>i d. Inr ()) s \<lparr> bank_sem = (5, False) \<rparr> ts content =
     Done (Returned s' bank' sent (Inr ())) \<and> length sent = 1 \<and>
     ss_compression s' = NoCompression \<and> ss_max_datagram_size s' = None \<and> ss_command_sender s' = ss_command_sender s"
proof -
  have "build_packets be_ops s ts (compress (ss_compression s) content) =
      Done [\<lparr> pkt_stream_id = ss_id s, pkt_sequence_number = ss_sequence_counter s,
              pkt_timestamp = ts, pkt_content = encode_single_content (compress (ss_compression s) content) \<rparr>]"
    by (rule build_packets_single) (simp add: needs_fragment_def assms(2))
  from counting.send_succeeds [OF this, of "\<lparr> bank_sem = (5, False) \<rparr>" "\<lambda>i d. Inr ()"]
  obtain s' bank' where send: "send be_ops counting_ops (\<lambda>i d. Inr ()) s \<lparr> bank_sem = (5, False) \<rparr> ts content =
      Done (Returned s' bank' (map (serialize_packet be_ops)
        [\<lparr> pkt_stream_id = ss_id s, pkt_sequence_number = ss_sequence_counter s,
          pkt_timestamp = ts, pkt_content = encode_single_content (compress (ss_compression s) content) \<rparr>]) (Inr ()))"
    by (auto simp: counting.shut_def counting.credits_def)
  then have "ss_compression s' = ss_compression s" "ss_max_datagram_size s' = ss_max_datagram_size s"
    "ss_command_sender s' = ss_command_sender s"
    by (cases rule: send_ReturnedE; auto)+
  with send assms show ?thesis by simp
qed

lemma sample_client_run:
  "\<exists>hist commands. client_run True sample_quic sample_peer_libs be_ops stored_libs counting_ops
     [CERT_PATH \<mapsto> ''C''] sample_client mode = Done (hist, commands, Some (Inr ())) \<and>
     length hist = 2 \<and> (\<forall>h \<in> set hist. length (snd (snd h)) = 1)"
proof -
  let ?s0 = "send_stream_new (ManiStreamId 0) (transfer_mode_of mode) NoCompression (SequenceNumber 0) 1024 Map.empty None"
  have s0: "ss_compression ?s0 = NoCompression" "ss_max_datagram_size ?s0 = None" "ss_command_sender ?s0"
    by (simp_all add: send_stream_new_def)
  obtain task where opened: "client_open sample_quic sample_peer_libs be_ops stored_libs counting_ops
      [CERT_PATH \<mapsto> ''C''] sample_client mode = Done (Inr (task, ?s0))"
    using sample_client_open by blast
  obtain s1 b1 d1 where one: "send be_ops counting_ops (\<lambda>i d. Inr ()) ?s0 \<lparr> bank_sem = (5, False) \<rparr> (Timestamp 0) [5] =
      Done (Returned s1 b1 d1 (Inr ()))" "length d1 = 1"
    "ss_compression s1 = NoCompression" "ss_max_datagram_size s1 = None" "ss_command_sender s1"
    using sample_send [OF s0(1,2)] s0(3) by metis
  obtain s2 b2 d2 where two: "send be_ops counting_ops (\<lambda>i d. Inr ()) s1 \<lparr> bank_sem = (5, False) \<rparr> (Timestamp 20) [6] =
      Done (Returned s2 b2 d2 (Inr ()))" "length d2 = 1" "ss_command_sender s2"
    using sample_send [OF one(3,4)] one(5) by metis
  have headers: "opus_header (byte_str ''OpusHead'')" "\<not> opus_header [5]" "\<not> opus_header [6]"
    by (simp_all add: opus_header_def byte_str_def)
  have "stream_ogg True be_ops counting_ops ?s0 0 0 (map (\<lambda>data. (Inr data, \<lambda>i d. Inr (), \<lparr> bank_sem = (5, False) \<rparr>))
       [byte_str ''OpusHead'', [5], [6]]) =
     Done (s2, [(Timestamp 0, [5], d1), (Timestamp 20, [6], d2)], Some (Inr 2))"
    using one(1) two(1) headers by (simp add: with_context_def FRAME_MS_def)
  then show ?thesis
    using opened one(2) two(2,3)
    by (simp add: client_run_def sample_client_def with_context_def end_stream_def)
qed

text \<open>What the sample client meets: its stream is registered, its packets decode.\<close>

lemma sample_client_outside:
  "cl_open_bi sample_client = Inr \<lparr> qs_initiator = ClientSide, qs_index = 0 \<rparr>"
  "cl_file sample_client = Inr (map (\<lambda>data. (Inr data, \<lambda>i d. Inr (), \<lparr> bank_sem = (5, False) \<rparr>))
     [byte_str ''OpusHead'', [5], [6]])"
  by (simp_all add: sample_client_def)

lemma sample_client_registered:
  "dr_senders (fst (router_register (router_new 4 5) (\<lambda>i. True) sid ()) :: unit router) sid = Some ()"
  by (simp add: router_register_def router_new_def)

lemma sample_client_decoded:
  "decode_all sample_opus CHANNELS 0 (audio_packets (map (\<lambda>data. (Inr data, \<lambda>i d. Inr () :: string + unit,
       \<lparr> bank_sem = (5 :: nat, False) \<rparr>)) [byte_str ''OpusHead'', [5], [6]])) = Some (2, [[5, 0], [6, 0]])"
  by (simp add: audio_packets_def opus_header_def byte_str_def decode_frame_def sample_opus_def CHANNELS_def
      max_samples_def)

theorem peer_plays_file_witness:
  "\<exists>hist commands events player'.
     client_run True sample_quic sample_peer_libs be_ops stored_libs counting_ops
       [CERT_PATH \<mapsto> ''C''] sample_client UnreliableMode = Done (hist, commands, Some (Inr ())) \<and>
     play_unreliable True sample_opus steady_sink (Inr 0) \<lparr> pl_sink = (0, []) \<rparr> events =
       Some (Done (Inr (player', True))) \<and>
     snd (pl_sink player') = [[5, 0], [6, 0]]"
proof -
  obtain hist commands where run: "client_run True sample_quic sample_peer_libs be_ops stored_libs counting_ops
     [CERT_PATH \<mapsto> ''C''] sample_client UnreliableMode = Done (hist, commands, Some (Inr ()))"
    and hist: "length hist = 2" "\<forall>h \<in> set hist. length (snd (snd h)) = 1"
    using sample_client_run by blast
  have sizes: "\<forall>h \<in> set hist. length (snd (snd h)) < 2 ^ 16" "length hist * 20 < 2 ^ 64" using hist by simp_all
  have arrivals: "[0, 1] \<noteq> ([] :: nat list)" "hd [0, 1] = (0 :: nat)" "distinct [0, 1 :: nat]"
    "set [0, 1] = {..<length hist}" "sorted_wrt (\<lambda>i j. i < j + 5) [0, 1 :: nat]"
    using hist(1) by auto
  from peer_plays_file [OF byte_buf_be_ops steady.audio_sink_axioms run sample_client_outside sizes arrivals
      sample_client_registered _ sample_client_decoded, of 4 _ undefined "credit_coordinator_new 1 True" False "\<lparr> pl_sink = (0, []) \<rparr>"]
  obtain events player' where "play_unreliable True sample_opus steady_sink (Inr 0) \<lparr> pl_sink = (0, []) \<rparr> events =
       Some (Done (Inr (player', True)))" "snd (pl_sink player') = snd (pl_sink \<lparr> pl_sink = (0, []) \<rparr>) @ [[5, 0], [6, 0]]"
    by fastforce
  then show ?thesis using run by auto
qed

theorem peer_plays_file_reliably_witness:
  "\<exists>hist commands f batches player'.
     client_run True sample_quic sample_peer_libs be_ops stored_libs counting_ops
       [CERT_PATH \<mapsto> ''C''] sample_client ReliableMode = Done (hist, commands, Some (Inr ())) \<and>
     commands = [EndTransferCommand f 0] \<and>
     play_reliable sample_opus steady_sink id (Inr 0) \<lparr> pl_sink = (0, []) \<rparr> (map Some batches @ [None]) =
       Some (player', Some (Inr ())) \<and>
     snd (pl_sink player') = [[5, 0], [6, 0]]"
proof -
  obtain hist commands where run: "client_run True sample_quic sample_peer_libs be_ops stored_libs counting_ops
     [CERT_PATH \<mapsto> ''C''] sample_client ReliableMode = Done (hist, commands, Some (Inr ()))"
    and hist: "length hist = 2" "\<forall>h \<in> set hist. length (snd (snd h)) = 1"
    using sample_client_run by blast
  have sizes: "\<forall>h \<in> set hist. length (snd (snd h)) < 2 ^ 16" "hist \<noteq> []" "length hist < 2 ^ 32"
    using hist by auto
  from peer_plays_file_reliably [OF byte_buf_be_ops steady.audio_sink_axioms run sample_client_outside sizes
      sample_client_registered _ _ sample_client_decoded, of 4 4 _ "credit_coordinator_new 1 True" id
      "\<lparr> pl_sink = (0, []) \<rparr>"]
  obtain f batches player' where "commands = [EndTransferCommand f (cl_response sample_client)]"
    "play_reliable sample_opus steady_sink id (Inr 0) \<lparr> pl_sink = (0, []) \<rparr> (map Some batches @ [None]) =
       Some (player', Some (Inr ()))"
    "snd (pl_sink player') = snd (pl_sink \<lparr> pl_sink = (0, []) \<rparr>) @ map (map id) [[5, 0], [6, 0]]"
    by fastforce
  then show ?thesis using run by (auto simp: sample_client_def)
qed

text \<open>The certificate a server generates is the one its clients trust, whatever was in the files
  before.\<close>

interpretation sample_files: peer_files sample_peer_libs
  by unfold_locales (auto simp: sample_peer_libs_def)

lemma sample_certificate_trusted:
  "write_self_signed sample_peer_libs fs = (Inr (chain, key), fs') \<Longrightarrow>
   load_cert_chain sample_peer_libs fs' CERT_PATH = Inr chain"
  by (rule sample_files.written_chain_loaded)

text \<open>Client and server have to be started in the same mode: when the server's task has taken
  the client's \<open>TransferStart\<close>, the server refuses to play exactly when the modes of the two
  command lines differ, with an error that names both.\<close>

lemma modes_must_agree:
  assumes "handle_transfer_start B L env t start = Done (t', es, go)"
    and "ForwardMessage (TransferMessage streams) \<in> set es" and "start_mode start = transfer_mode_of client_mode"
  shows "server_play oc float_ops int_ops K conv decoder server_mode streams player events recvs =
       Some (Done (Some (Inl (AppError (Some (''mode/transfer mismatch: cli='' @ show_mode server_mode @
         '', peer sent '' @ describe_transfer streams)) NoCause)))) \<longleftrightarrow> server_mode \<noteq> client_mode"
proof (cases "server_mode = client_mode")
  case False
  then show ?thesis using streams_of_mode [OF assms]
    by (cases server_mode; cases client_mode; cases streams) (simp_all add: server_play_def)
next
  case True
  have cause: "audio_cause e \<noteq> AppError ctx NoCause" for e ctx by (cases e) simp
  show ?thesis using streams_of_mode [OF assms] True cause
    by (cases server_mode; cases streams)
      (auto simp: server_play_def split: option.splits sum.splits prod.splits if_splits)
qed

end
