(* ===== verification/Ogg_Example.thy ===== *)
theory Ogg_Example
  imports Peer_Transfer
begin

text \<open>
  The example \<^verbatim>\<open>src/examples/jitter_ogg\<close>: one program that runs a server and a client against
  each other, sends an Ogg file over a dual transfer and writes what the jitter buffer of its
  unreliable half yields to a WAV file.
\<close>

section \<open>Set-up\<close>

text \<open>An \<open>unwrap\<close> or \<open>expect\<close> of an error is a panic.\<close>

fun unwrap :: "'e + 'a \<Rightarrow> 'a outcome" where
  "unwrap (Inl e) = Panic"
| "unwrap (Inr a) = Done a"

lemma unwrap_eq_Done [simp]: "unwrap r = Done a \<longleftrightarrow> r = Inr a"
  by (cases r) simp_all

definition generate_cert :: "('fs, 'g, 'cert, 'key) peer_libs \<Rightarrow> ('cert list \<times> 'key) outcome" where
  "generate_cert P =
     bind_outcome (unwrap (generate_self_signed P [''localhost''])) (\<lambda>cert. Done ([cert_der P cert], key_der P cert))"

definition ogg_server_setup :: "'addr \<Rightarrow> 'cert list \<Rightarrow> 'key \<Rightarrow> ('cert, 'key, 'addr) server_setup" where
  "ogg_server_setup any_address cert_chain private_key =
     \<lparr> sc_supported_compression_types = [Uncompressed], sc_keepalive_interval = from_secs 5,
       sc_protofish_config = protofish_config_default, sc_bind_address = any_address,
       sc_cert_chain = cert_chain, sc_private_key = private_key \<rparr>"

definition ogg_client_setup :: "'addr \<Rightarrow> 'cert list \<Rightarrow> ('cert, 'addr) client_setup" where
  "ogg_client_setup any_address cert_chain =
     \<lparr> cc_supported_compression_types = [Uncompressed],
       cc_keepalive_range = (from_secs 1, from_secs 10), cc_protofish_config = protofish_config_default,
       cc_bind_address = any_address, cc_root_certificates = cert_chain \<rparr>"

text \<open>The counters of frames are of the default integer type, \<open>i32\<close>.\<close>

definition next_frame :: "bool \<Rightarrow> u32 \<Rightarrow> u32 outcome" where
  "next_frame overflow_checks frames =
     (if overflow_checks \<and> sint frames = 2 ^ 31 - 1 then Panic else Done (frames + 1))"

section \<open>The server task\<close>

text \<open>The WAV writer is the crate \<open>hound\<close>'s, a parameter.\<close>

datatype sample_format = FloatFormat | IntFormat

record wav_spec =
  wav_channels :: nat
  wav_sample_rate :: nat
  wav_bits_per_sample :: nat
  wav_sample_format :: sample_format

definition ogg_wav_spec :: wav_spec where
  "ogg_wav_spec = \<lparr> wav_channels = 2, wav_sample_rate = 48000, wav_bits_per_sample = 16, wav_sample_format = FloatFormat \<rparr>"

record ('w, 'f) wav_ops =
  wav_create :: "string \<Rightarrow> wav_spec \<Rightarrow> string + 'w"
  wav_write_sample :: "'w \<Rightarrow> 'f \<Rightarrow> string + 'w"
  wav_finalize :: "'w \<Rightarrow> string + 'w"

fun write_samples :: "('w, 'f) wav_ops \<Rightarrow> 'w \<Rightarrow> 'f list \<Rightarrow> 'w outcome" where
  "write_samples W writer [] = Done writer"
| "write_samples W writer (sample # pcm) =
     bind_outcome (unwrap (wav_write_sample W writer sample)) (\<lambda>writer. write_samples W writer pcm)"

text \<open>
  The receiving loop, with the number of frames received; the flag tells whether the loop was
  left, at the end or at an error, or waits for more events.
\<close>

partial_function (option) write_frames ::
  "bool \<Rightarrow> ('d, 'f :: zero) opus_ops \<Rightarrow> ('w, 'f) wav_ops \<Rightarrow> 'w \<Rightarrow> u32 \<Rightarrow> 'd jitter_buffer \<Rightarrow>
   jitter_event list \<Rightarrow> ('w \<times> u32 \<times> bool) outcome option" where
  "write_frames overflow_checks ops W writer frames J events =
     (case yield_pcm overflow_checks ops J events of
        Panic \<Rightarrow> Some Panic
      | Done (J, events, result) \<Rightarrow>
          (case result of
             None \<Rightarrow> Some (Done (writer, frames, False))
           | Some (Inl e) \<Rightarrow> Some (Done (writer, frames, True))
           | Some (Inr None) \<Rightarrow> Some (Done (writer, frames, True))
           | Some (Inr (Some pcm)) \<Rightarrow>
               (case bind_outcome (write_samples W writer pcm) (\<lambda>writer.
                       bind_outcome (next_frame overflow_checks frames) (\<lambda>frames. Done (writer, frames))) of
                  Panic \<Rightarrow> Some Panic
                | Done (writer, frames) \<Rightarrow> write_frames overflow_checks ops W writer frames J events)))"

text \<open>The unreliable stream is played, the reliable one, if there is one, only drained.\<close>

fun streams_of :: "mani_transfer_recv_streams \<Rightarrow> unreliable_recv \<times> reliable_recv option" where
  "streams_of (DualStreams reliable unreliable) = (unreliable, Some reliable)"
| "streams_of (UnreliableOnlyStreams unreliable) = (unreliable, None)"

definition drain_reliable ::
  "bool \<Rightarrow> reliable_recv \<Rightarrow> credit_coordinator \<Rightarrow> recv_event list \<Rightarrow>
   (reliable_recv \<times> credit_coordinator \<times> recv_effect list \<times> bool) outcome" where
  "drain_reliable overflow_checks reliable c events =
     bind_outcome (recv_session overflow_checks reliable c events) (\<lambda>(reliable, c, es, batches, over).
       Done (reliable, c, es, over))"

text \<open>Up to the streams of the transfer; everything that fails panics.\<close>

definition ogg_server_open ::
  "'s semaphore_ops \<Rightarrow> ('q, 'addr, 'o, 'k, 'd) server_env \<Rightarrow>
   ('l, ('cert, 'key, 'addr) server_setup) protofish_endpoint \<Rightarrow>
   (unreliable_recv \<times> reliable_recv option) outcome" where
  "ogg_server_open S env server =
     bind_outcome (unwrap (ok_or () (server_accept server (sv_incoming env)))) (\<lambda>incoming.
     bind_outcome (unwrap (accept_connection (sv_accept env) (server_config.truncate (ic_server_config incoming)) ::
         protofish_connection_error + ('q, nat) protofish_connection \<times> duration \<times> duration)) (\<lambda>(conn, keepalive).
     bind_outcome (accept_mani S conn (sv_accept_bi env)) (\<lambda>accepted.
     bind_outcome (unwrap accepted) (\<lambda>task.
     bind_outcome (unwrap (accept_transfer (sv_message env))) (\<lambda>transfer. Done (streams_of transfer))))))"

text \<open>From the streams to the finished file; the result is missing while the task waits.\<close>

definition ogg_server_write ::
  "bool \<Rightarrow> ('d, 'f :: zero) opus_ops \<Rightarrow> ('w, 'f) wav_ops \<Rightarrow> string + 'd \<Rightarrow> string \<Rightarrow> jitter_event list \<Rightarrow>
   ('w \<times> u32) option outcome option" where
  "ogg_server_write overflow_checks ops W decoder output_path events =
     (case bind_outcome (unwrap (jitter_new decoder 2 20 100)) (\<lambda>jitter.
             bind_outcome (unwrap (wav_create W output_path ogg_wav_spec)) (\<lambda>writer. Done (jitter, writer))) of
        Panic \<Rightarrow> Some Panic
      | Done (jitter, writer) \<Rightarrow>
          map_option (\<lambda>r. bind_outcome r (\<lambda>(writer, frames, over).
              if over then bind_outcome (unwrap (wav_finalize W writer)) (\<lambda>file. Done (Some (file, frames)))
              else Done None))
            (write_frames overflow_checks ops W writer 0 jitter events))"

definition ogg_server ::
  "bool \<Rightarrow> 's semaphore_ops \<Rightarrow> ('d, 'f :: zero) opus_ops \<Rightarrow> ('w, 'f) wav_ops \<Rightarrow>
   ('q, 'addr, 'o, 'k, 'd) server_env \<Rightarrow> ('l, ('cert, 'key, 'addr) server_setup) protofish_endpoint \<Rightarrow> string \<Rightarrow>
   jitter_event list \<Rightarrow> ('w \<times> u32) option outcome option" where
  "ogg_server overflow_checks S ops W env server output_path events =
     (case ogg_server_open S env server of
        Panic \<Rightarrow> Some Panic
      | Done streams \<Rightarrow> ogg_server_write overflow_checks ops W (sv_decoder env) output_path events)"

section \<open>The client\<close>

text \<open>
  The sending loop, over the items of \<open>stream_ogg\<close>.  An error of the reader is taken for the
  end of the file (\<^verbatim>\<open>unwrap_or(None)\<close>).
\<close>

fun ogg_stream ::
  "bool \<Rightarrow> buf_ops \<Rightarrow> 's semaphore_ops \<Rightarrow> send_stream \<Rightarrow> u64 \<Rightarrow> u32 \<Rightarrow>
   ((string + bytes) \<times> (nat \<Rightarrow> bytes \<Rightarrow> string + unit) \<times> 's backpressure_bank) list \<Rightarrow>
   (send_stream \<times> (timestamp \<times> bytes \<times> bytes list) list \<times> (app_error + u32) option) outcome" where
  "ogg_stream overflow_checks B S transfer timestamp_ms sent_frames [] = Done (transfer, [], Some (Inr sent_frames))"
| "ogg_stream overflow_checks B S transfer timestamp_ms sent_frames ((packet, tx, bank) # items) =
     (case packet of
        Inl e \<Rightarrow> Done (transfer, [], Some (Inr sent_frames))
      | Inr data \<Rightarrow>
          if opus_header data then ogg_stream overflow_checks B S transfer timestamp_ms sent_frames items
          else
            bind_outcome (send B S tx transfer bank (Timestamp timestamp_ms) data) (\<lambda>r.
              case r of
                AwaitingCredit n bank \<Rightarrow> Done (transfer, [], None)
              | Returned transfer bank datagrams result \<Rightarrow>
                  (case map_err (\<lambda>e. AppError None (SendCause e)) result of
                     Inl e \<Rightarrow> Done (transfer, [], Some (Inl e))
                   | Inr _ \<Rightarrow>
                       if overflow_checks \<and> 2 ^ 64 \<le> unat timestamp_ms + 20 then Panic
                       else
                         bind_outcome (next_frame overflow_checks sent_frames) (\<lambda>sent_frames.
                         bind_outcome
                           (ogg_stream overflow_checks B S transfer (timestamp_ms + 20) sent_frames items)
                           (\<lambda>(transfer, hist, r).
                             Done (transfer, (Timestamp timestamp_ms, data, datagrams) # hist, r))))))"

text \<open>From the bound client to the end of the transfer.\<close>

definition ogg_client ::
  "bool \<Rightarrow> buf_ops \<Rightarrow> compression_libs \<Rightarrow> 's semaphore_ops \<Rightarrow> ('q, 'addr, 's) client_env \<Rightarrow>
   ('l, ('cert, 'addr) client_setup) protofish_endpoint \<Rightarrow>
   ((timestamp \<times> bytes \<times> bytes list) list \<times> transfer_send_command list \<times> (app_error + unit) option) outcome" where
  "ogg_client overflow_checks B L S env client =
     (case connect_connection (cl_connect env) (cl_shown env) (client_config.truncate (pe_config client))
             (byte_str ''localhost'') Map.empty ::
             protofish_connection_error + ('q, nat) protofish_connection \<times> duration \<times> duration of
        Inl e \<Rightarrow> Done ([], [], Some (Inl (AppError None (ConnectionCause e))))
      | Inr (conn, keepalive) \<Rightarrow>
          bind_outcome (open_mani S conn (cl_open_bi env)) (\<lambda>opened.
            case opened of
              Inl e \<Rightarrow> Done ([], [], Some (Inl (AppError None (ConnectionCause e))))
            | Inr task \<Rightarrow>
                (case start_transfer_internal B L (cl_start env) task Dual Uncompressed (SequenceNumber 0) None of
                   (task, effects, result) \<Rightarrow>
                     (case handle_start_transfer (cl_start_sent env) (if cl_start_replied env then Some result else None) of
                        Inl e \<Rightarrow> Done ([], [], Some (Inl (AppError None (SendCause e))))
                      | Inr transfer \<Rightarrow>
                          (case cl_file env of
                             Inl e \<Rightarrow> Done ([], drop_stream transfer (cl_response env) (cl_end_sent env),
                               Some (Inl (AppError None (LibraryCause e))))
                           | Inr items \<Rightarrow>
                               bind_outcome (ogg_stream overflow_checks B S transfer 0 0 items) (\<lambda>(transfer, hist, r).
                                 case r of
                                   None \<Rightarrow> Done (hist, [], None)
                                 | Some (Inl e) \<Rightarrow>
                                     Done (hist, drop_stream transfer (cl_response env) (cl_end_sent env), Some (Inl e))
                                 | Some (Inr sent) \<Rightarrow>
                                     (case end_stream transfer (cl_response env) (cl_end_sent env) (cl_end_reply env) of
                                        (transfer, commands, result) \<Rightarrow>
                                          Done (hist, commands,
                                            Some (map_err (\<lambda>e. AppError None (SendCause e)) result)))))))))"

section \<open>The program\<close>

text \<open>
  \<open>joined\<close> is what awaiting the server task gives, an error if the task panicked; without
  it, the program waits.  With too few arguments the program only prints how it is used.
\<close>

definition ogg_main ::
  "bool \<Rightarrow> ('cert, 'key, 'addr, 'l) quic_libs \<Rightarrow> ('fs, 'g, 'cert, 'key) peer_libs \<Rightarrow> buf_ops \<Rightarrow> compression_libs \<Rightarrow>
   's semaphore_ops \<Rightarrow> ('q, 'addr, 's) client_env \<Rightarrow> string + 'addr \<Rightarrow> (string + unit) option \<Rightarrow> string list \<Rightarrow>
   ((timestamp \<times> bytes \<times> bytes list) list \<times> transfer_send_command list \<times> (app_error + unit) option) outcome" where
  "ogg_main overflow_checks Q P B L S env local_addr joined args =
     (if args = [] then Panic
      else if length args < 3 then Done ([], [], Some (Inr ()))
      else
        bind_outcome (generate_cert P) (\<lambda>(cert_chain, private_key).
        bind_outcome (server_bind Q (ogg_server_setup (cl_any_address env) cert_chain private_key)) (\<lambda>bound.
        bind_outcome (unwrap bound) (\<lambda>server.
        case local_addr of
          Inl e \<Rightarrow> Done ([], [], Some (Inl (AppError None (LibraryCause e))))
        | Inr server_addr \<Rightarrow>
            bind_outcome (client_bind Q (ogg_client_setup (cl_any_address env) cert_chain)) (\<lambda>bound.
            bind_outcome (unwrap bound) (\<lambda>client.
            bind_outcome (ogg_client overflow_checks B L S env client) (\<lambda>(hist, commands, result).
              case result of
                Some (Inr _) \<Rightarrow>
                  Done (hist, commands, map_option (map_err (\<lambda>e. AppError None (LibraryCause e))) joined)
              | _ \<Rightarrow> Done (hist, commands, result))))))))"

section \<open>What the client sends\<close>

text \<open>The packets before the first error of the reader.\<close>

definition readable ::
  "((string + bytes) \<times> 'env) list \<Rightarrow> ((string + bytes) \<times> 'env) list" where
  "readable = takeWhile (\<lambda>(packet, env). \<not> isl packet)"

lemma readable_simps [simp]:
  "readable [] = []" "readable ((Inl e, env) # items) = []"
  "readable ((Inr data, env) # items) = (Inr data, env) # readable items"
  by (simp_all add: readable_def)

text \<open>The loop is that of the test peer on the readable part.\<close>

lemma ogg_stream_readable:
  "ogg_stream oc B S s ts n items = Done (s', hist, Some (Inr n')) \<Longrightarrow>
   \<exists>m'. stream_ogg False B S s ts m (readable items) = Done (s', hist, Some (Inr m'))"
proof (induction items arbitrary: s ts n m hist)
  case Nil
  then show ?case by simp
next
  case (Cons item items)
  obtain packet tx bank where item: "item = (packet, tx, bank)" by (cases item)
  show ?case
  proof (cases packet)
    case (Inl e)
    then show ?thesis using Cons.prems by (simp add: item)
  next
    case (Inr data)
    show ?thesis
    proof (cases "opus_header data")
      case True
      then show ?thesis using Cons by (simp add: item Inr with_context_def)
    next
      case False
      from Cons.prems obtain r where r: "send B S tx s bank (Timestamp ts) data = Done r"
        using False by (cases "send B S tx s bank (Timestamp ts) data") (simp_all add: item Inr)
      from Cons.prems obtain s1 b1 ds where ret: "r = Returned s1 b1 ds (Inr ())"
        using False r by (cases r) (auto simp: item Inr split: sum.splits)
      from Cons.prems obtain n1 hist1 where
        rest: "ogg_stream oc B S s1 (ts + 20) n1 items = Done (s', hist1, Some (Inr n'))"
        and hist: "hist = (Timestamp ts, data, ds) # hist1"
        using False r ret by (auto simp: item Inr split: if_splits)
      from Cons.IH [OF rest, of "m + 1"] False r ret hist show ?thesis
        by (auto simp: item Inr with_context_def FRAME_MS_def)
    qed
  qed
qed

lemma ogg_client_history:
  fixes env :: "('q, 'addr, 's) client_env"
  assumes run: "ogg_client oc B L S env client = Done (hist, commands, Some (Inr ()))"
    and short: "\<forall>h \<in> set hist. length (snd (snd h)) < 2 ^ 16"
  shows "\<exists>i items k mtu s. cl_open_bi env = Inr i \<and> cl_file env = Inr items \<and>
     content_run B S (send_stream_new (mani_id_of i) Dual NoCompression (SequenceNumber 0) k Map.empty mtu) hist s \<and>
     map (fst \<circ> snd) hist = audio_packets (readable items) \<and>
     (\<forall>i < length hist. fst (hist ! i) = Timestamp (of_nat (i * 20))) \<and>
     commands = [EndTransferCommand (stream_final_sequence_number s) (cl_response env)]"
proof -
  obtain conn keepalive where conn: "(connect_connection (cl_connect env) (cl_shown env)
      (client_config.truncate (pe_config client)) (byte_str ''localhost'') Map.empty ::
      protofish_connection_error + ('q, nat) protofish_connection \<times> duration \<times> duration) = Inr (conn, keepalive)"
    using run by (auto simp: ogg_client_def split: sum.splits)
  obtain task where task: "open_mani S conn (cl_open_bi env) = Done (Inr task)"
  proof (cases "open_mani S conn (cl_open_bi env)")
    case (Done r)
    then show ?thesis using run conn that by (cases r) (auto simp: ogg_client_def)
  qed (use run conn in \<open>simp add: ogg_client_def\<close>)
  obtain task' es result where
    start: "start_transfer_internal B L (cl_start env) task Dual Uncompressed (SequenceNumber 0) None = (task', es, result)"
    by (metis prod_cases3)
  obtain transfer where transfer: "result = Inr transfer"
    "handle_start_transfer (cl_start_sent env) (if cl_start_replied env then Some result else None) = Inr transfer"
    using run conn task start by (auto simp: ogg_client_def handle_start_transfer_def split: sum.splits if_splits)
  obtain items where items: "cl_file env = Inr items"
    using run conn task start transfer by (cases "cl_file env") (auto simp: ogg_client_def)
  obtain s h r where loop: "ogg_stream oc B S transfer 0 0 items = Done (s, h, r)"
    using run conn task start transfer items
    by (cases "ogg_stream oc B S transfer 0 0 items") (auto simp: ogg_client_def)
  obtain sent where sent: "r = Some (Inr sent)"
    using run conn task start transfer items loop
    by (cases r) (auto simp: ogg_client_def split: sum.splits)
  have ended: "h = hist" "snd (end_stream s (cl_response env) (cl_end_sent env) (cl_end_reply env)) = (commands, Inr ())"
    using run conn task start transfer items loop sent by (auto simp: ogg_client_def split: prod.splits)
  then have "commands = [EndTransferCommand (stream_final_sequence_number s) (cl_response env)]"
    by (auto simp: end_stream_def Let_def split: if_splits option.splits)
  moreover obtain m' where "stream_ogg False B S transfer 0 0 (readable items) = Done (s, hist, Some (Inr m'))"
    using ogg_stream_readable [OF loop [unfolded sent], of 0] ended(1) by auto
  from stream_ogg_run [OF this short] have "content_run B S transfer hist s"
    "map (fst \<circ> snd) hist = audio_packets (readable items)"
    "\<forall>i < length hist. fst (hist ! i) = Timestamp (of_nat (i * 20))" by simp_all
  moreover obtain i k mtu where "cl_open_bi env = Inr i"
    "transfer = send_stream_new (mani_id_of i) Dual NoCompression (SequenceNumber 0) k Map.empty mtu"
    using open_mani_id [OF task] start_transfer_stream [OF start [unfolded transfer(1)]] by auto
  ultimately show ?thesis using items by blast
qed

section \<open>What the server writes\<close>

text \<open>
  What is asked of the WAV writer, for the specifications it accepts: a new file is empty,
  samples are appended, and finalising keeps them.
\<close>

locale wav_writer =
  fixes W :: "('w, 'f :: zero) wav_ops"
    and accepted :: "wav_spec \<Rightarrow> bool"
    and written :: "'w \<Rightarrow> 'f list"
  assumes created: "accepted spec \<Longrightarrow> \<exists>w. wav_create W path spec = Inr w \<and> written w = []"
    and sample_written: "\<exists>w'. wav_write_sample W w sample = Inr w' \<and> written w' = written w @ [sample]"
    and finalized: "\<exists>file. wav_finalize W w = Inr file \<and> written file = written w"
begin

lemma samples_written: "\<exists>w'. write_samples W w pcm = Done w' \<and> written w' = written w @ pcm"
proof (induction pcm arbitrary: w)
  case (Cons sample pcm)
  obtain w1 where w1: "wav_write_sample W w sample = Inr w1" "written w1 = written w @ [sample]"
    using sample_written by blast
  from Cons.IH [of w1] obtain w2 where "write_samples W w1 pcm = Done w2" "written w2 = written w1 @ pcm" by blast
  with w1 show ?case by simp
qed simp

lemma frames_written:
  assumes "yield_session False ops (Suc (length pcms)) J events =
      Done (map (\<lambda>pcm. Some (Inr (Some pcm))) pcms @ [Some (Inr None)])"
  shows "\<exists>w'. write_frames False ops W w n J events = Some (Done (w', n + of_nat (length pcms), True)) \<and>
     written w' = written w @ concat pcms"
  using assms
proof (induction pcms arbitrary: w n J events)
  case Nil
  then obtain J' es where "yield_pcm False ops J events = Done (J', es, Some (Inr None))" by auto
  then show ?case by (simp add: write_frames.simps [of False ops W w n J events])
next
  case (Cons pcm pcms)
  then obtain J' es where one: "yield_pcm False ops J events = Done (J', es, Some (Inr (Some pcm)))"
    and rest: "yield_session False ops (Suc (length pcms)) J' es =
      Done (map (\<lambda>pcm. Some (Inr (Some pcm))) pcms @ [Some (Inr None)])"
    by (auto simp del: yield_session.simps simp: yield_session.simps(2) [of False ops "Suc (length pcms)"])
  obtain w1 where w1: "write_samples W w pcm = Done w1" "written w1 = written w @ pcm"
    using samples_written by blast
  from Cons.IH [OF rest, of w1 "n + 1"] obtain w' where
    "write_frames False ops W w1 (n + 1) J' es = Some (Done (w', n + 1 + of_nat (length pcms), True))"
    "written w' = written w1 @ concat pcms" by blast
  with one w1 show ?case
    by (simp add: write_frames.simps [of False ops W w n J events] next_frame_def)
qed

end

text \<open>A writer that keeps the samples and takes integers of up to 32 bits and floats of 32 bits.\<close>

definition kept_samples :: "(nat list, nat) wav_ops" where
  "kept_samples =
     \<lparr> wav_create = (\<lambda>path spec.
         if wav_sample_format spec = FloatFormat \<and> wav_bits_per_sample spec \<noteq> 32 then Inl ''unsupported format'' else Inr []),
       wav_write_sample = (\<lambda>w sample. Inr (w @ [sample])), wav_finalize = Inr \<rparr>"

interpretation kept: wav_writer kept_samples
  "\<lambda>spec. wav_sample_format spec = FloatFormat \<longrightarrow> wav_bits_per_sample spec = 32" id
  by unfold_locales (simp_all add: kept_samples_def)

text \<open>
  The file holds the samples of every packet before the first error of the reader, in order,
  when the sends arrive whole and in an order that the playout delay absorbs, and the writer
  accepts the example's specification.
\<close>

lemma example_writes_file:
  fixes W :: "('w, 'f :: zero) wav_ops"
  assumes B: "byte_buf B" and writer: "wav_writer W accepted written" "accepted ogg_wav_spec"
    and run: "ogg_client oc B L S env client = Done (hist, commands, Some (Inr ()))"
    and outside: "cl_open_bi env = Inr i" "cl_file env = Inr items"
    and sizes: "\<forall>h \<in> set hist. length (snd (snd h)) < 2 ^ 16" "length hist * 20 < 2 ^ 64"
    and arrivals: "arrivals \<noteq> []" "hd arrivals = 0" "distinct arrivals" "set arrivals = {..<length hist}"
      "sorted_wrt (\<lambda>i j. i < j + 5) arrivals"
    and registered: "dr_senders router (mani_id_of i) = Some channel" and groups: "0 < groups"
    and dec: "decode_all ops 2 d (audio_packets (readable items)) = Some (d', pcms)"
  shows "\<exists>ps deliveries u' c' es events file.
     router_run B router (map (DatagramRead now True) (concat (map (\<lambda>j. snd (snd (hist ! j))) arrivals))) =
       Done (router, map (\<lambda>p. (channel, p)) ps) \<and>
     receive_all B (packet_receiver_new 2 NoCompression groups) (all_alive ps) =
       Done (packet_receiver_new 2 NoCompression groups, deliveries, False) \<and>
     timed_recvs u c (map (\<lambda>p. [((False, idle), UnreliablePacket p)]) (on_channel 1 deliveries) @
         [[((True, True), UnreliableChannelClosed)]]) = (u', c', es, events) \<and>
     ogg_server_write False ops W (Inr d) path events = Some (Done (Some (file, of_nat (length pcms)))) \<and>
     written file = concat pcms"
proof -
  obtain k mtu s where
    hist: "content_run B S (send_stream_new (mani_id_of i) Dual NoCompression (SequenceNumber 0) k Map.empty mtu) hist s"
    and contents: "map (fst \<circ> snd) hist = audio_packets (readable items)"
    and pace: "\<forall>i < length hist. fst (hist ! i) = Timestamp (of_nat (i * 20))"
    using ogg_client_history [OF run sizes(1)] outside by auto
  have dec': "decode_all ops CHANNELS d (audio_packets (readable items)) = Some (d', pcms)"
    using dec by (simp add: CHANNELS_def)
  have "1 < (2 :: nat)" by simp
  from history_yielded [OF B hist contents pace sizes(2) arrivals registered groups this dec', of _ u c idle False]
  obtain ps deliveries u' c' es events J where
    received: "router_run B router (map (DatagramRead now True) (concat (map (\<lambda>j. snd (snd (hist ! j))) arrivals))) =
       Done (router, map (\<lambda>p. (channel, p)) ps)"
     "receive_all B (packet_receiver_new 2 NoCompression groups) (all_alive ps) =
       Done (packet_receiver_new 2 NoCompression groups, deliveries, False)"
     "timed_recvs u c (map (\<lambda>p. [((False, idle), UnreliablePacket p)]) (on_channel 1 deliveries) @
         [[((True, True), UnreliableChannelClosed)]]) = (u', c', es, events)"
    and J: "jitter_new (Inr d) CHANNELS FRAME_MS PLAYOUT_DELAY_MS = Inr J"
    and yielded: "yield_session False ops (Suc (length pcms)) J events =
       Done (map (\<lambda>pcm. Some (Inr (Some pcm))) pcms @ [Some (Inr None)])"
    by blast
  obtain w where w: "wav_create W path ogg_wav_spec = Inr w" "written w = []"
    using wav_writer.created [OF writer] by blast
  obtain w' where w': "write_frames False ops W w 0 J events = Some (Done (w', 0 + of_nat (length pcms), True))"
    "written w' = written w @ concat pcms"
    using wav_writer.frames_written [OF writer(1) yielded] by blast
  obtain f where f: "wav_finalize W w' = Inr f" "written f = written w'"
    using wav_writer.finalized [OF writer(1)] by blast
  have "jitter_new (Inr d) 2 20 100 = Inr J" using J by (simp add: CHANNELS_def FRAME_MS_def PLAYOUT_DELAY_MS_def)
  then have "ogg_server_write False ops W (Inr d) path events = Some (Done (Some (f, of_nat (length pcms))))"
    using w(1) w'(1) f(1) by (simp add: ogg_server_write_def)
  with received show ?thesis using w(2) w'(2) f(2) by auto
qed

text \<open>The specification asks for floats of 16 bits; a writer that takes floats of 32 bits only
  makes the server task panic, whatever happens.\<close>

lemma example_needs_narrow_floats:
  assumes "\<And>path spec. wav_sample_format spec = FloatFormat \<Longrightarrow> wav_bits_per_sample spec \<noteq> 32 \<Longrightarrow> isl (wav_create W path spec)"
  shows "ogg_server oc S ops W env server path events = Some Panic"
proof -
  obtain e where "wav_create W path ogg_wav_spec = Inl e"
    using assms [of ogg_wav_spec path] by (auto simp: ogg_wav_spec_def isl_def)
  then have "ogg_server_write oc ops W (sv_decoder env) path events = Some Panic"
    by (cases "jitter_new (sv_decoder env) 2 20 100") (simp_all add: ogg_server_write_def)
  then show ?thesis by (cases "ogg_server_open S env server") (simp_all add: ogg_server_def)
qed

end
