(* ===== verification/Examples.thy ===== *)
theory Examples
  imports Ogg_Example Reconnect
begin

text \<open>
  The examples \<^verbatim>\<open>src/examples/basic_connection.rs\<close> and
  \<^verbatim>\<open>src/examples/reconnecting_client.rs\<close>: a handshake between a server and a client in one
  program, and a client that keeps opening streams while its server goes away and comes back.
\<close>

section \<open>Set-up of both\<close>

definition example_server_setup :: "'addr \<Rightarrow> 'cert list \<Rightarrow> 'key \<Rightarrow> ('cert, 'key, 'addr) server_setup" where
  "example_server_setup address cert_chain private_key =
     \<lparr> sc_supported_compression_types = [Lz4, Uncompressed], sc_keepalive_interval = from_secs 5,
       sc_protofish_config = protofish_config_default, sc_bind_address = address,
       sc_cert_chain = cert_chain, sc_private_key = private_key \<rparr>"

definition example_client_setup :: "'addr \<Rightarrow> 'cert list \<Rightarrow> ('cert, 'addr) client_setup" where
  "example_client_setup address cert_chain =
     \<lparr> cc_supported_compression_types = [Lz4, Uncompressed],
       cc_keepalive_range = (from_secs 1, from_secs 10), cc_protofish_config = protofish_config_default,
       cc_bind_address = address, cc_root_certificates = cert_chain \<rparr>"

section \<open>The basic connection\<close>

text \<open>The server task: the negotiated compression of its connection, or a panic.\<close>

definition basic_server ::
  "'q accept_env \<Rightarrow> 'i option \<Rightarrow> ('l, ('cert, 'key, 'addr) server_setup) protofish_endpoint \<Rightarrow>
   (('q, nat) protofish_connection \<times> compression_type) outcome" where
  "basic_server env incoming server =
     (case server_accept server incoming of
        None \<Rightarrow> Panic
      | Some incoming \<Rightarrow>
          (case accept_connection env (server_config.truncate (ic_server_config incoming)) of
             Inl e \<Rightarrow> Panic
           | Inr (conn, keepalive) \<Rightarrow> Done (conn, pc_compression_type conn)))"

definition example_headers :: headers where
  "example_headers = [byte_str ''example-header'' \<mapsto> byte_str ''hello server'']"

definition basic_client ::
  "'q connect_env \<Rightarrow> (string \<Rightarrow> string) \<Rightarrow> ('l, ('cert, 'addr) client_setup) protofish_endpoint \<Rightarrow>
   (('q, nat) protofish_connection \<times> compression_type) outcome" where
  "basic_client env shown client =
     bind_outcome (unwrap (connect_connection env shown (client_config.truncate (pe_config client))
         (byte_str ''localhost'') example_headers))
       (\<lambda>(conn, keepalive). Done (conn, pc_compression_type conn))"

text \<open>The program; awaiting a server task that panicked panics.\<close>

definition basic_main ::
  "('cert, 'key, 'addr, 'l) quic_libs \<Rightarrow> ('fs, 'g, 'cert, 'key) peer_libs \<Rightarrow> 'addr \<Rightarrow> string + 'addr \<Rightarrow>
   'q accept_env \<Rightarrow> 'i option \<Rightarrow> 'q connect_env \<Rightarrow> (string \<Rightarrow> string) \<Rightarrow>
   (compression_type \<times> compression_type) outcome" where
  "basic_main Q P any_address local_addr senv incoming cenv shown =
     bind_outcome (generate_cert P) (\<lambda>(cert_chain, private_key).
     bind_outcome (server_bind Q (example_server_setup any_address cert_chain private_key)) (\<lambda>bound.
     bind_outcome (unwrap bound) (\<lambda>server.
     bind_outcome (unwrap local_addr) (\<lambda>server_addr.
     bind_outcome (client_bind Q (example_client_setup any_address cert_chain)) (\<lambda>bound.
     bind_outcome (unwrap bound) (\<lambda>client.
     bind_outcome (basic_client cenv shown client) (\<lambda>(client_conn, client_compression).
     bind_outcome (basic_server senv incoming server) (\<lambda>(server_conn, server_compression).
       Done (server_compression, client_compression)))))))))"

section \<open>The server that goes away\<close>

text \<open>
  The server task after binding: what \<open>accept\<close> of the endpoint gives, with the environment of
  each handshake.  A failed handshake is passed over; after the first that succeeds the
  connection is dropped, which aborts its keepalive task, and the endpoint closed.  The flag
  tells whether the task has ended.
\<close>

fun crashing_server ::
  "('cert, 'key, 'addr, 'l) quic_libs \<Rightarrow> ('l, ('cert, 'key, 'addr) server_setup) protofish_endpoint \<Rightarrow>
   ('i option \<times> 'q accept_env) list \<Rightarrow>
   ('l, ('cert, 'key, 'addr) server_setup) protofish_endpoint \<times> bool option \<times> bool" where
  "crashing_server Q server [] = (server, None, False)"
| "crashing_server Q server ((incoming, env) # rest) =
     (case server_accept server incoming of
        None \<Rightarrow> (server, None, True)
      | Some incoming \<Rightarrow>
          (case accept_connection env (server_config.truncate (ic_server_config incoming)) ::
                protofish_connection_error + ('q, nat) protofish_connection \<times> duration \<times> duration of
             Inl e \<Rightarrow> crashing_server Q server rest
           | Inr (conn, keepalive) \<Rightarrow>
               (server_close Q server 0 (byte_str ''Simulated crash''), Some (connection_drop conn), True)))"

text \<open>\<open>address\<close> gives the address with a port on the local host, \<open>local_addr\<close> that of an endpoint.\<close>

definition start_server ::
  "('cert, 'key, 'addr, 'l) quic_libs \<Rightarrow> (u16 \<Rightarrow> 'addr) \<Rightarrow> ('l \<Rightarrow> string + 'addr) \<Rightarrow> 'cert list \<Rightarrow> 'key \<Rightarrow> u16 \<Rightarrow>
   (('l, ('cert, 'key, 'addr) server_setup) protofish_endpoint \<times> 'addr) outcome" where
  "start_server Q address local_addr cert_chain private_key port =
     bind_outcome (server_bind Q (example_server_setup (address port) cert_chain private_key)) (\<lambda>bound.
     bind_outcome (unwrap bound) (\<lambda>server.
     bind_outcome (unwrap (local_addr (pe_endpoint server))) (\<lambda>server_addr. Done (server, server_addr))))"

section \<open>The client that reconnects\<close>

definition example_reconnect_config :: "'f \<Rightarrow> 'f reconnect_config" where
  "example_reconnect_config multiplier =
     \<lparr> initial_backoff = from_millis 200, max_backoff = from_secs 2, backoff_multiplier = multiplier,
       max_retries = Some 10 \<rparr>"

text \<open>
  The three rounds of the loop: each opens a stream, on whatever connection the wrapper has
  then, and nobody subscribes to the reconnects; an error is only logged.  After the first the
  server is started again on its port.  The results of the rounds are returned; a round that
  waits ends the list.
\<close>

definition unheard ::
  "(protofish_connection_error + 'q) list \<times> 'op \<Rightarrow> (protofish_connection_error + 'q \<times> bool) list \<times> 'op" where
  "unheard round = map_prod (map (map_sum id (\<lambda>conn. (conn, False)))) id round"

fun open_rounds ::
  "bool \<Rightarrow> (duration \<Rightarrow> 'f \<Rightarrow> duration outcome) \<Rightarrow> 'x outcome \<Rightarrow> ('f, 'q) reconnecting_connection \<Rightarrow> nat \<Rightarrow>
   ((protofish_connection_error + 'q) list \<times> ('q \<Rightarrow> protofish_connection_error + 'm)) list list \<Rightarrow>
   (('f, 'q) reconnecting_connection \<times> (protofish_connection_error + 'm) list) outcome" where
  "open_rounds overflow_checks scale restart conn i [] = Done (conn, [])"
| "open_rounds overflow_checks scale restart conn i (rounds # later) =
     (if i < 3 then
        bind_outcome (mani_loop overflow_checks scale conn (map unheard rounds)) (\<lambda>(conn, es, result).
          case result of
            None \<Rightarrow> Done (conn, [])
          | Some r \<Rightarrow>
              bind_outcome (if i = 0 then bind_outcome restart (\<lambda>x. Done ()) else Done ()) (\<lambda>u.
              bind_outcome (open_rounds overflow_checks scale restart conn (Suc i) later) (\<lambda>(conn, results).
                Done (conn, r # results))))
      else Done (conn, []))"

definition reconnecting_main ::
  "bool \<Rightarrow> ('cert, 'key, 'addr, 'l) quic_libs \<Rightarrow> ('fs, 'g, 'cert, 'key) peer_libs \<Rightarrow> (u16 \<Rightarrow> 'addr) \<Rightarrow> ('addr \<Rightarrow> u16) \<Rightarrow>
   ('l \<Rightarrow> string + 'addr) \<Rightarrow> (duration \<Rightarrow> 'f \<Rightarrow> duration outcome) \<Rightarrow> 'f \<Rightarrow> (protofish_connection_error + 'q) list \<Rightarrow>
   ((protofish_connection_error + 'q) list \<times> ('q \<Rightarrow> protofish_connection_error + 'm)) list list \<Rightarrow>
   (protofish_connection_error + 'm) list outcome" where
  "reconnecting_main overflow_checks Q P address port local_addr scale multiplier answers rounds =
     bind_outcome (generate_cert P) (\<lambda>(cert_chain, private_key).
     bind_outcome (start_server Q address local_addr cert_chain private_key 0) (\<lambda>(server, server_addr).
     bind_outcome (client_bind Q (example_client_setup (address 0) cert_chain)) (\<lambda>bound.
     bind_outcome (unwrap bound) (\<lambda>client.
     bind_outcome (reconnecting_connect overflow_checks scale (byte_str ''localhost'') Map.empty
         (example_reconnect_config multiplier) answers) (\<lambda>(es, connected).
       case connected of
         None \<Rightarrow> Done []
       | Some r \<Rightarrow>
           bind_outcome (unwrap r) (\<lambda>conn.
           bind_outcome (open_rounds overflow_checks scale
               (start_server Q address local_addr cert_chain private_key (port server_addr)) conn 0 rounds)
             (\<lambda>(conn, results). Done results)))))))"

section \<open>What they do\<close>

text \<open>Both sides of the basic example negotiate Lz4 when their hellos reach each other.\<close>

lemma basic_agreement:
  assumes "accept_env_ok senv sq" and "connect_env_ok cenv cq"
    and "ae_next senv = Some (Some (Inr (ClientHello (client_hello_of
      (client_config.truncate (example_client_setup address chain)) (byte_str ''localhost'') example_headers))))"
    and "ce_next cenv = Some (Some (Inr (ServerHello (server_hello_for
      (server_config.truncate (example_server_setup address chain key))
      (client_hello_of (client_config.truncate (example_client_setup address chain)) (byte_str ''localhost'') example_headers)))))"
    and "pe_config server = example_server_setup address chain key"
    and "pe_config client = example_client_setup address chain"
  shows "\<exists>sc cc. basic_server senv (Some incoming) server = Done (sc, Lz4) \<and>
     basic_client cenv shown client = Done (cc, Lz4)"
proof -
  have "snd (server_handshake senv (server_config.truncate (example_server_setup address chain key))) =
      Inr (sq, Lz4, from_millis (as_millis (from_secs 5) mod 2 ^ 32))"
    by (subst server_handshake_ok [OF assms(1,3)])
      (simp_all add: client_hello_of_def server_config.truncate_def client_config.truncate_def
        example_server_setup_def example_client_setup_def choose_compression_def)
  moreover have "\<exists>interval. snd (client_handshake cenv shown (client_config.truncate (example_client_setup address chain))
      (byte_str ''localhost'') example_headers) = Inr (cq, Lz4, interval)"
    by (subst client_handshake_ok [OF assms(2)])
      (simp add: assms(4) server_hello_for_def client_hello_of_def
        server_config.truncate_def client_config.truncate_def
        example_server_setup_def example_client_setup_def choose_compression_def)
  ultimately show ?thesis
    using assms(5,6)
    by (auto simp: basic_server_def basic_client_def server_accept_def accept_connection_def connect_connection_def
        establish_def)
qed

text \<open>However often the example reconnects, its generation stays that of the start.\<close>

lemma open_rounds_generation:
  "open_rounds oc scale restart conn i rounds = Done (conn', results) \<Longrightarrow>
   rc_generation conn' = rc_generation conn \<and> length results \<le> 3 - i"
proof (induction oc scale restart conn i rounds arbitrary: results rule: open_rounds.induct)
  case (2 oc scale restart conn i rounds later)
  show ?case
  proof (cases "i < 3")
    case True
    with "2.prems" obtain conn1 es result where loop: "mani_loop oc scale conn (map unheard rounds) = Done (conn1, es, result)"
      by (cases "mani_loop oc scale conn (map unheard rounds)") auto
    have "\<forall>(answers, operation) \<in> set (map unheard rounds). \<forall>q. Inr (q, True) \<notin> set answers"
      by (auto simp: unheard_def map_sum_def split: sum.splits)
    from mani_loop_silent [OF loop this] have same: "rc_generation conn1 = rc_generation conn" .
    show ?thesis
    proof (cases result)
      case None
      then show ?thesis using "2.prems" True loop same by simp
    next
      case (Some r)
      let ?restart = "if i = 0 then bind_outcome restart (\<lambda>x. Done ()) else Done ()"
      obtain results' where rest: "open_rounds oc scale restart conn1 (Suc i) later = Done (conn', results')"
        "results = r # results'" "?restart = Done ()"
        using "2.prems" True loop Some
        by (cases ?restart; cases "open_rounds oc scale restart conn1 (Suc i) later") auto
      from "2.IH" [OF True loop refl refl Some rest(3,1)] show ?thesis
        using True same rest(2) by (simp; arith)
    qed
  qed (use "2.prems" in simp)
qed simp

end
