(* ===== verification/Keepalive_Pair.thy ===== *)
theory Keepalive_Pair
  imports Connection
begin

text \<open>
  The keepalive tasks of both ends of a connection, running against each other: each ticks on
  its own timer, and what it sends arrives at the other, in order and after some time.  The
  tasks are \<open>keepalive_loop\<close> of \<open>Connection\<close>; this theory adds the timers and the wire.
\<close>

section \<open>Two tasks and the wire between them\<close>

text \<open>
  The fixed part of a run.  A task creates its timer at \<open>ka_created\<close> and has noted its first
  activity at \<open>ka_start\<close>; a tick is handled at least \<open>ka_tick_early\<close> and at most
  \<open>ka_tick_late\<close> after it is due, a message at most \<open>ka_latency\<close> after it was sent.  Both
  tasks run at \<open>ka_begin\<close>.
\<close>

record ka_params =
  ka_interval :: duration
  ka_timeout :: "quic_side \<Rightarrow> duration"
  ka_created :: "quic_side \<Rightarrow> instant"
  ka_start :: "quic_side \<Rightarrow> instant"
  ka_begin :: instant
  ka_tick_early :: duration
  ka_tick_late :: duration
  ka_latency :: duration

fun other_side :: "quic_side \<Rightarrow> quic_side" where
  "other_side ClientSide = ServerSide"
| "other_side ServerSide = ClientSide"

lemma other_side_neq [simp]: "other_side p \<noteq> p" "p \<noteq> other_side p"
  by (cases p; simp)+

lemma other_side_twice [simp]: "other_side (other_side p) = p"
  by (cases p) simp_all

lemma side_cases: "q \<noteq> p \<Longrightarrow> q = other_side p"
  by (cases p; cases q) simp_all

text \<open>
  One end: what its task has handled, the last activity while its loop has not been left, when
  the next tick is due, and the messages on their way to it with the time they were sent.
\<close>

record ka_side =
  ks_events :: "keepalive_event list"
  ks_last :: "instant option"
  ks_deadline :: instant
  ks_inbox :: "(instant \<times> connection_message) list"

record ka_conf =
  kc_now :: instant
  kc_side :: "quic_side \<Rightarrow> ka_side"

definition ka_initial :: "ka_params \<Rightarrow> ka_conf" where
  "ka_initial P =
     \<lparr> kc_now = ka_begin P,
       kc_side = (\<lambda>p. \<lparr> ks_events = [], ks_last = Some (ka_start P p),
         ks_deadline = ka_created P p + ka_interval P, ks_inbox = [] \<rparr>) \<rparr>"

fun messages_of :: "instant \<Rightarrow> keepalive_action list \<Rightarrow> (instant \<times> connection_message) list" where
  "messages_of now [] = []"
| "messages_of now (KeepaliveSent # as) = (now, Keepalive) # messages_of now as"
| "messages_of now (KeepaliveAckSent # as) = (now, KeepaliveAck) # messages_of now as"
| "messages_of now (ConnectionClosed code reason # as) = messages_of now as"

text \<open>A side handles an event; what it sends goes on the wire.\<close>

definition ka_handle :: "ka_params \<Rightarrow> quic_side \<Rightarrow> keepalive_event \<Rightarrow> ka_conf \<Rightarrow> ka_conf" where
  "ka_handle P p e c =
     (case ks_last (kc_side c p) of
        None \<Rightarrow> c
      | Some l \<Rightarrow>
          (case keepalive_loop (ka_timeout P p) l [e] of
             (as, l') \<Rightarrow>
               c\<lparr> kc_side := (\<lambda>q.
                   if q = p then (kc_side c q)\<lparr> ks_events := ks_events (kc_side c q) @ [e], ks_last := l' \<rparr>
                   else (kc_side c q)\<lparr> ks_inbox := ks_inbox (kc_side c q) @ messages_of (kc_now c) as \<rparr>) \<rparr>))"

definition ka_update :: "quic_side \<Rightarrow> (ka_side \<Rightarrow> ka_side) \<Rightarrow> ka_conf \<Rightarrow> ka_conf" where
  "ka_update p f c = c\<lparr> kc_side := (kc_side c)(p := f (kc_side c p)) \<rparr>"

definition ka_running :: "ka_conf \<Rightarrow> bool" where
  "ka_running c \<longleftrightarrow> (\<forall>p. ks_last (kc_side c p) \<noteq> None)"

text \<open>Nothing may be left undone for longer than the bounds.\<close>

definition ka_on_time :: "ka_params \<Rightarrow> instant \<Rightarrow> ka_conf \<Rightarrow> bool" where
  "ka_on_time P t c \<longleftrightarrow>
     (\<forall>p. t \<le> ks_deadline (kc_side c p) + ka_tick_late P \<and>
       (\<forall>x \<in> set (ks_inbox (kc_side c p)). t \<le> fst x + ka_latency P))"

text \<open>The runs, up to the first task that leaves its loop.\<close>

inductive ka_run :: "ka_params \<Rightarrow> ka_conf \<Rightarrow> bool" for P where
  ka_begins: "ka_run P (ka_initial P)"
| ka_passes: "ka_run P c \<Longrightarrow> ka_running c \<Longrightarrow> kc_now c \<le> t \<Longrightarrow> ka_on_time P t c \<Longrightarrow>
    ka_run P (c\<lparr> kc_now := t \<rparr>)"
| ka_ticks: "ka_run P c \<Longrightarrow> ka_running c \<Longrightarrow> ks_deadline (kc_side c p) + ka_tick_early P \<le> kc_now c \<Longrightarrow>
    ka_run P (ka_handle P p (KeepaliveTick (kc_now c) (Inr ()))
      (ka_update p (\<lambda>sd. sd\<lparr> ks_deadline := ks_deadline sd + ka_interval P \<rparr>) c))"
| ka_delivers: "ka_run P c \<Longrightarrow> ka_running c \<Longrightarrow> ks_inbox (kc_side c p) = (sent, m) # rest \<Longrightarrow>
    ka_run P (ka_handle P p (ControlItem (kc_now c) (Some (Inr m)) (Inr ()))
      (ka_update p (\<lambda>sd. sd\<lparr> ks_inbox := rest \<rparr>) c))"

text \<open>What the task of a side has done: the function of the code on what it has handled.\<close>

definition ka_task :: "ka_params \<Rightarrow> ka_conf \<Rightarrow> quic_side \<Rightarrow> keepalive_action list \<times> instant option" where
  "ka_task P c p = keepalive_task (ka_interval P) (ka_timeout P p) (ka_start P p) (ks_events (kc_side c p))"

lemma ka_update_sel [simp]:
  "kc_now (ka_update p f c) = kc_now c" "kc_side (ka_update p f c) p = f (kc_side c p)"
  "q \<noteq> p \<Longrightarrow> kc_side (ka_update p f c) q = kc_side c q"
  by (simp_all add: ka_update_def)

lemma ka_handle_now [simp]: "kc_now (ka_handle P p e c) = kc_now c"
  by (simp add: ka_handle_def split: option.split prod.split)

lemma ka_handle_side:
  assumes "ks_last (kc_side c p) = Some l" and "keepalive_loop (ka_timeout P p) l [e] = (as, l')"
  shows "kc_side (ka_handle P p e c) p =
      (kc_side c p)\<lparr> ks_events := ks_events (kc_side c p) @ [e], ks_last := l' \<rparr>"
    and "q \<noteq> p \<Longrightarrow> kc_side (ka_handle P p e c) q =
      (kc_side c q)\<lparr> ks_inbox := ks_inbox (kc_side c q) @ messages_of (kc_now c) as \<rparr>"
  using assms by (simp_all add: ka_handle_def)

lemma ka_handle_loop:
  assumes "\<And>q. \<exists>as. keepalive_loop (ka_timeout P q) (ka_start P q) (ks_events (kc_side c q)) = (as, ks_last (kc_side c q))"
    and "ks_last (kc_side c p) \<noteq> None"
  shows "\<exists>as. keepalive_loop (ka_timeout P q) (ka_start P q) (ks_events (kc_side (ka_handle P p e c) q)) =
    (as, ks_last (kc_side (ka_handle P p e c) q))"
proof -
  obtain l as where l: "ks_last (kc_side c p) = Some l"
    "keepalive_loop (ka_timeout P p) (ka_start P p) (ks_events (kc_side c p)) = (as, Some l)"
    using assms(1) [of p] assms(2) by auto
  obtain bs l' where e: "keepalive_loop (ka_timeout P p) l [e] = (bs, l')" by fastforce
  show ?thesis
    using assms(1) [of q] ka_handle_side [OF l(1) e] keepalive_loop_append [OF l(2), of "[e]"] e
    by (cases "q = p") auto
qed

text \<open>The events of a run and the recorded last activity belong together.\<close>

lemma ka_run_loop:
  "ka_run P c \<Longrightarrow>
   \<exists>as. keepalive_loop (ka_timeout P q) (ka_start P q) (ks_events (kc_side c q)) = (as, ks_last (kc_side c q))"
proof (induction arbitrary: q rule: ka_run.induct)
  case ka_begins
  then show ?case by (simp add: ka_initial_def)
next
  case (ka_passes c t)
  then show ?case by simp
next
  case (ka_ticks c p)
  have "\<exists>as. keepalive_loop (ka_timeout P q) (ka_start P q) (ks_events (kc_side (ka_update p f c) q)) =
      (as, ks_last (kc_side (ka_update p f c) q))" if "\<And>sd. ks_events (f sd) = ks_events sd \<and> ks_last (f sd) = ks_last sd" for f q
    using ka_ticks.IH [of q] that by (cases "q = p") simp_all
  with ka_ticks.hyps(2) show ?case by (intro ka_handle_loop) (simp_all add: ka_running_def)
next
  case (ka_delivers c p sent m rest)
  have "\<exists>as. keepalive_loop (ka_timeout P q) (ka_start P q) (ks_events (kc_side (ka_update p f c) q)) =
      (as, ks_last (kc_side (ka_update p f c) q))" if "\<And>sd. ks_events (f sd) = ks_events sd \<and> ks_last (f sd) = ks_last sd" for f q
    using ka_delivers.IH [of q] that by (cases "q = p") simp_all
  with ka_delivers.hyps(2) show ?case by (intro ka_handle_loop) (simp_all add: ka_running_def)
qed

section \<open>Live peers\<close>

text \<open>
  How far the last activity of a side can lie behind the oldest message on its way or, when
  there is none, behind the next tick of the other side.
\<close>

definition ka_fresh :: "ka_params \<Rightarrow> ka_conf \<Rightarrow> quic_side \<Rightarrow> instant \<Rightarrow> bool" where
  "ka_fresh P c p l \<longleftrightarrow>
     (case ks_inbox (kc_side c p) of
        [] \<Rightarrow> ks_deadline (kc_side c (other_side p)) \<le> l + ka_interval P + ka_latency P
      | x # xs \<Rightarrow> fst x \<le> l + ka_interval P + ka_tick_late P + ka_latency P)"

definition ka_alive :: "ka_params \<Rightarrow> ka_conf \<Rightarrow> quic_side \<Rightarrow> bool" where
  "ka_alive P c p \<longleftrightarrow>
     (\<exists>l. ks_last (kc_side c p) = Some l \<and> ka_fresh P c p l) \<and>
     kc_now c \<le> ks_deadline (kc_side c p) + ka_tick_late P \<and>
     ks_deadline (kc_side c p) \<le> kc_now c + ka_interval P \<and>
     (\<forall>x \<in> set (ks_inbox (kc_side c p)).
        fst x \<le> kc_now c \<and> kc_now c \<le> fst x + ka_latency P \<and> snd x \<in> {Keepalive, KeepaliveAck})"

text \<open>What the bounds have to satisfy: a tick's delay and a round trip fit the timeout.\<close>

definition ka_timely :: "ka_params \<Rightarrow> bool" where
  "ka_timely P \<longleftrightarrow> ka_interval P \<noteq> 0 \<and>
     (\<forall>p. ka_created P p \<le> ka_start P p \<and> ka_start P p \<le> ka_begin P \<and>
       ka_begin P \<le> ka_start P p + ka_latency P \<and>
       ka_begin P \<le> ka_created P p + ka_interval P + ka_tick_late P \<and>
       ka_interval P + ka_tick_late P + 2 * ka_latency P \<le> ka_timeout P p)"

lemma ka_alive_within:
  assumes "ka_timely P" and "\<And>p. ka_alive P c p" and "ks_last (kc_side c p) = Some l"
  shows "kc_now c - l \<le> ka_timeout P p"
proof -
  have bound: "ka_interval P + ka_tick_late P + 2 * ka_latency P \<le> ka_timeout P p"
    using assms(1) by (simp add: ka_timely_def)
  have fresh: "ka_fresh P c p l" using assms(2) [of p] assms(3) by (simp add: ka_alive_def)
  show ?thesis
  proof (cases "ks_inbox (kc_side c p)")
    case Nil
    with fresh have "ks_deadline (kc_side c (other_side p)) \<le> l + ka_interval P + ka_latency P"
      by (simp add: ka_fresh_def)
    moreover have "kc_now c \<le> ks_deadline (kc_side c (other_side p)) + ka_tick_late P"
      using assms(2) [of "other_side p"] by (simp add: ka_alive_def)
    ultimately show ?thesis using bound by linarith
  next
    case (Cons x xs)
    with fresh have "fst x \<le> l + ka_interval P + ka_tick_late P + ka_latency P" by (simp add: ka_fresh_def)
    moreover have "kc_now c \<le> fst x + ka_latency P" using assms(2) [of p] Cons by (simp add: ka_alive_def)
    ultimately show ?thesis using bound by linarith
  qed
qed

text \<open>A message sent now finds the other side as fresh as an empty wire does.\<close>

lemma ka_fresh_sent:
  assumes "ka_fresh P c p l" and "kc_now c \<le> ks_deadline (kc_side c (other_side p)) + ka_tick_late P"
    and "ks_inbox (kc_side c' p) = ks_inbox (kc_side c p) @ [(kc_now c, m)]"
  shows "ka_fresh P c' p l"
  using assms by (cases "ks_inbox (kc_side c p)") (auto simp: ka_fresh_def)

lemma ka_alive_tick:
  assumes "ka_timely P" and alive: "\<And>p. ka_alive P c p" and due: "ks_deadline (kc_side c p) \<le> kc_now c"
  shows "ka_alive P (ka_handle P p (KeepaliveTick (kc_now c) (Inr ()))
      (ka_update p (\<lambda>sd. sd\<lparr> ks_deadline := ks_deadline sd + ka_interval P \<rparr>) c)) q"
proof -
  let ?c = "ka_update p (\<lambda>sd. sd\<lparr> ks_deadline := ks_deadline sd + ka_interval P \<rparr>) c"
  let ?d = "ka_handle P p (KeepaliveTick (kc_now c) (Inr ())) ?c"
  obtain l where l: "ks_last (kc_side c p) = Some l" "ka_fresh P c p l"
    using alive [of p] by (auto simp: ka_alive_def)
  have "kc_now c - l \<le> ka_timeout P p" by (rule ka_alive_within [OF assms(1) alive l(1)])
  then have e: "keepalive_loop (ka_timeout P p) l [KeepaliveTick (kc_now c) (Inr ())] = ([KeepaliveSent], Some l)"
    by simp
  have "ks_last (kc_side ?c p) = Some l" using l(1) by simp
  note after = ka_handle_side [OF this e]
  have p: "kc_side ?d p = (kc_side ?c p)\<lparr> ks_events := ks_events (kc_side c p) @ [KeepaliveTick (kc_now c) (Inr ())],
      ks_last := Some l \<rparr>"
    using after(1) by simp
  have o: "kc_side ?d (other_side p) =
      (kc_side c (other_side p))\<lparr> ks_inbox := ks_inbox (kc_side c (other_side p)) @ [(kc_now c, Keepalive)] \<rparr>"
    using after(2) [of "other_side p"] by simp
  have now: "kc_now ?d = kc_now c" by simp
  show ?thesis
  proof (cases "q = p")
    case True
    have "ka_fresh P ?d p l" using l(2) unfolding ka_fresh_def p o by (cases "ks_inbox (kc_side c p)") simp_all
    then show ?thesis using True alive [of p] due by (simp add: ka_alive_def p now)
  next
    case False
    then have q: "q = other_side p" by (rule side_cases)
    obtain k where k: "ks_last (kc_side c q) = Some k" "ka_fresh P c q k"
      using alive [of q] by (auto simp: ka_alive_def)
    have "kc_now c \<le> ks_deadline (kc_side c (other_side q)) + ka_tick_late P"
      using alive [of p] unfolding q ka_alive_def by simp
    moreover have "ks_inbox (kc_side ?d q) = ks_inbox (kc_side c q) @ [(kc_now c, Keepalive)]"
      unfolding q o by simp
    ultimately have "ka_fresh P ?d q k" by (rule ka_fresh_sent [OF k(2)])
    then show ?thesis using alive [of q] k(1) by (simp add: ka_alive_def q o now)
  qed
qed

lemma ka_alive_deliver:
  assumes alive: "\<And>p. ka_alive P c p" and head: "ks_inbox (kc_side c p) = (sent, m) # rest"
  shows "ka_alive P (ka_handle P p (ControlItem (kc_now c) (Some (Inr m)) (Inr ()))
      (ka_update p (\<lambda>sd. sd\<lparr> ks_inbox := rest \<rparr>) c)) q"
proof -
  let ?c = "ka_update p (\<lambda>sd. sd\<lparr> ks_inbox := rest \<rparr>) c"
  let ?e = "ControlItem (kc_now c) (Some (Inr m)) (Inr ())"
  let ?d = "ka_handle P p ?e ?c"
  let ?as = "if m = Keepalive then [KeepaliveAckSent] else []"
  have m: "m \<in> {Keepalive, KeepaliveAck}" using alive [of p] head by (simp add: ka_alive_def)
  obtain l where l: "ks_last (kc_side c p) = Some l" "ka_fresh P c p l"
    using alive [of p] by (auto simp: ka_alive_def)
  have e: "keepalive_loop (ka_timeout P p) l [?e] = (?as, Some (kc_now c))" using m by auto
  have "ks_last (kc_side ?c p) = Some l" using l(1) by simp
  note after = ka_handle_side [OF this e]
  have p: "kc_side ?d p = (kc_side c p)\<lparr> ks_inbox := rest, ks_events := ks_events (kc_side c p) @ [?e],
      ks_last := Some (kc_now c) \<rparr>"
    using after(1) by simp
  have o: "kc_side ?d (other_side p) = (kc_side c (other_side p))
      \<lparr> ks_inbox := ks_inbox (kc_side c (other_side p)) @ messages_of (kc_now c) ?as \<rparr>"
    using after(2) [of "other_side p"] by simp
  have now: "kc_now ?d = kc_now c" by simp
  show ?thesis
  proof (cases "q = p")
    case True
    have "ka_fresh P ?d p (kc_now c)"
    proof (cases rest)
      case Nil
      have "ks_deadline (kc_side c (other_side p)) \<le> kc_now c + ka_interval P"
        using alive [of "other_side p"] by (simp add: ka_alive_def)
      with Nil show ?thesis unfolding ka_fresh_def p o by simp
    next
      case (Cons x xs)
      then have "fst x \<le> kc_now c" using alive [of p] head by (simp add: ka_alive_def)
      with Cons show ?thesis unfolding ka_fresh_def p by simp
    qed
    then show ?thesis using True alive [of p] head by (simp add: ka_alive_def p now)
  next
    case False
    then have q: "q = other_side p" by (rule side_cases)
    obtain k where k: "ks_last (kc_side c q) = Some k" "ka_fresh P c q k"
      using alive [of q] by (auto simp: ka_alive_def)
    have "ka_fresh P ?d q k"
    proof (cases "m = Keepalive")
      case True
      have "kc_now c \<le> ks_deadline (kc_side c (other_side q)) + ka_tick_late P"
        using alive [of p] unfolding q ka_alive_def by simp
      moreover have "ks_inbox (kc_side ?d q) = ks_inbox (kc_side c q) @ [(kc_now c, KeepaliveAck)]"
        unfolding q o using True by simp
      ultimately show ?thesis by (rule ka_fresh_sent [OF k(2)])
    next
      case False
      then show ?thesis using k(2) unfolding ka_fresh_def q o other_side_twice p
        by (cases "ks_inbox (kc_side c (other_side p))") simp_all
    qed
    then show ?thesis using alive [of q] k(1) by (auto simp: ka_alive_def q o now)
  qed
qed

lemma ka_run_alive:
  assumes "ka_timely P" and "ka_run P c"
  shows "ka_alive P c p"
  using assms(2)
proof (induction arbitrary: p rule: ka_run.induct)
  case ka_begins
  have P: "ka_created P q \<le> ka_start P q" "ka_start P q \<le> ka_begin P" "ka_begin P \<le> ka_start P q + ka_latency P"
    "ka_begin P \<le> ka_created P q + ka_interval P + ka_tick_late P" for q
    using assms(1) by (simp_all add: ka_timely_def)
  show ?case
    using P [of p] P(1,2) [of "other_side p"] by (simp add: ka_alive_def ka_fresh_def ka_initial_def)
next
  case (ka_passes c t)
  then show ?case
    by (fastforce simp: ka_alive_def ka_fresh_def ka_on_time_def cong: list.case_cong)
next
  case (ka_ticks c p)
  show ?case using ka_ticks.hyps(3) by (intro ka_alive_tick [OF assms(1) ka_ticks.IH]) simp
next
  case (ka_delivers c p sent m rest)
  show ?case by (intro ka_alive_deliver [OF ka_delivers.IH ka_delivers.hyps(3)])
qed


lemma ka_running_task:
  assumes "ka_run P c" and "ka_running c" and "ka_interval P \<noteq> 0"
  shows "\<exists>as l. ka_task P c p = (as, Some l)"
proof -
  obtain l where "ks_last (kc_side c p) = Some l" using assms(2) unfolding ka_running_def by blast
  with ka_run_loop [OF assms(1), of p] obtain as where
    "keepalive_loop (ka_timeout P p) (ka_start P p) (ks_events (kc_side c p)) = (as, Some l)" by auto
  with assms(3) show ?thesis by (simp add: ka_task_def keepalive_task_def)
qed

section \<open>Intervals beyond the timeout\<close>

text \<open>Nothing has happened yet.\<close>

definition ka_untouched :: "ka_params \<Rightarrow> ka_conf \<Rightarrow> bool" where
  "ka_untouched P c \<longleftrightarrow> kc_side c = kc_side (ka_initial P)"

text \<open>
  Before the second task has ticked, the first one is either untouched or, once it has ticked
  after its timeout, closed.
\<close>

lemma ka_run_first_tick:
  assumes "ka_run P c" and "ka_interval P \<noteq> 0" and late: "ka_start P p + ka_timeout P p < ka_created P p + ka_interval P + ka_tick_early P"
    and "kc_now c < ka_created P (other_side p) + ka_interval P"
  shows "ka_untouched P c \<or> ka_task P c p = ([ConnectionClosed 1 ''keepalive timeout''], None)"
  using assms(1,4)
proof (induction rule: ka_run.induct)
  case ka_begins
  then show ?case by (simp add: ka_untouched_def)
next
  case (ka_passes c t)
  then show ?case by (simp add: ka_untouched_def ka_task_def)
next
  case (ka_ticks c q)
  have now: "kc_now c < ka_created P (other_side p) + ka_interval P" using ka_ticks.prems by simp
  have untouched: "kc_side c = kc_side (ka_initial P)"
    using ka_ticks.IH [OF now] ka_running_task [OF ka_ticks.hyps(1,2) assms(2), of p] by (auto simp: ka_untouched_def)
  then have due: "ka_created P q + ka_interval P + ka_tick_early P \<le> kc_now c"
    using ka_ticks.hyps(3) by (simp add: ka_initial_def)
  then have q: "q = p" using now by (cases "q = p") (auto dest: side_cases)
  let ?c = "ka_update p (\<lambda>sd. sd\<lparr> ks_deadline := ks_deadline sd + ka_interval P \<rparr>) c"
  have side: "ks_last (kc_side ?c p) = Some (ka_start P p)" "ks_events (kc_side ?c p) = []"
    by (simp_all add: untouched ka_initial_def)
  have "ka_timeout P p < kc_now c - ka_start P p" using due late unfolding q by arith
  then have closes: "keepalive_loop (ka_timeout P p) (ka_start P p) [KeepaliveTick (kc_now c) (Inr ())] =
      ([ConnectionClosed 1 ''keepalive timeout''], None)" by simp
  have "ks_events (kc_side (ka_handle P p (KeepaliveTick (kc_now c) (Inr ())) ?c) p) =
      [KeepaliveTick (kc_now c) (Inr ())]"
    using ka_handle_side(1) [OF side(1) closes] side(2) by simp
  with closes assms(2) show ?case by (simp add: ka_task_def keepalive_task_def q)
next
  case (ka_delivers c q sent m rest)
  then have "kc_side c = kc_side (ka_initial P)"
    using ka_running_task [OF ka_delivers.hyps(1,2) assms(2), of p] by (auto simp: ka_untouched_def)
  with ka_delivers.hyps(3) show ?case by (simp add: ka_initial_def)
qed


section \<open>Ticks are not left out\<close>

fun is_tick :: "keepalive_event \<Rightarrow> bool" where
  "is_tick (KeepaliveTick now sent) = True"
| "is_tick (ControlItem now item sent) = False"

lemma keepalives_of_ticks:
  "keepalive_loop timeout l es = (as, Some l') \<Longrightarrow> count_list as KeepaliveSent = length (filter is_tick es)"
proof (induction es arbitrary: l as)
  case Nil
  then show ?case by simp
next
  case (Cons e es)
  from Cons.prems obtain bs where
    "keepalive_loop timeout (keepalive_activity l e) es = (bs, Some l')" "as = keepalive_response e @ bs"
    unfolding keepalive_loop_Cons by blast
  with Cons.IH [OF this(1)] show ?case by (cases e) auto
qed

lemma ka_handle_events:
  "ks_last (kc_side c p) \<noteq> None \<Longrightarrow>
   ks_events (kc_side (ka_handle P p e c) q) = ks_events (kc_side c q) @ (if q = p then [e] else [])"
  "ks_deadline (kc_side (ka_handle P p e c) q) = ks_deadline (kc_side c q)"
  by (auto simp: ka_handle_def split: option.split prod.split)

lemma ka_run_ticks:
  "ka_run P c \<Longrightarrow> ks_deadline (kc_side c q) =
     ka_created P q + Suc (length (filter is_tick (ks_events (kc_side c q)))) * ka_interval P"
proof (induction arbitrary: q rule: ka_run.induct)
  case ka_begins
  then show ?case by (simp add: ka_initial_def)
next
  case (ka_passes c t)
  then show ?case by simp
next
  case (ka_ticks c p)
  then show ?case by (cases "q = p") (simp_all add: ka_handle_events ka_running_def)
next
  case (ka_delivers c p sent m rest)
  then show ?case by (cases "q = p") (simp_all add: ka_handle_events ka_running_def)
qed

section \<open>Properties\<close>

text \<open>C21: Live peers stay connected.  When the configured timeouts of both sides leave room for the
  interval, the delay of a tick and a round trip, then in every run of the two tasks against
  each other, whatever the order and the delays within these bounds, neither task leaves its
  loop, and each has sent a keepalive for every interval that has passed.\<close>

theorem live_peers_stay_connected:
  assumes spawned: "\<And>p. establish (cfg p) (quic p, ct, ka_interval P) = (conn p, ka_interval P, ka_timeout P p)"
    and interval: "ka_interval P \<noteq> 0"
    and room: "\<And>p. ka_interval P + ka_tick_late P + 2 * ka_latency P \<le> keepalive_timeout (cfg p)"
    and starts: "\<And>p. ka_created P p \<le> ka_start P p" "\<And>p. ka_start P p \<le> ka_begin P"
      "\<And>p. ka_begin P \<le> ka_start P p + ka_latency P"
      "\<And>p. ka_begin P \<le> ka_created P p + ka_interval P + ka_tick_late P"
    and run: "ka_run P c"
  shows "\<exists>as l. ka_task P c p = (as, Some l) \<and>
     kc_now c \<le> ka_created P p + Suc (count_list as KeepaliveSent) * ka_interval P + ka_tick_late P"
proof -
  have "ka_timeout P q = max (keepalive_timeout (cfg q)) (ka_interval P)" for q
    using spawned [of q] by (simp add: establish_def)
  then have "ka_timely P" using interval room starts by (auto simp: ka_timely_def intro: max.coboundedI1)
  from ka_run_alive [OF this run, of p] obtain l where
    l: "ks_last (kc_side c p) = Some l" and now: "kc_now c \<le> ks_deadline (kc_side c p) + ka_tick_late P"
    by (auto simp: ka_alive_def)
  from ka_run_loop [OF run, of p] l obtain as where
    as: "keepalive_loop (ka_timeout P p) (ka_start P p) (ks_events (kc_side c p)) = (as, Some l)" by auto
  then have "ka_task P c p = (as, Some l)" using interval by (simp add: ka_task_def keepalive_task_def)
  with now show ?thesis by (simp add: ka_run_ticks [OF run] keepalives_of_ticks [OF as])
qed

text \<open>The default configuration, the server's task a tenth of a second ahead of the client's,
  ticks between one and two milliseconds late.\<close>

definition sample_pair :: "duration \<Rightarrow> ka_params" where
  "sample_pair interval =
     \<lparr> ka_interval = interval,
       ka_timeout = (\<lambda>p. max (keepalive_timeout protofish_config_default) interval),
       ka_created = (\<lambda>p. if p = ServerSide then 0 else from_millis 100),
       ka_start = (\<lambda>p. if p = ServerSide then 0 else from_millis 100),
       ka_begin = from_millis 100, ka_tick_early = from_millis 1, ka_tick_late = from_millis 2,
       ka_latency = from_millis 150 \<rparr>"

lemma sample_pair_spawned:
  "\<exists>conn. establish protofish_config_default (quic :: nat, ct, ka_interval (sample_pair interval)) =
     (conn :: (nat, nat) protofish_connection, ka_interval (sample_pair interval), ka_timeout (sample_pair interval) p)"
  by (simp add: establish_def sample_pair_def)

theorem live_peers_stay_connected_witness:
  "\<exists>c as l. ka_run (sample_pair (from_secs 5)) c \<and> ks_events (kc_side c ServerSide) \<noteq> [] \<and>
     ka_task (sample_pair (from_secs 5)) c ServerSide = (as, Some l) \<and>
     kc_now c \<le> Suc (count_list as KeepaliveSent) * from_secs 5 + from_millis 2"
proof -
  let ?P = "sample_pair (from_secs 5)"
  let ?i = "ka_initial ?P"
  let ?t = "from_millis 5001"
  let ?c = "?i\<lparr> kc_now := ?t \<rparr>"
  note ms = from_secs_def from_millis_def
  have "ka_running ?i" "ka_running ?c" by (simp_all add: ka_running_def ka_initial_def)
  moreover have "kc_now ?i \<le> ?t" by (simp add: ka_initial_def sample_pair_def ms)
  moreover have "ka_on_time ?P ?t ?i" by (simp add: ka_on_time_def ka_initial_def sample_pair_def ms)
  moreover have "ks_deadline (kc_side ?c ServerSide) + ka_tick_early ?P \<le> kc_now ?c"
    by (simp add: ka_initial_def sample_pair_def ms)
  ultimately obtain c where run: "ka_run ?P c" and events: "ks_events (kc_side c ServerSide) \<noteq> []"
    using ka_ticks [OF ka_passes [OF ka_begins]] by (force simp: ka_handle_events ka_initial_def)
  obtain conn where spawned: "\<And>p. establish protofish_config_default (0 :: nat, Uncompressed, ka_interval ?P) =
      (conn :: (nat, nat) protofish_connection, ka_interval ?P, ka_timeout ?P p)"
    using sample_pair_spawned [of 0 Uncompressed "from_secs 5"] by (auto simp: establish_def sample_pair_def)
  have "ka_interval ?P + ka_tick_late ?P + 2 * ka_latency ?P \<le> keepalive_timeout protofish_config_default"
    by (simp add: sample_pair_def protofish_config_default_def ms)
  from live_peers_stay_connected [OF spawned _ this _ _ _ _ run, of ServerSide] run events
  show ?thesis by (auto simp: sample_pair_def ms)
qed

text \<open>C22: An interval that is not below the configured timeout disconnects live peers.  The timeout
  is then raised to the interval only, and a tick is handled a little after it is due: the side
  whose task starts first closes the connection at its first tick, before the other side had
  anything to send.  This happens in a run, and in every run in which the side has handled
  anything by then.\<close>

theorem long_interval_disconnects:
  assumes spawned: "establish cfg (quic, ct, ka_interval P) = (conn, ka_interval P, ka_timeout P p)"
    and interval: "ka_interval P \<noteq> 0" "keepalive_timeout cfg \<le> ka_interval P"
    and delays: "ka_start P p < ka_created P p + ka_tick_early P" "ka_tick_early P \<le> ka_tick_late P"
      "ka_begin P \<le> ka_created P p + ka_interval P + ka_tick_early P"
      "ka_created P p + ka_tick_early P < ka_created P (other_side p)"
  shows "(\<exists>c. ka_run P c \<and> ka_task P c p = ([ConnectionClosed 1 ''keepalive timeout''], None)) \<and>
     (\<forall>c. ka_run P c \<and> kc_now c < ka_created P (other_side p) + ka_interval P \<and> ks_events (kc_side c p) \<noteq> [] \<longrightarrow>
       ka_task P c p = ([ConnectionClosed 1 ''keepalive timeout''], None))"
proof -
  have "ka_timeout P p = ka_interval P"
    using spawned interval(2) by (simp add: establish_def max_def split: if_splits)
  then have late: "ka_start P p + ka_timeout P p < ka_created P p + ka_interval P + ka_tick_early P"
    using delays(1) by simp
  note closes = ka_run_first_tick [OF _ interval(1) late]
  have all: "ka_task P c p = ([ConnectionClosed 1 ''keepalive timeout''], None)"
    if "ka_run P c" "kc_now c < ka_created P (other_side p) + ka_interval P" "ks_events (kc_side c p) \<noteq> []" for c
    using closes [OF that(1,2)] that(3) by (auto simp: ka_untouched_def ka_initial_def)
  let ?t = "ka_created P p + ka_interval P + ka_tick_early P"
  let ?c = "(ka_initial P)\<lparr> kc_now := ?t \<rparr>"
  have "ks_deadline (kc_side (ka_initial P) q) = ka_created P q + ka_interval P" "ks_inbox (kc_side (ka_initial P) q) = []"
    "ks_last (kc_side (ka_initial P) q) = Some (ka_start P q)" for q
    by (simp_all add: ka_initial_def)
  note initial = this
  have "?t \<le> ka_created P q + ka_interval P + ka_tick_late P" for q
    using delays(2,4) by (cases "q = p") (auto dest: side_cases)
  then have waits: "ka_on_time P ?t (ka_initial P)" by (simp add: ka_on_time_def initial)
  have begins: "kc_now (ka_initial P) \<le> ?t" using delays(3) by (simp add: ka_initial_def)
  have running: "ka_running (ka_initial P)" "ka_running ?c" by (simp_all add: ka_running_def initial)
  from ka_passes [OF ka_begins running(1) begins waits] have run: "ka_run P ?c" .
  have "ks_deadline (kc_side ?c p) + ka_tick_early P \<le> kc_now ?c" by (simp add: initial)
  from ka_ticks [OF run running(2) this] show ?thesis
    using all delays(4) by (force simp: ka_handle_events initial)
qed

theorem long_interval_disconnects_witness:
  "\<exists>c. ka_run (sample_pair (from_secs 30)) c \<and>
     ka_task (sample_pair (from_secs 30)) c ServerSide = ([ConnectionClosed 1 ''keepalive timeout''], None)"
proof -
  let ?P = "sample_pair (from_secs 30)"
  obtain conn where spawned: "establish protofish_config_default (0 :: nat, Uncompressed, ka_interval ?P) =
      (conn :: (nat, nat) protofish_connection, ka_interval ?P, ka_timeout ?P ServerSide)"
    using sample_pair_spawned [of 0 Uncompressed "from_secs 30"] by blast
  have "ka_interval ?P \<noteq> 0" "keepalive_timeout protofish_config_default \<le> ka_interval ?P"
    "ka_start ?P ServerSide < ka_created ?P ServerSide + ka_tick_early ?P" "ka_tick_early ?P \<le> ka_tick_late ?P"
    "ka_begin ?P \<le> ka_created ?P ServerSide + ka_interval ?P + ka_tick_early ?P"
    "ka_created ?P ServerSide + ka_tick_early ?P < ka_created ?P (other_side ServerSide)"
    by (simp_all add: sample_pair_def protofish_config_default_def from_secs_def from_millis_def)
  from long_interval_disconnects [OF spawned this] show ?thesis by blast
qed

end
