(* ===== verification/Spec2Isabelle.thy ===== *)
theory Spec2Isabelle
  imports Loss_Recovery Reconnect Jitter Failed_Send Endpoint Flow_Control Framing Examples Keepalive_Pair
begin

text \<open>
  Protofish2 (\<^verbatim>\<open>src/src\<close>) is a transfer protocol over QUIC.  Two peers shake hands on a
  control stream, keep the connection alive there, and open \<^emph>\<open>Mani\<close> streams.  A Mani
  stream is a bidirectional QUIC stream for control messages; the contents of a transfer travel as
  datagrams, are compressed and fragmented by the sender, routed by stream identifier,
  reassembled, and handed to the application twice: on a reliable stream, which reorders them
  and asks for what is missing, and on an unreliable stream, as they come.  Credits of the
  receiver limit what the sender sends.

  \<^bold>\<open>Theories and sources.\<close>
  \<^item> \<open>Prelude\<close>: outcomes (\<open>Done\<close> or \<open>Panic\<close>), results as sums, machine integers, lists and
    maps shared by the components, the locales \<open>step_system\<close> and \<open>growing_system\<close>
    for invariants of event loops.
  \<^item> \<open>Bytes_Buf\<close>: the \<open>bytes\<close> crate as the parameter \<open>buf_ops\<close> with its laws
    (\<open>byte_buf\<close>), and codecs as locales.  \<open>be_ops\<close> is the big-endian instance.
  \<^item> \<open>Types\<close> (\<^verbatim>\<open>types.rs\<close>): identifiers, sequence numbers with their order and arithmetic.
  \<^item> \<open>Compression\<close> (\<^verbatim>\<open>compression.rs\<close>): compression types and their implementations over
    the crates \<open>flate2\<close>, \<open>zstd\<close> and \<open>lz4_flex\<close>.
  \<^item> \<open>Packet\<close> (\<^verbatim>\<open>datagram/packet.rs\<close>), \<open>Mani_Message\<close> (\<^verbatim>\<open>mani/message.rs\<close>), \<open>Mani_Codec\<close>
    (\<^verbatim>\<open>mani/codec.rs\<close>), \<open>Framing\<close> (\<^verbatim>\<open>mani/frame.rs\<close>), \<open>Conn_Codec\<close> (\<^verbatim>\<open>connection/message.rs\<close>,
    \<^verbatim>\<open>connection/codec.rs\<close>): data and wire formats.
  \<^item> \<open>Send_Stream\<close> (\<^verbatim>\<open>mani/transfer/send.rs\<close>): \<open>send\<close>, \<open>end_stream\<close> and dropping a send
    stream, with the retransmission buffer, over the credit bank of \<open>Backpressure\<close>
    (\<^verbatim>\<open>mani/transfer/backpressure.rs\<close>).
  \<^item> \<open>Router\<close> (\<^verbatim>\<open>datagram/router.rs\<close>): the routing task with its pending packets.
  \<^item> \<open>Reassembly\<close> (\<^verbatim>\<open>mani/transfer/compression.rs\<close>): the receive loop with the table of
    fragment groups; \<open>Failed_Send\<close>: what it makes of a send that failed halfway.
  \<^item> \<open>Reorder_Spec\<close>, \<open>Assembler\<close> (\<^verbatim>\<open>mani/transfer/assembler.rs\<close>): the contract of a reorder
    buffer and the buffer of the code.
  \<^item> \<open>Credit\<close>, \<open>Recv_Stream\<close> (\<^verbatim>\<open>mani/transfer/recv.rs\<close>): the credit coordinator and both
    receive streams; \<open>Opus_Stream\<close> (\<^verbatim>\<open>mani/transfer/opus.rs\<close>) and \<open>Jitter\<close>
    (\<^verbatim>\<open>mani/transfer/jitter.rs\<close>): the audio adapters on top of them.
  \<^item> \<open>Mani_Stream\<close> (\<^verbatim>\<open>mani/stream.rs\<close>): the task of a Mani stream, one definition per
    handler, its \<open>select!\<close> loop and the handle of the application.
  \<^item> \<open>Config\<close> (\<^verbatim>\<open>config.rs\<close>), \<open>Connection\<close> and \<open>Endpoint\<close> (\<^verbatim>\<open>connection/api.rs\<close>),
    \<open>Reconnect\<close> (\<^verbatim>\<open>connection/reconnect.rs\<close>): configuration, handshake, keepalive, opening of
    streams, binding and closing of endpoints, and reconnecting.
  \<^item> \<open>End_To_End\<close>, \<open>Loss_Recovery\<close>, \<open>Tail_Loss\<close>, \<open>Flow_Control\<close>, \<open>Late_Frames\<close> and this
    theory: what the components do together; \<open>Keepalive_Pair\<close>: the keepalive tasks of both
    ends against each other, with timers and messages in flight.
  \<^item> \<open>Peer_Audio\<close> (\<^verbatim>\<open>audio.rs\<close> and the playing loops of \<^verbatim>\<open>server.rs\<close>), \<open>Test_Peer\<close>
    (\<^verbatim>\<open>cert.rs\<close>, \<^verbatim>\<open>cli.rs\<close>, \<^verbatim>\<open>client.rs\<close>, \<^verbatim>\<open>server.rs\<close>, \<^verbatim>\<open>main.rs\<close>): the test peer of
    \<^verbatim>\<open>src/crates/pf2-test\<close>, which streams an audio file over the library;
    \<open>Peer_Transfer\<close>: a file from its client to its player.
  \<^item> \<open>Ogg_Example\<close> (\<^verbatim>\<open>examples/jitter_ogg\<close>), \<open>Examples\<close> (\<^verbatim>\<open>basic_connection.rs\<close>,
    \<^verbatim>\<open>reconnecting_client.rs\<close>): the example programs.

  \<^bold>\<open>State and operations.\<close>  A struct is a record with the fields of the source that
  carry state, an enum a datatype, a \<open>u8\<close> to \<open>u64\<close> a word; a \<open>Duration\<close> is a number of
  nanoseconds.  A method returns the updated record.  What a panic of the source ends (an
  arithmetic overflow with overflow checks, an index out of range, a \<open>Buf\<close> accessor on a
  buffer that is too short) is \<open>Panic\<close>; the flag \<open>oc\<close> of an operation tells whether overflow
  is checked, as in a debug build, or wraps.  \<open>Err\<close> is \<open>Inl\<close>.  What an operation does to
  the outside (datagrams sent, commands, messages written) is part of its result, and what the
  outside answers is an argument of it.  An \<open>await\<close> that may last for ever, such as the
  wait for a credit, has a value of its own for it.  An event loop is a function of the list
  of the events its \<open>select!\<close> completed with, so every recursion is structural or has a
  measure; no fuel is used anywhere.  The loop that polls the queue of the test peer's player
  may run for ever; it is a partial function into \<open>option\<close>, shown to end on a sink that
  plays what it is given.

  \<^bold>\<open>Interfaces.\<close>  \<open>byte_buf\<close> with \<open>codec\<close> and \<open>exact_codec\<close> (instances: \<open>be_ops\<close>, the
  packet, content, Mani and control formats); \<open>semaphore\<close> (\<open>counting_ops\<close>); \<open>lossless\<close> and
  \<open>lossless_libs\<close> (no compression; \<open>stored_libs\<close>); \<open>map_iteration\<close>, the order in which a
  hash map is iterated (\<open>sorted_keys\<close>); \<open>control_codec\<close>; \<open>framed_transport\<close>, framing of
  messages on a byte stream (\<open>ld_ops\<close>, the format of the length-delimited codec, fed in
  arbitrary chunks); \<open>audio_sink\<close> (\<open>steady_sink\<close>); \<open>wav_writer\<close> (\<open>kept_samples\<close>); \<open>peer_files\<close>, what a PEM file gives
  back (\<open>sample_peer_libs\<close>); \<open>reorder_buffer\<close> (the assembler of
  the code); \<open>step_system\<close> and \<open>growing_system\<close> (the router, the receive loop and the
  credit coordinator of the code).

  \<^bold>\<open>What is shown.\<close>
  \<^item> Wire formats: everything that fits its length fields is read back as it was written, and
    the parsers accept only what the serialisers write; on a byte stream that arrives in any
    chunks and may break off, the messages that arrived whole are read, in order.
  \<^item> Sender: a datagram never exceeds the size limit, fragments cover the content, a credit is
    spent for every content, the retransmission buffer holds exactly the last sends and stays
    within its size, the final sequence number is that of the last send.
  \<^item> Receiver: the datagrams of a send arriving in any order and with duplicates deliver its
    content once; the fragment table stays bounded and holds open groups only; the reorder buffer delivers in order,
    names gaps exactly and closes them; where it does not (a second gap beyond a first, a late
    duplicate, a packet too far ahead) is shown as well; the reliable stream ends only when
    everything was delivered; credits follow the slower of the two streams.  Where it hangs is
    shown too: when the last sends are lost, and when an empty transfer ends unattended.
  \<^item> Stream task: a NACK brings back exactly the packets asked for that are still kept, the
    writer is only closed when all ends are acknowledged, leaving the loop releases every
    sender that waits for credits; a second transfer on a stream is over before it starts.
  \<^item> Connection: both sides agree on compression and keepalive interval, a silent peer is
    noticed, two live peers stay connected when the timeout leaves room for the interval and
    a round trip, and do not when the interval is not below it; reconnecting ends within the retry limit and counts the connections made while
    somebody listens.
  \<^item> Audio: frames that overtake each other by less than the playout delay are played in order,
    frames later than that after the end.
  \<^item> Together: what successive sends were given is what the application at the other end
    reads, without loss and with it; flow control goes on for contents in single datagrams,
    and loses credits for fragmented ones; a file the test peer sends, in either mode, is
    what its player gets.

  \<^bold>\<open>Bounds.\<close>  Sequence numbers are not expected to wrap: transfers have fewer than
  \<open>2 ^ 32\<close> sends and a content fewer than \<open>2 ^ 16\<close> fragments.  The receiver's reorder
  buffer starts at sequence number 0, whatever the transfer announces.

  \<^bold>\<open>Not modelled.\<close>  TLS and the sockets themselves are \<open>quinn\<close> and \<open>rustls\<close>, parameters of
  \<open>Endpoint\<close>, and \<open>local_addr\<close> and \<open>remote_addr\<close> only ask them; the length-delimited framing is the codec of
  \<open>tokio-util\<close>, a parameter; \<open>clap\<close>, \<open>rodio\<close>, \<open>opus\<close>, \<open>ogg\<close>, \<open>hound\<close>, \<open>rcgen\<close> and the file system are
  parameters of the test peer and the examples; the interleaving of tasks is the order of the events, and
  wake-ups and logging have no state of their own; \<^verbatim>\<open>error.rs\<close> is an empty enum, and \<^verbatim>\<open>lib.rs\<close>
  and the \<^verbatim>\<open>mod.rs\<close> files only declare modules.  \<^verbatim>\<open>tests\<close> holds integration
  tests of the library.
\<close>

section \<open>A whole transfer\<close>

text \<open>C1: A transfer, end to end: the contents handed to successive successful sends are exactly what
  the receiving application reads from the reliable stream, in order, with their timestamps,
  followed by the end of the stream, if the datagrams of every send arrive before those of the
  next, in any order among themselves and with duplicates.  The datagrams pass the router, the
  reassembly and the reorder buffer of the receiver as they start, and the end is announced by
  the command that ending the send stream produces.\<close>

theorem transfer_end_to_end:
  assumes B: "byte_buf B" and lossless: "lossless (compress cmp) (decompress cmp)"
    and run: "transfer_run B S (send_stream_new sid Dual cmp (SequenceNumber 0) k Map.empty mtu) hist s"
    and hist: "hist \<noteq> []" "length hist < 2 ^ 32"
    and registered: "dr_senders router sid = Some channel"
    and sizes: "0 < groups" "0 < n"
  shows "\<exists>ps deliveries s' res f r c' es batches.
     router_run B router (map (DatagramRead now True) (arrivals_of hist)) =
       Done (router, map (\<lambda>p. (channel, p)) ps) \<and>
     receive_all B (packet_receiver_new 2 cmp groups) (map (\<lambda>p. (\<lambda>_. True, p)) ps) =
       Done (packet_receiver_new 2 cmp groups, deliveries, False) \<and>
     end_stream s response True reply = (s', [EndTransferCommand f response], res) \<and>
     recv_session oc (reliable_recv_new sid n) c
         (map PacketReceived (on_channel 0 deliveries) @ [PipelineCommand (PipelineEndTransfer f)]) =
       Done (r, c', es, batches, True) \<and>
     concat batches = chunks_of hist"
proof -
  let ?s0 = "send_stream_new sid Dual cmp (SequenceNumber 0) k Map.empty mtu"
  let ?r = "packet_receiver_new 2 cmp groups"
  have s0: "ss_compression ?s0 = cmp" "ss_id ?s0 = sid" "ss_sequence_counter ?s0 = SequenceNumber 0"
      "ss_initial_sequence_number ?s0 = SequenceNumber 0" "ss_command_sender ?s0"
    by (simp_all add: send_stream_new_def)
  have r: "pr_compression ?r = cmp" "pr_fragment_buffers ?r = Map.empty" "pr_max_fragment_groups ?r = groups"
      "pr_senders ?r = 2"
    by (simp_all add: packet_receiver_new_def)
  have loss: "lossless (compress (ss_compression ?s0)) (decompress (pr_compression ?r))"
    and table: "0 < pr_max_fragment_groups ?r" "0 < pr_senders ?r"
    using lossless sizes(1) by (simp_all add: s0 r)
  from transfer_run_received [OF run B loss r(2) table] obtain ps deliveries where
    ps: "arrivals_of hist = map (serialize_packet B) ps" "\<forall>p \<in> set ps. pkt_stream_id p = sid"
    and received: "receive_all B ?r (map (\<lambda>p. (\<lambda>_. True, p)) ps) = Done (?r, deliveries, False)"
    and channel: "on_channel 0 deliveries = map (\<lambda>(i, ts, content, ds).
       \<lparr> pkt_stream_id = sid, pkt_sequence_number = nth_seq (SequenceNumber 0) i,
         pkt_timestamp = ts, pkt_content = content \<rparr>) (enumerate 0 hist)"
    unfolding s0 by blast
  note seqs = seqs_of_sent [OF hist(2) channel]
  have len: "length (on_channel 0 deliveries) = length hist" by (simp add: channel)
  let ?f = "SequenceNumber (of_nat (length hist) - 1)"
  have "ss_sequence_counter s = SequenceNumber (of_nat (length hist))" "ss_command_sender s"
    using transfer_run_frame [OF run] by (simp_all add: s0 nth_seq_def)
  moreover have "ss_initial_sequence_number s = SequenceNumber 0"
    using transfer_run_frame [OF run] by (simp add: s0)
  ultimately have final: "\<exists>s' res. end_stream s response True reply = (s', [EndTransferCommand ?f response], res)"
    by (cases reply) (auto simp: end_stream_def stream_final_sequence_number_def)
  have "(of_nat (length hist) :: u32) - 1 = of_nat (length hist - 1)"
    using hist(1) by (simp add: of_nat_diff Suc_le_eq)
  then have "seq_nat ?f < length (on_channel 0 deliveries)"
    using hist by (simp add: len seq_nat_of_nat)
  from in_order_session [OF _ _ sizes(2) this, of oc sid c] seqs hist(2) len
  obtain r' c' es batches where "recv_session oc (reliable_recv_new sid n) c
         (map PacketReceived (on_channel 0 deliveries) @ [PipelineCommand (PipelineEndTransfer ?f)]) =
       Done (r', c', es, batches, True)" "concat batches = chunks_of hist" by auto
  moreover have "router_run B router (map (DatagramRead now True) (arrivals_of hist)) =
       Done (router, map (\<lambda>p. (channel, p)) ps)"
    using router_run_delivers [OF B registered ps(2)] by (simp add: ps(1) comp_def)
  ultimately show ?thesis using received final by blast
qed

theorem transfer_end_to_end_witness:
  "\<exists>arrivals ps deliveries r c' es batches.
     router_run be_ops (fst (router_register (router_new 4 5) (\<lambda>i. True) (ManiStreamId 7) ()))
         (map (DatagramRead 0 True) arrivals) =
       Done (fst (router_register (router_new 4 5) (\<lambda>i. True) (ManiStreamId 7) ()), map (\<lambda>p. ((), p)) ps) \<and>
     receive_all be_ops (packet_receiver_new 2 NoCompression 4) (map (\<lambda>p. (\<lambda>_. True, p)) ps) =
       Done (packet_receiver_new 2 NoCompression 4, deliveries, False) \<and>
     recv_session True (reliable_recv_new (ManiStreamId 7) 4) (credit_coordinator_new 1 True)
         (map PacketReceived (on_channel 0 deliveries) @ [PipelineCommand (PipelineEndTransfer (SequenceNumber 0))]) =
       Done (r, c', es, batches, True) \<and>
     concat batches = [\<lparr> chunk_timestamp = Timestamp 1, chunk_content = [9] \<rparr>]"
proof -
  obtain s bank' sent where send: "send be_ops counting_ops (\<lambda>_ _. Inr ()) (plain_stream None)
      \<lparr> bank_sem = (5, False) \<rparr> (Timestamp 1) [9] = Done (Returned s bank' sent (Inr ()))"
    using send_plain_stream [of None "[9]"] by (auto simp: needs_fragment_def)
  then obtain packets where "build_packets be_ops (plain_stream None) (Timestamp 1)
      (compress (ss_compression (plain_stream None)) [9]) = Done packets"
    and "sent = map (serialize_packet be_ops) packets"
    by (cases rule: send_ReturnedE) auto
  then obtain d where d: "sent = [d]"
    by (auto simp: compress_plain_stream build_plain_stream needs_fragment_def)
  let ?hist = "[(Timestamp 1, [9], [d])]"
  have run: "transfer_run be_ops counting_ops (plain_stream None) ?hist s"
    using transfer_run.one_more [OF transfer_run.no_sends send, of "[]" d] d by simp
  let ?router = "fst (router_register (router_new 4 5) (\<lambda>i. True) (ManiStreamId 7) ()) :: unit router"
  have registered: "dr_senders ?router (ManiStreamId 7) = Some ()"
    by (simp add: router_register_def router_new_def)
  have bounds: "?hist \<noteq> []" "length ?hist < 2 ^ 32" "0 < (4 :: nat)" by simp_all
  have f: "end_stream s 0 True None = (s', [EndTransferCommand f 0], res) \<Longrightarrow> f = SequenceNumber 0" for s' f res
    using transfer_run_frame [OF run]
    by (auto simp: end_stream_def stream_final_sequence_number_def plain_stream_def send_stream_new_def nth_seq_def
        split: if_splits)
  from transfer_end_to_end [OF byte_buf_be_ops no_compression.lossless_axioms run [unfolded plain_stream_def]
      bounds(1,2) registered bounds(3,3), of 0 0 None True "credit_coordinator_new 1 True"]
  show ?thesis using f by (fastforce simp: chunks_of_def)
qed

text \<open>C2: Losses are recovered, at any point of a transfer: when the receiver has delivered the
  first \<open>d\<close> sends and the datagrams of all later ones but the last are lost, the arrival of
  the last makes the receive stream send one NACK that names exactly the lost sends; the
  sender's task answers it with one message per lost datagram, which the receiver's task puts
  back on the datagram channel; and after reassembly the application has read every content
  from \<open>d\<close> on, in order, with its timestamp, and is where it can lose and recover again.  The
  gap has to fit the sender's retransmission buffer and stay below the limit of the receiver's
  reorder buffer.\<close>

theorem loss_recovered:
  assumes B: "byte_buf B" and lossless: "lossless (compress cmp) (decompress cmp)"
    and run: "content_run B Sem (send_stream_new sid Dual cmp (SequenceNumber 0) k Map.empty mtu) hist s"
    and hist: "length hist = Suc m" "d < m" "Suc m \<le> d + k" "k < 2 ^ 32" "Suc m - d < n" "Suc m < 2 ^ 32"
    and registered: "dr_senders router sid = Some channel" and groups: "0 < groups"
    and sender: "st_role t = SenderRole (ss_retransmission_buffer s) ack" "\<And>i. env_tx env i = (\<lambda>_. Inr ())"
    and receiver: "st_role u = ReceiverRole pipeline init" "st_id u = sid" "env_retrans_try_send env' = TrySendOk"
    and stream: "caught_up r n d"
  shows "\<exists>ps deliveries r1 c1 es1 b1 lost packets deliveries' r2 c2 es2 b2.
     router_run B router (map (DatagramRead now True) (snd (snd (last hist)))) =
       Done (router, map (\<lambda>p. (channel, p)) ps) \<and>
     receive_all B (packet_receiver_new 2 cmp groups) (all_alive ps) =
       Done (packet_receiver_new 2 cmp groups, deliveries, False) \<and>
     recv_session oc r c (map PacketReceived (on_channel 0 deliveries)) = Done (r1, c1, es1, b1, False) \<and>
     nacks_of es1 = [lost] \<and> lost = map (nth_seq (SequenceNumber 0)) [d ..< m] \<and>
     handle_nack B env t \<lparr> nack_sequence_numbers = lost \<rparr> =
       (t, map (\<lambda>p. Wrote (Retrans (retrans_of (pkt_sequence_number p) p))) packets, True) \<and>
     map (\<lambda>p. handle_message B L Sem env' u (read_frame B (received (serialize_mani_message B
         (Retrans (retrans_of (pkt_sequence_number p) p)))))) packets =
       map (\<lambda>p. Done (u, [RetransDelivered p], True)) packets \<and>
     receive_all B (packet_receiver_new 2 cmp groups) (all_alive packets) =
       Done (packet_receiver_new 2 cmp groups, deliveries', False) \<and>
     recv_session oc r1 c1 (map PacketReceived (on_channel 0 deliveries')) = Done (r2, c2, es2, b2, False) \<and>
     caught_up r2 n (Suc m) \<and> concat (b1 @ b2) = drop d (chunks_of hist)"
proof -
  let ?e = "delivery_of sid (SequenceNumber 0) hist"
  from sends_received [OF run B lossless groups] obtain ps where
    ps: "snd (snd (hist ! m)) = map (serialize_packet B) ps" "\<forall>p \<in> set ps. pkt_stream_id p = sid"
    and first: "receive_all B (packet_receiver_new 2 cmp groups) (all_alive ps) =
       Done (packet_receiver_new 2 cmp groups, map (\<lambda>i. (i, ?e m)) [0 ..< 2], False)"
    using hist(1) by (metis lessI)
  have arrives: "on_channel 0 (map (\<lambda>i. (i, ?e m)) [0 ..< 2]) = [?e m]"
    using on_channel_copies [of 2 ?e "[m]"] by simp
  have "m \<le> length hist" "length hist \<le> d + k" "0 < k" using hist by simp_all
  from nack_brings_back [OF B lossless run this hist(4) groups sender receiver, of L]
  obtain packets deliveries' where
    answered: "handle_nack B env t \<lparr> nack_sequence_numbers = map (nth_seq (SequenceNumber 0)) [d ..< m] \<rparr> =
       (t, map (\<lambda>p. Wrote (Retrans (retrans_of (pkt_sequence_number p) p))) packets, True)"
      "map (\<lambda>p. handle_message B L Sem env' u (read_frame B (received (serialize_mani_message B
         (Retrans (retrans_of (pkt_sequence_number p) p)))))) packets =
       map (\<lambda>p. Done (u, [RetransDelivered p], True)) packets"
      "receive_all B (packet_receiver_new 2 cmp groups) (all_alive packets) =
       Done (packet_receiver_new 2 cmp groups, deliveries', False)"
    and channel: "on_channel 0 deliveries' = map ?e [d ..< m]"
    by blast
  from history_recovered [OF stream hist(1,2,5,6), of oc c sid] obtain r1 c1 es1 b1 r2 c2 es2 b2 where
    sessions: "recv_session oc r c (map PacketReceived [?e m]) = Done (r1, c1, es1, b1, False)"
      "nacks_of es1 = [map (nth_seq (SequenceNumber 0)) [d ..< m]]"
      "recv_session oc r1 c1 (map PacketReceived (map ?e [d ..< m])) = Done (r2, c2, es2, b2, False)"
      "caught_up r2 n (Suc m)" "concat (b1 @ b2) = drop d (chunks_of hist)"
    by auto
  show ?thesis
    using last_send_arrives [OF B registered ps hist(1)] first sessions(1) [folded arrives] sessions(2) answered
      sessions(3) [folded channel] sessions(4,5) by blast
qed

theorem loss_recovered_witness:
  "\<exists>(s :: send_stream) r1 c1 es1 b1 packets deliveries r2 c2 es2 b2.
     nacks_of es1 = [[SequenceNumber 0]] \<and>
     handle_nack be_ops open_env (plain_task (SenderRole (ss_retransmission_buffer s) None))
         \<lparr> nack_sequence_numbers = [SequenceNumber 0] \<rparr> =
       (plain_task (SenderRole (ss_retransmission_buffer s) None),
        map (\<lambda>p. Wrote (Retrans (retrans_of (pkt_sequence_number p) p))) packets, True) \<and>
     receive_all be_ops (packet_receiver_new 2 NoCompression 4) (all_alive packets) =
       Done (packet_receiver_new 2 NoCompression 4, deliveries, False) \<and>
     recv_session True r1 c1 (map PacketReceived (on_channel 0 deliveries)) = Done (r2, c2, es2, b2, False) \<and>
     concat (b1 @ b2) =
       [\<lparr> chunk_timestamp = Timestamp 1, chunk_content = [7] \<rparr>, \<lparr> chunk_timestamp = Timestamp 2, chunk_content = [9, 9] \<rparr>]"
proof -
  obtain hist s where run: "content_run be_ops counting_ops (plain_stream None) hist s"
    and contents: "map (\<lambda>(ts, content, sent). (ts, content)) hist = [(Timestamp 1, [7]), (Timestamp 2, [9, 9])]"
    using plain_content_run by blast
  have hist: "length hist = Suc 1" using arg_cong [OF contents, of length] by simp
  have chunks: "chunks_of hist =
      [\<lparr> chunk_timestamp = Timestamp 1, chunk_content = [7] \<rparr>, \<lparr> chunk_timestamp = Timestamp 2, chunk_content = [9, 9] \<rparr>]"
    using contents by (auto simp: chunks_of_def map_eq_Cons_conv)
  let ?router = "fst (router_register (router_new 4 5) (\<lambda>i. True) (ManiStreamId 7) ()) :: unit router"
  have registered: "dr_senders ?router (ManiStreamId 7) = Some ()"
    by (simp add: router_register_def router_new_def)
  have sizes: "(0 :: nat) < 1" "Suc 1 \<le> (0 + 4 :: nat)" "(4 :: nat) < 2 ^ 32" "Suc 1 - 0 < (4 :: nat)"
    "Suc 1 < (2 ^ 32 :: nat)" "(0 :: nat) < 4" by simp_all
  have lost: "map (nth_seq (SequenceNumber 0)) [0 ..< 1] = [SequenceNumber 0]" by (simp add: nth_seq_def)
  from loss_recovered [OF byte_buf_be_ops no_compression.lossless_axioms run [unfolded plain_stream_def] hist sizes(1-5)
      registered sizes(6) plain_task_sel(2) open_env_sel(1) plain_task_sel(2,1) open_env_sel(4) caught_up_new [of "ManiStreamId 7"],
      of 0 True "credit_coordinator_new 1 True" None stored_libs True None]
  show ?thesis unfolding lost chunks drop_0 by blast
qed

end
